(* ===== verification/Prelude.thy ===== *)
theory Prelude
  imports Main "HOL-Library.Word"
begin

text \<open>
  Shared vocabulary of the development: bytes and Go strings, Go errors as values,
  methods on a pointer receiver as state transformers that may fail, and the generic
  facts about them that the component theories use.

  A Go string is a sequence of bytes, which is what \<^typ>\<open>string\<close> (a list of 8-bit
  characters) is; \<open>[]byte(s)\<close> and \<open>string(b)\<close> are \<open>bs\<close> and \<open>str\<close> below.
\<close>

unbundle bit_operations_syntax

text \<open>
  The collections the wire-format proofs run on: what writers append, what readers
  recognise, that readers stay inside their buffer, what a successful read means, and
  which errors a read can end with.
\<close>

named_theorems emits_rules
named_theorems parses_rules
named_theorems advances_rules
named_theorems reads_rules
named_theorems fails_rules

section \<open>Bytes and strings\<close>

type_synonym byte = "8 word"
type_synonym bytes = "byte list"

definition bs :: "string \<Rightarrow> bytes" where
  "bs s = map of_char s"

definition str :: "bytes \<Rightarrow> string" where
  "str b = map (\<lambda>x. char_of (unat x)) b"

lemma bs_Nil [simp]: "bs [] = []"
  by (simp add: bs_def)

lemma bs_Cons: "bs (c # s) = of_char c # bs s"
  by (simp add: bs_def)

lemma bs_append [simp]: "bs (s @ t) = bs s @ bs t"
  by (simp add: bs_def)

lemma length_bs [simp]: "length (bs s) = length s"
  by (simp add: bs_def)

lemma length_str [simp]: "length (str b) = length b"
  by (simp add: str_def)

lemma unat_of_char [simp]: "unat (of_char c :: byte) = of_char c"
  by (simp add: of_nat_of_char [symmetric, where 'a = byte] unat_of_nat)

lemma of_char_char_of_unat [simp]: "of_char (char_of (unat (b :: byte))) = b"
proof -
  have "unat b < 256" using unsigned_less [of b, where ?'a = nat] by simp
  then have "unat (of_char (char_of (unat b)) :: byte) = unat b" by simp
  then show ?thesis by (simp only: word_unat_eq_iff)
qed

lemma of_char_byte_eq [simp]: "(of_char c :: byte) = of_char d \<longleftrightarrow> c = d"
  by (metis of_char_eq_iff unat_of_char)

lemma str_bs [simp]: "str (bs s) = s"
  by (induction s) (simp_all add: bs_def str_def)

lemma bs_str [simp]: "bs (str b) = b"
  by (induction b) (simp_all add: bs_def str_def)

lemma bs_inject [simp]: "bs s = bs t \<longleftrightarrow> s = t"
  by (metis str_bs)

lemma str_inject [simp]: "str a = str b \<longleftrightarrow> a = b"
  by (metis bs_str)

lemma of_char_in_bs [simp]: "of_char c \<in> set (bs s) \<longleftrightarrow> c \<in> set s"
  by (auto simp: bs_def)

lemma in_str_iff [simp]: "c \<in> set (str b) \<longleftrightarrow> of_char c \<in> set b"
  by (metis bs_str of_char_in_bs)

lemma space_in_bs [simp]: "32 \<in> set (bs s) \<longleftrightarrow> CHR '' '' \<in> set s"
  using of_char_in_bs [of "CHR '' ''" s] by simp

lemma str_Nil [simp]: "str [] = []"
  by (simp add: str_def)

lemma str_eq_Nil [simp]: "str b = [] \<longleftrightarrow> b = []"
  by (simp add: str_def)

lemma bs_eq_Nil [simp]: "bs s = [] \<longleftrightarrow> s = []"
  by (simp add: bs_def)

text \<open>\<open>bytes.HasPrefix\<close> and \<open>strings.HasPrefix\<close>.\<close>

fun HasPrefix :: "'a list \<Rightarrow> 'a list \<Rightarrow> bool" where
  "HasPrefix xs [] = True"
| "HasPrefix [] (p # ps) = False"
| "HasPrefix (x # xs) (p # ps) = (x = p \<and> HasPrefix xs ps)"

lemma HasPrefix_iff: "HasPrefix xs ps \<longleftrightarrow> (\<exists>ys. xs = ps @ ys)"
  by (induction xs ps rule: HasPrefix.induct) auto

lemma HasPrefix_append [simp]: "HasPrefix (ps @ ys) ps"
  by (auto simp: HasPrefix_iff)

lemma HasPrefix_imp_append_drop: "HasPrefix xs ps \<Longrightarrow> xs = ps @ drop (length ps) xs"
  by (auto simp: HasPrefix_iff)

text \<open>\<open>bytes.IndexByte\<close> and \<open>strings.Index\<close> of a one-byte string: -1 when absent.\<close>

fun IndexByte :: "'a list \<Rightarrow> 'a \<Rightarrow> int" where
  "IndexByte [] c = -1"
| "IndexByte (x # xs) c =
     (if x = c then 0 else (let i = IndexByte xs c in if i = -1 then -1 else i + 1))"

lemma IndexByte_ge: "-1 \<le> IndexByte xs c"
  by (induction xs) (auto simp: Let_def)

lemma IndexByte_absent [simp]: "IndexByte xs c = -1 \<longleftrightarrow> c \<notin> set xs"
proof (induction xs)
  case (Cons x xs)
  then show ?case using IndexByte_ge [of xs c] by (auto simp: Let_def)
qed simp

lemma IndexByte_first [simp]: "c \<notin> set xs \<Longrightarrow> IndexByte (xs @ c # ys) c = int (length xs)"
  by (induction xs) (auto simp: Let_def)

lemma IndexByte_split:
  assumes "IndexByte xs c = i" "i \<noteq> -1"
  shows "0 \<le> i \<and> i < int (length xs) \<and> c \<notin> set (take (nat i) xs)
    \<and> xs = take (nat i) xs @ c # drop (nat (i + 1)) xs"
proof -
  from assms have "c \<in> set xs" by auto
  then obtain ys zs where "xs = ys @ c # zs" "c \<notin> set ys" by (meson split_list_first)
  with assms show ?thesis by (auto simp: nat_add_distrib)
qed

lemma length_8_word: "unat (of_nat n :: byte) = n" if "n < 256"
  using that by (simp add: unat_of_nat)

lemma append_eq_same_length:
  "length a = length b \<Longrightarrow> a @ r = b @ s \<longleftrightarrow> a = b \<and> r = s"
  by simp

section \<open>Errors\<close>

text \<open>
  The package-level \<open>errors.New\<close> values callers compare with \<open>errors.Is\<close>.
\<close>

datatype sentinel =
    ErrShortStringTooLong | ErrLargeStringTooLong | ErrTruncated | ErrBadEncoding
  | ErrBadBlock | ErrBadVersion | ErrBadSession | ErrIncompatibleVersion
  | ErrLargeBlock | ErrShortBlock | ErrFingerprintMismatch
  | ErrClientClosed | ErrBadQueueURI
  | CtxCanceled | CtxDeadlineExceeded

text \<open>
  An error value: a sentinel, an \<open>errors.New\<close> without a name, a \<open>fmt.Errorf\<close> with
  its format and arguments, an \<open>ERR\<close> reply of the server used as an error (the
  \<open>Error\<close> method of \<open>ErrMsg\<close>), or an error of a foreign package. A format argument
  is a number, a string, a byte slice, a wrapped error (verb \<open>%w\<close>) or an error that is
  only printed (verb \<open>%v\<close>).
\<close>

datatype go_err =
    Sentinel sentinel
  | ErrNew string
  | Errorf string "fmt_arg list"
  | BrokerErr string string
  | ForeignErr string
and fmt_arg = AInt int | AStr string | ABytes bytes | AWrap go_err | AVal go_err

type_synonym 'a result = "go_err + 'a"

text \<open>\<open>errors.Is\<close>: follows wrapped arguments only.\<close>

fun errors_is :: "go_err \<Rightarrow> sentinel \<Rightarrow> bool" and arg_is :: "fmt_arg \<Rightarrow> sentinel \<Rightarrow> bool" where
  "errors_is (Sentinel s) t = (s = t)"
| "errors_is (ErrNew m) t = False"
| "errors_is (Errorf f args) t = list_ex (\<lambda>a. arg_is a t) args"
| "errors_is (BrokerErr a b) t = False"
| "errors_is (ForeignErr m) t = False"
| "arg_is (AWrap e) t = errors_is e t"
| "arg_is (AInt i) t = False"
| "arg_is (AStr s) t = False"
| "arg_is (ABytes b) t = False"
| "arg_is (AVal e) t = False"

text \<open>\<open>fmt.Errorf("ctx: %w", err)\<close>, the form most wrappers take.\<close>

definition wrapf :: "string \<Rightarrow> go_err \<Rightarrow> go_err" where
  "wrapf f e = Errorf f [AWrap e]"

lemma errors_is_wrapf [simp]: "errors_is (wrapf f e) t = errors_is e t"
  by (simp add: wrapf_def)

text \<open>Results: the early return \<open>if err != nil { return ..., err }\<close>.\<close>

fun rbind :: "'a result \<Rightarrow> ('a \<Rightarrow> 'b result) \<Rightarrow> 'b result" where
  "rbind (Inl e) f = Inl e"
| "rbind (Inr x) f = f x"

fun rwrap :: "string \<Rightarrow> 'a result \<Rightarrow> 'a result" where
  "rwrap f (Inl e) = Inl (wrapf f e)"
| "rwrap f (Inr x) = Inr x"

lemma rbind_eq_Inr [simp]: "rbind r f = Inr y \<longleftrightarrow> (\<exists>x. r = Inr x \<and> f x = Inr y)"
  by (cases r) auto

lemma rbind_eq_Inl: "rbind r f = Inl e \<longleftrightarrow> r = Inl e \<or> (\<exists>x. r = Inr x \<and> f x = Inl e)"
  by (cases r) auto

lemma rwrap_eq_Inr [simp]: "rwrap f r = Inr y \<longleftrightarrow> r = Inr y"
  by (cases r) auto

lemma rwrap_eq_Inl: "rwrap f r = Inl e \<longleftrightarrow> (\<exists>e'. r = Inl e' \<and> e = wrapf f e')"
  by (cases r) auto

fun is_ok :: "'a result \<Rightarrow> bool" where
  "is_ok (Inl e) = False"
| "is_ok (Inr x) = True"

lemma is_ok_iff: "is_ok r \<longleftrightarrow> (\<exists>x. r = Inr x)"
  by (cases r) auto

section \<open>Methods on a pointer receiver\<close>

text \<open>
  A Go method with a pointer receiver reads and writes the receiver and may return an
  error; the receiver keeps the writes made before the error. \<open>op_bind\<close> is sequencing
  with the early return on error.
\<close>

type_synonym ('s, 'a) op = "'s \<Rightarrow> 'a result \<times> 's"

definition op_return :: "'a \<Rightarrow> ('s, 'a) op" where
  "op_return x s = (Inr x, s)"

definition op_fail :: "go_err \<Rightarrow> ('s, 'a) op" where
  "op_fail e s = (Inl e, s)"

definition op_bind :: "('s, 'a) op \<Rightarrow> ('a \<Rightarrow> ('s, 'b) op) \<Rightarrow> ('s, 'b) op" where
  "op_bind m f s = (case m s of (Inl e, s') \<Rightarrow> (Inl e, s') | (Inr x, s') \<Rightarrow> f x s')"

definition op_wrap :: "string \<Rightarrow> ('s, 'a) op \<Rightarrow> ('s, 'a) op" where
  "op_wrap f m s = (case m s of (Inl e, s') \<Rightarrow> (Inl (wrapf f e), s') | (Inr x, s') \<Rightarrow> (Inr x, s'))"

lemma op_return_simp [simp]: "op_return x s = (Inr x, s)"
  by (simp add: op_return_def)

lemma op_fail_simp [simp]: "op_fail e s = (Inl e, s)"
  by (simp add: op_fail_def)

lemma op_bind_simps:
  "m s = (Inl e, s') \<Longrightarrow> op_bind m f s = (Inl e, s')"
  "m s = (Inr x, s') \<Longrightarrow> op_bind m f s = f x s'"
  by (simp_all add: op_bind_def)

lemma op_wrap_simps:
  "m s = (Inl e, s') \<Longrightarrow> op_wrap f m s = (Inl (wrapf f e), s')"
  "m s = (Inr x, s') \<Longrightarrow> op_wrap f m s = (Inr x, s')"
  by (simp_all add: op_wrap_def)

lemma op_bind_eq_Inr:
  "op_bind m f s = (Inr y, s'') \<longleftrightarrow> (\<exists>x s'. m s = (Inr x, s') \<and> f x s' = (Inr y, s''))"
  by (auto simp: op_bind_def split: prod.splits sum.splits)

lemma snd_op_wrap [simp]: "snd (op_wrap f m s) = snd (m s)"
  by (simp add: op_wrap_def split: prod.splits sum.splits)

lemma op_wrap_eq_Inr [simp]: "op_wrap f m s = (Inr y, s') \<longleftrightarrow> m s = (Inr y, s')"
  by (auto simp: op_wrap_def split: prod.splits sum.splits)

end
