(* ===== verification/Wire_Encoding.thy ===== *)
theory Wire_Encoding
  imports Prelude
begin

text \<open>
  The wire primitives of \<open>smp/encoding.go\<close>: the append-only \<open>Encoder\<close>, the positional
  \<open>Decoder\<close>, and their methods, one definition per method. Below them the calculus the
  other theories use: \<open>emits\<close> (what a writer appends), \<open>parses\<close> (what a reader
  recognises in front of any remaining input), \<open>advances\<close> (a reader never leaves its
  buffer), and the interface \<open>wire_codec\<close> that pairs a writer with a reader.
\<close>

section \<open>Encoder\<close>

definition maxShortString :: int where "maxShortString = 255"
definition maxLargeString :: int where "maxLargeString = 65535"

record encoder =
  ebuf :: bytes

definition NewEncoder :: encoder where
  "NewEncoder = \<lparr>ebuf = []\<rparr>"

definition Encoder_Bytes :: "encoder \<Rightarrow> bytes" where
  "Encoder_Bytes e = ebuf e"

definition Encoder_Len :: "encoder \<Rightarrow> nat" where
  "Encoder_Len e = length (ebuf e)"

text \<open>\<open>e.buf = append(e.buf, v...)\<close>, the body of \<open>Raw\<close> and of \<open>Tail\<close>.\<close>

definition Encoder_Raw :: "bytes \<Rightarrow> (encoder, unit) op" where
  "Encoder_Raw v e = (Inr (), e\<lparr>ebuf := ebuf e @ v\<rparr>)"

definition Encoder_Tail :: "bytes \<Rightarrow> (encoder, unit) op" where
  "Encoder_Tail v e = (Inr (), e\<lparr>ebuf := ebuf e @ v\<rparr>)"

definition Encoder_Char :: "byte \<Rightarrow> (encoder, unit) op" where
  "Encoder_Char c e = (Inr (), e\<lparr>ebuf := ebuf e @ [c]\<rparr>)"

text \<open>\<open>binary.BigEndian.AppendUint16\<close> and \<open>AppendUint32\<close>.\<close>

definition be16 :: "16 word \<Rightarrow> bytes" where
  "be16 v = [ucast (drop_bit 8 v), ucast v]"

definition be32 :: "32 word \<Rightarrow> bytes" where
  "be32 v = [ucast (drop_bit 24 v), ucast (drop_bit 16 v), ucast (drop_bit 8 v), ucast v]"

definition Encoder_Word16 :: "16 word \<Rightarrow> (encoder, unit) op" where
  "Encoder_Word16 v e = (Inr (), e\<lparr>ebuf := ebuf e @ be16 v\<rparr>)"

definition Encoder_Word32 :: "32 word \<Rightarrow> (encoder, unit) op" where
  "Encoder_Word32 v e = (Inr (), e\<lparr>ebuf := ebuf e @ be32 v\<rparr>)"

text \<open>An \<open>int64\<close> is its two's complement bit pattern, so \<open>uint64(v)\<close> is \<open>v\<close>.\<close>

definition Encoder_Int64 :: "64 word \<Rightarrow> (encoder, unit) op" where
  "Encoder_Int64 v =
     op_bind (Encoder_Word32 (ucast (drop_bit 32 v))) (\<lambda>_. Encoder_Word32 (ucast v))"

definition Encoder_ShortString :: "bytes \<Rightarrow> (encoder, unit) op" where
  "Encoder_ShortString v e =
     (if int (length v) > maxShortString
      then (Inl (Errorf ''%w: %d bytes'' [AWrap (Sentinel ErrShortStringTooLong), AInt (int (length v))]), e)
      else (Inr (), e\<lparr>ebuf := ebuf e @ [of_nat (length v)] @ v\<rparr>))"

definition Encoder_Large :: "bytes \<Rightarrow> (encoder, unit) op" where
  "Encoder_Large v =
     (if int (length v) > maxLargeString
      then op_fail (Errorf ''%w: %d bytes'' [AWrap (Sentinel ErrLargeStringTooLong), AInt (int (length v))])
      else op_bind (Encoder_Word16 (of_nat (length v)))
             (\<lambda>_ e. (Inr (), e\<lparr>ebuf := ebuf e @ v\<rparr>)))"

definition Encoder_Bool :: "bool \<Rightarrow> (encoder, unit) op" where
  "Encoder_Bool v e =
     (if v then (Inr (), e\<lparr>ebuf := ebuf e @ bs ''T''\<rparr>)
      else (Inr (), e\<lparr>ebuf := ebuf e @ bs ''F''\<rparr>))"

definition Encoder_MaybeShortString :: "bool \<Rightarrow> bytes \<Rightarrow> (encoder, unit) op" where
  "Encoder_MaybeShortString present v =
     (if \<not> present then Encoder_Char (of_char (CHR ''0''))
      else op_bind (Encoder_Char (of_char (CHR ''1''))) (\<lambda>_. Encoder_ShortString v))"

text \<open>
  \<open>e := NewEncoder(); ...; return e.Bytes(), nil\<close> with the early returns of the calls
  in between.
\<close>

definition encode_with :: "(encoder, unit) op \<Rightarrow> bytes result" where
  "encode_with m =
     (case m NewEncoder of (Inl err, _) \<Rightarrow> Inl err | (Inr _, e) \<Rightarrow> Inr (Encoder_Bytes e))"

section \<open>Decoder\<close>

record decoder =
  dbuf :: bytes
  dpos :: int

definition NewDecoder :: "bytes \<Rightarrow> decoder" where
  "NewDecoder b = \<lparr>dbuf = b, dpos = 0\<rparr>"

definition Decoder_Remaining :: "decoder \<Rightarrow> int" where
  "Decoder_Remaining d = int (length (dbuf d)) - dpos d"

definition Decoder_Done :: "decoder \<Rightarrow> bool" where
  "Decoder_Done d \<longleftrightarrow> dpos d \<ge> int (length (dbuf d))"

text \<open>The slice \<open>b[lo:hi]\<close>, used where the bounds were checked.\<close>

definition slice :: "'a list \<Rightarrow> int \<Rightarrow> int \<Rightarrow> 'a list" where
  "slice b lo hi = take (nat (hi - lo)) (drop (nat lo) b)"

text \<open>The sum of position and length is taken on unbounded integers; \<open>Wire_Codec\<close> shows that it is
  the sum of Go's 64-bit integers for every length the package asks for.\<close>

definition Decoder_need :: "int \<Rightarrow> (decoder, bytes) op" where
  "Decoder_need n d =
     (if n < 0 \<or> dpos d + n > int (length (dbuf d))
      then (Inl (Errorf ''%w: need %d, have %d''
                  [AWrap (Sentinel ErrTruncated), AInt n, AInt (int (length (dbuf d)) - dpos d)]), d)
      else (Inr (slice (dbuf d) (dpos d) (dpos d + n)), d\<lparr>dpos := dpos d + n\<rparr>))"

text \<open>\<open>binary.BigEndian.Uint16\<close> and \<open>Uint32\<close> of a slice of the right length.\<close>

definition be_Uint16 :: "bytes \<Rightarrow> 16 word" where
  "be_Uint16 b = ucast (b ! 1) OR push_bit 8 (ucast (b ! 0))"

definition be_Uint32 :: "bytes \<Rightarrow> 32 word" where
  "be_Uint32 b = ucast (b ! 3) OR push_bit 8 (ucast (b ! 2))
     OR push_bit 16 (ucast (b ! 1)) OR push_bit 24 (ucast (b ! 0))"

definition Decoder_Word16 :: "(decoder, 16 word) op" where
  "Decoder_Word16 = op_bind (Decoder_need 2) (\<lambda>b. op_return (be_Uint16 b))"

definition Decoder_Word32 :: "(decoder, 32 word) op" where
  "Decoder_Word32 = op_bind (Decoder_need 4) (\<lambda>b. op_return (be_Uint32 b))"

definition Decoder_Int64 :: "(decoder, 64 word) op" where
  "Decoder_Int64 =
     op_bind Decoder_Word32 (\<lambda>hi. op_bind Decoder_Word32 (\<lambda>lo.
       op_return (push_bit 32 (ucast hi) OR ucast lo)))"

definition Decoder_ShortString :: "(decoder, bytes) op" where
  "Decoder_ShortString = op_bind (Decoder_need 1) (\<lambda>lb. Decoder_need (uint (lb ! 0)))"

definition Decoder_Large :: "(decoder, bytes) op" where
  "Decoder_Large = op_bind Decoder_Word16 (\<lambda>n. Decoder_need (uint n))"

definition Decoder_Bool :: "(decoder, bool) op" where
  "Decoder_Bool =
     op_bind (Decoder_need 1) (\<lambda>b.
       if b ! 0 = of_char (CHR ''T'') then op_return True
       else if b ! 0 = of_char (CHR ''F'') then op_return False
       else op_fail (Errorf ''%w: expected T/F, got %q'' [AWrap (Sentinel ErrBadEncoding), AInt (uint (b ! 0))]))"

definition Decoder_Char :: "(decoder, byte) op" where
  "Decoder_Char = op_bind (Decoder_need 1) (\<lambda>b. op_return (b ! 0))"

definition Decoder_Tail :: "decoder \<Rightarrow> bytes \<times> decoder" where
  "Decoder_Tail d =
     (slice (dbuf d) (dpos d) (int (length (dbuf d))), d\<lparr>dpos := int (length (dbuf d))\<rparr>)"

definition Decoder_MaybeShortString :: "(decoder, bool \<times> bytes) op" where
  "Decoder_MaybeShortString =
     op_bind Decoder_Char (\<lambda>tag.
       if tag = of_char (CHR ''0'') then op_return (False, [])
       else if tag = of_char (CHR ''1'')
         then op_bind Decoder_ShortString (\<lambda>v. op_return (True, v))
       else op_fail (Errorf ''%w: expected '0'/'1' Maybe tag, got %q''
              [AWrap (Sentinel ErrBadEncoding), AInt (uint tag)]))"

text \<open>\<open>Tail\<close> as an operation that cannot fail, for use in a sequence of reads.\<close>

definition tail_op :: "(decoder, bytes) op" where
  "tail_op d = (case Decoder_Tail d of (b, d') \<Rightarrow> (Inr b, d'))"

definition decode_with :: "(decoder, 'a) op \<Rightarrow> bytes \<Rightarrow> 'a result" where
  "decode_with p raw = fst (p (NewDecoder raw))"

section \<open>Big-endian words\<close>

lemma bits_beyond:
  "\<not> bit (b :: byte) (8 + n)" "\<not> bit (b :: byte) (16 + n)" "\<not> bit (b :: byte) (24 + n)"
  "\<not> bit (w :: 32 word) (32 + n)"
  using bit_imp_le_length [of b "8 + n"] bit_imp_le_length [of b "16 + n"]
    bit_imp_le_length [of b "24 + n"] bit_imp_le_length [of w "32 + n"]
  by auto

lemma be_Uint16_be16 [simp]: "be_Uint16 (be16 v) = v"
  unfolding be_Uint16_def be16_def
  by (rule bit_word_eqI)
    (auto simp: bit_or_iff bit_push_bit_iff bit_unsigned_iff bit_drop_bit_eq not_le le_add_diff_inverse)

lemma be_Uint32_be32 [simp]: "be_Uint32 (be32 v) = v"
proof (rule bit_word_eqI)
  fix n assume "n < LENGTH(32)"
  then consider "n < 8" | "8 \<le> n" "n < 16" | "16 \<le> n" "n < 24" | "24 \<le> n" "n < 32"
    by fastforce
  then show "bit (be_Uint32 (be32 v)) n = bit v n"
    by cases (auto simp: be_Uint32_def be32_def bit_simps)
qed

lemma length_2E: "length b = 2 \<Longrightarrow> \<exists>x y. b = [x, y]"
  by (auto simp: numeral_2_eq_2 length_Suc_conv)

lemma length_4E: "length b = 4 \<Longrightarrow> \<exists>x y z w. b = [x, y, z, w]"
  by (auto simp: numeral_eq_Suc length_Suc_conv)

lemma be16_be_Uint16: "length b = 2 \<Longrightarrow> be16 (be_Uint16 b) = b"
  by (auto dest!: length_2E simp: be16_def be_Uint16_def bit_simps intro!: bit_word_eqI simp: bits_beyond)

lemma be32_be_Uint32: "length b = 4 \<Longrightarrow> be32 (be_Uint32 b) = b"
  by (auto dest!: length_4E simp: be32_def be_Uint32_def bit_simps intro!: bit_word_eqI simp: bits_beyond)

lemma word64_join: "push_bit 32 (ucast (ucast (drop_bit 32 v) :: 32 word)) OR ucast (ucast v :: 32 word) = (v :: 64 word)"
proof (rule bit_word_eqI)
  fix n assume "n < LENGTH(64)"
  then show "bit (push_bit 32 (ucast (ucast (drop_bit 32 v) :: 32 word)) OR ucast (ucast v :: 32 word) :: 64 word) n = bit v n"
    by (cases "n < 32") (auto simp: bit_simps)
qed

lemma word64_split:
  "ucast (drop_bit 32 (push_bit 32 (ucast hi) OR ucast lo :: 64 word)) = (hi :: 32 word)"
  "ucast (push_bit 32 (ucast hi) OR ucast lo :: 64 word) = (lo :: 32 word)"
  by (auto simp: bit_simps intro!: bit_word_eqI simp: bits_beyond)
lemma length_be16 [simp]: "length (be16 v) = 2"
  by (simp add: be16_def)

lemma length_be32 [simp]: "length (be32 v) = 4"
  by (simp add: be32_def)

end
