(* ===== verification/Wire_Codec.thy ===== *)
theory Wire_Codec
  imports Wire_Encoding
begin

text \<open>
  The proof calculus of the wire format. \<open>emits m xs\<close>: the writer \<open>m\<close> succeeds on
  every encoder and appends exactly \<open>xs\<close>. \<open>parses p xs x\<close>: wherever the unread input
  starts with \<open>xs\<close>, the reader \<open>p\<close> returns \<open>x\<close> and stops right behind \<open>xs\<close>.
  \<open>advances p\<close>: the reader keeps the position inside the buffer, on errors too.
  \<open>reads p R\<close>: what a success of \<open>p\<close> says about the bytes it consumed. \<open>fails_with
  p S\<close>: which sentinels an error of \<open>p\<close> wraps. Each is closed under sequencing, so a
  composite reader or writer is proved by applying the rules of its parts.
\<close>

section \<open>Unread input and well-formed decoders\<close>

definition dec_wf :: "decoder \<Rightarrow> bool" where
  "dec_wf d \<longleftrightarrow> 0 \<le> dpos d \<and> dpos d \<le> int (length (dbuf d))"

definition unread :: "decoder \<Rightarrow> bytes" where
  "unread d = drop (nat (dpos d)) (dbuf d)"

lemma dec_wf_NewDecoder [simp]: "dec_wf (NewDecoder b)"
  by (simp add: dec_wf_def NewDecoder_def)

lemma unread_NewDecoder [simp]: "unread (NewDecoder b) = b"
  by (simp add: unread_def NewDecoder_def)

lemma dbuf_NewDecoder [simp]: "dbuf (NewDecoder b) = b"
  by (simp add: NewDecoder_def)

lemma length_unread: "dec_wf d \<Longrightarrow> int (length (unread d)) = int (length (dbuf d)) - dpos d"
  by (auto simp: dec_wf_def unread_def nat_le_iff of_nat_diff)

lemma Decoder_Remaining_unread: "dec_wf d \<Longrightarrow> Decoder_Remaining d = int (length (unread d))"
  by (simp add: Decoder_Remaining_def length_unread)

text \<open>The one primitive all reads go through, over the unread input.\<close>

lemma Decoder_need_ok:
  assumes "dec_wf d" "unread d = xs @ r"
  shows "Decoder_need (int (length xs)) d = (Inr xs, d\<lparr>dpos := dpos d + int (length xs)\<rparr>)"
    and "dec_wf (d\<lparr>dpos := dpos d + int (length xs)\<rparr>)"
    and "unread (d\<lparr>dpos := dpos d + int (length xs)\<rparr>) = r"
proof -
  have len: "int (length xs) + int (length r) = int (length (dbuf d)) - dpos d"
    using length_unread [OF assms(1)] assms(2) by simp
  have tk: "take (length xs) (drop (nat (dpos d)) (dbuf d)) = xs"
    using assms(2) by (simp add: unread_def)
  have pos: "0 \<le> dpos d" using assms(1) by (simp add: dec_wf_def)
  show "Decoder_need (int (length xs)) d = (Inr xs, d\<lparr>dpos := dpos d + int (length xs)\<rparr>)"
    using len tk by (simp add: Decoder_need_def slice_def)
  show "dec_wf (d\<lparr>dpos := dpos d + int (length xs)\<rparr>)"
    using len pos by (simp add: dec_wf_def)
  have "unread (d\<lparr>dpos := dpos d + int (length xs)\<rparr>) = drop (length xs) (unread d)"
    using pos by (simp add: unread_def nat_add_distrib add.commute)
  then show "unread (d\<lparr>dpos := dpos d + int (length xs)\<rparr>) = r"
    by (simp add: assms(2))
qed

lemma Decoder_need_Inr:
  assumes wf: "dec_wf d" and ok: "Decoder_need n d = (Inr b, d')"
  shows "0 \<le> n" "int (length b) = n" "unread d = b @ unread d'" "dec_wf d'" "dbuf d' = dbuf d"
proof -
  from ok have n: "0 \<le> n" and fits: "dpos d + n \<le> int (length (dbuf d))"
    and b: "b = slice (dbuf d) (dpos d) (dpos d + n)" and d': "d' = d\<lparr>dpos := dpos d + n\<rparr>"
    by (auto simp: Decoder_need_def split: if_splits)
  show "0 \<le> n" by (rule n)
  have pos: "0 \<le> dpos d" using wf by (simp add: dec_wf_def)
  have b': "b = take (nat n) (unread d)"
    using n by (simp add: b slice_def unread_def)
  then show "int (length b) = n"
    using n fits length_unread [OF wf] by simp
  have "unread d' = drop (nat n) (unread d)"
    using pos n by (simp add: d' unread_def nat_add_distrib add.commute)
  then show "unread d = b @ unread d'" by (simp add: b')
  show "dec_wf d'" using n pos fits by (simp add: d' dec_wf_def)
  show "dbuf d' = dbuf d" by (simp add: d')
qed

section \<open>Writers\<close>

definition emits :: "(encoder, unit) op \<Rightarrow> bytes \<Rightarrow> bool" where
  "emits m xs \<longleftrightarrow> (\<forall>e. m e = (Inr (), e\<lparr>ebuf := ebuf e @ xs\<rparr>))"

lemma emitsD: "emits m xs \<Longrightarrow> m e = (Inr (), e\<lparr>ebuf := ebuf e @ xs\<rparr>)"
  by (simp add: emits_def)

lemma encode_with_emits: "emits m xs \<Longrightarrow> encode_with m = Inr xs"
  by (simp add: emits_def encode_with_def NewEncoder_def Encoder_Bytes_def)

lemma emits_bind [emits_rules]:
  "emits m xs \<Longrightarrow> emits (f ()) ys \<Longrightarrow> emits (op_bind m f) (xs @ ys)"
  by (simp add: emits_def op_bind_def)

lemma emits_wrap [emits_rules]: "emits m xs \<Longrightarrow> emits (op_wrap s m) xs"
  by (simp add: emits_def op_wrap_def)

lemma emits_return [emits_rules]: "emits (op_return ()) []"
  by (simp add: emits_def)

lemma emits_Raw [emits_rules]: "emits (Encoder_Raw v) v"
  by (simp add: emits_def Encoder_Raw_def)

lemma emits_Tail [emits_rules]: "emits (Encoder_Tail v) v"
  by (simp add: emits_def Encoder_Tail_def)

lemma emits_Char [emits_rules]: "emits (Encoder_Char c) [c]"
  by (simp add: emits_def Encoder_Char_def)

lemma emits_Word16 [emits_rules]: "emits (Encoder_Word16 v) (be16 v)"
  by (simp add: emits_def Encoder_Word16_def)

lemma emits_Word32 [emits_rules]: "emits (Encoder_Word32 v) (be32 v)"
  by (simp add: emits_def Encoder_Word32_def)

text \<open>The encodings of the primitives as functions, the specification the methods meet.\<close>

definition int64_wire :: "64 word \<Rightarrow> bytes" where
  "int64_wire v = be32 (ucast (drop_bit 32 v)) @ be32 (ucast v)"

definition short_wire :: "bytes \<Rightarrow> bytes" where
  "short_wire v = of_nat (length v) # v"

definition large_wire :: "bytes \<Rightarrow> bytes" where
  "large_wire v = be16 (of_nat (length v)) @ v"

definition bool_wire :: "bool \<Rightarrow> bytes" where
  "bool_wire v = (if v then bs ''T'' else bs ''F'')"

definition maybe_wire :: "bool \<Rightarrow> bytes \<Rightarrow> bytes" where
  "maybe_wire present v = (if present then of_char (CHR ''1'') # short_wire v else [of_char (CHR ''0'')])"

lemma emits_Int64 [emits_rules]: "emits (Encoder_Int64 v) (int64_wire v)"
  unfolding Encoder_Int64_def int64_wire_def by (intro emits_rules)

lemma emits_ShortString [emits_rules]:
  "length v \<le> 255 \<Longrightarrow> emits (Encoder_ShortString v) (short_wire v)"
  by (simp add: emits_def Encoder_ShortString_def short_wire_def maxShortString_def)

lemma emits_Large [emits_rules]:
  "length v \<le> 65535 \<Longrightarrow> emits (Encoder_Large v) (large_wire v)"
  by (simp add: emits_def Encoder_Large_def large_wire_def maxLargeString_def op_bind_def Encoder_Word16_def)

lemma emits_Bool [emits_rules]: "emits (Encoder_Bool v) (bool_wire v)"
  by (simp add: emits_def Encoder_Bool_def bool_wire_def)

lemma emits_MaybeShortString [emits_rules]:
  assumes "present \<longrightarrow> length v \<le> 255"
  shows "emits (Encoder_MaybeShortString present v) (maybe_wire present v)"
proof (cases present)
  case True
  have "emits (op_bind (Encoder_Char (of_char (CHR ''1''))) (\<lambda>_. Encoder_ShortString v))
          ([of_char (CHR ''1'')] @ short_wire v)"
    using True assms by (intro emits_rules) simp
  with True show ?thesis by (simp add: Encoder_MaybeShortString_def maybe_wire_def)
next
  case False
  then show ?thesis by (simp add: Encoder_MaybeShortString_def maybe_wire_def emits_Char)
qed

text \<open>The only way a primitive write fails, and what it leaves behind.\<close>

lemma Encoder_ShortString_too_long:
  "255 < length v \<Longrightarrow> \<exists>err. Encoder_ShortString v e = (Inl err, e) \<and> errors_is err ErrShortStringTooLong"
  by (simp add: Encoder_ShortString_def maxShortString_def)

lemma Encoder_Large_too_long:
  "65535 < length v \<Longrightarrow> \<exists>err. Encoder_Large v e = (Inl err, e) \<and> errors_is err ErrLargeStringTooLong"
  by (simp add: Encoder_Large_def maxLargeString_def)

text \<open>\<open>rejects m s\<close>: the writer fails on every encoder, with an error that wraps \<open>s\<close>.\<close>

definition rejects :: "(encoder, unit) op \<Rightarrow> sentinel \<Rightarrow> bool" where
  "rejects m s \<longleftrightarrow> (\<forall>e. \<exists>err e'. m e = (Inl err, e') \<and> errors_is err s)"

lemma rejects_wrap: "rejects m s \<Longrightarrow> rejects (op_wrap f m) s"
  unfolding rejects_def by (metis errors_is_wrapf op_wrap_simps(1))

lemma rejects_here: "rejects m s \<Longrightarrow> rejects (op_bind m f) s"
  unfolding rejects_def by (metis op_bind_simps(1))

lemma rejects_later: "emits m xs \<Longrightarrow> rejects (f ()) s \<Longrightarrow> rejects (op_bind m f) s"
  unfolding rejects_def emits_def by (metis op_bind_simps(2))

lemma rejects_ShortString: "255 < length v \<Longrightarrow> rejects (Encoder_ShortString v) ErrShortStringTooLong"
  using Encoder_ShortString_too_long unfolding rejects_def by blast

lemma rejects_MaybeShortString:
  "p \<Longrightarrow> 255 < length v \<Longrightarrow> rejects (Encoder_MaybeShortString p v) ErrShortStringTooLong"
  by (auto simp: Encoder_MaybeShortString_def intro: rejects_later emits_Char rejects_ShortString)

lemma encode_with_rejects: "rejects m s \<Longrightarrow> \<exists>err. encode_with m = Inl err \<and> errors_is err s"
  unfolding rejects_def encode_with_def by (metis (no_types, lifting) case_prod_conv sum.case(1))

section \<open>Readers\<close>

definition parses :: "(decoder, 'a) op \<Rightarrow> bytes \<Rightarrow> 'a \<Rightarrow> bool" where
  "parses p xs x \<longleftrightarrow>
     (\<forall>d r. dec_wf d \<longrightarrow> unread d = xs @ r \<longrightarrow>
        (\<exists>d'. p d = (Inr x, d') \<and> dec_wf d' \<and> dbuf d' = dbuf d \<and> unread d' = r))"

text \<open>The same for readers that end with \<open>Tail\<close> and so need the whole input.\<close>

definition parses_all :: "(decoder, 'a) op \<Rightarrow> bytes \<Rightarrow> 'a \<Rightarrow> bool" where
  "parses_all p xs x \<longleftrightarrow> (\<forall>d. dec_wf d \<longrightarrow> unread d = xs \<longrightarrow> fst (p d) = Inr x)"

lemma parsesE:
  assumes "parses p xs x" "dec_wf d" "unread d = xs @ r"
  obtains d' where "p d = (Inr x, d')" "dec_wf d'" "dbuf d' = dbuf d" "unread d' = r"
  using assms unfolding parses_def by blast

lemma op_bind_parses:
  assumes "parses p xs a" "dec_wf d" "unread d = xs @ r"
  obtains d' where "op_bind p f d = f a d'" "dec_wf d'" "unread d' = r"
  using assms by (auto elim!: parsesE simp: op_bind_simps)

lemma parses_imp_all: "parses p xs x \<Longrightarrow> parses_all p xs x"
  unfolding parses_def parses_all_def by (metis append_Nil2 fst_conv)

lemma decode_with_parses: "parses p xs x \<Longrightarrow> decode_with p (xs @ r) = Inr x"
  unfolding decode_with_def
  by (erule parsesE [where d = "NewDecoder (xs @ r)" and r = r]) simp_all

lemma decode_with_all: "parses_all p xs x \<Longrightarrow> decode_with p xs = Inr x"
  by (simp add: decode_with_def parses_all_def)

lemma parses_return [parses_rules]: "parses (op_return x) [] x"
  by (simp add: parses_def)

lemma parses_bind [parses_rules]:
  assumes p: "parses p xs a" and f: "parses (f a) ys b"
  shows "parses (op_bind p f) (xs @ ys) b"
  unfolding parses_def
proof (intro allI impI)
  fix d r
  assume d: "dec_wf d" "unread d = (xs @ ys) @ r"
  then have "unread d = xs @ (ys @ r)" by simp
  then obtain d1 where 1: "p d = (Inr a, d1)" "dec_wf d1" "dbuf d1 = dbuf d" "unread d1 = ys @ r"
    by (rule parsesE [OF p d(1)])
  then obtain d2 where "f a d1 = (Inr b, d2)" "dec_wf d2" "dbuf d2 = dbuf d1" "unread d2 = r"
    by (blast elim: parsesE [OF f])
  with 1 show "\<exists>d'. op_bind p f d = (Inr b, d') \<and> dec_wf d' \<and> dbuf d' = dbuf d \<and> unread d' = r"
    by (simp add: op_bind_simps)
qed

lemma parses_all_bind:
  assumes p: "parses p xs a" and f: "parses_all (f a) ys b"
  shows "parses_all (op_bind p f) (xs @ ys) b"
  unfolding parses_all_def
proof (intro allI impI)
  fix d
  assume d: "dec_wf d" "unread d = xs @ ys"
  then obtain d1 where "p d = (Inr a, d1)" "dec_wf d1" "unread d1 = ys"
    by (rule parsesE [OF p])
  with f show "fst (op_bind p f d) = Inr b"
    by (simp add: op_bind_simps parses_all_def)
qed

lemma parses_wrap [parses_rules]: "parses p xs a \<Longrightarrow> parses (op_wrap s p) xs a"
  unfolding parses_def by (metis op_wrap_simps(2))

lemma parses_need [parses_rules]: "n = int (length xs) \<Longrightarrow> parses (Decoder_need n) xs xs"
  unfolding parses_def using Decoder_need_ok by fastforce

lemma parses_all_tail: "parses_all tail_op xs xs"
  by (auto simp: parses_all_def tail_op_def Decoder_Tail_def slice_def unread_def dec_wf_def
      nat_diff_distrib)

lemma parses_all_tail_bind:
  assumes "\<And>d. fst (f xs d) = Inr b"
  shows "parses_all (op_bind tail_op f) xs b"
  using parses_all_tail [of xs] assms
  by (auto simp: parses_all_def op_bind_def split: prod.splits sum.splits)

lemma parses_Word16 [parses_rules]: "parses Decoder_Word16 (be16 v) v"
proof -
  have "parses (op_bind (Decoder_need 2) (\<lambda>b. op_return (be_Uint16 b))) (be16 v @ []) v"
    by (rule parses_bind) (use parses_return [of v] in \<open>auto intro: parses_need\<close>)
  then show ?thesis by (simp add: Decoder_Word16_def)
qed

lemma parses_Word32 [parses_rules]: "parses Decoder_Word32 (be32 v) v"
proof -
  have "parses (op_bind (Decoder_need 4) (\<lambda>b. op_return (be_Uint32 b))) (be32 v @ []) v"
    by (rule parses_bind) (use parses_return [of v] in \<open>auto intro: parses_need\<close>)
  then show ?thesis by (simp add: Decoder_Word32_def)
qed

lemma parses_Int64 [parses_rules]: "parses Decoder_Int64 (int64_wire v) v"
proof -
  have "parses Decoder_Int64 (be32 (ucast (drop_bit 32 v)) @ be32 (ucast v) @ []) v"
    unfolding Decoder_Int64_def
    by (rule parses_bind parses_Word32)+ (use parses_return [of v] in \<open>simp add: word64_join\<close>)
  then show ?thesis by (simp add: int64_wire_def)
qed

lemma uint_of_nat_byte: "n \<le> 255 \<Longrightarrow> uint (of_nat n :: byte) = int n"
  by (simp add: unsigned_of_nat take_bit_eq_mod)

lemma uint_of_nat_16: "n \<le> 65535 \<Longrightarrow> uint (of_nat n :: 16 word) = int n"
  by (simp add: unsigned_of_nat take_bit_eq_mod)

lemma parses_ShortString [parses_rules]:
  assumes "length v \<le> 255"
  shows "parses Decoder_ShortString (short_wire v) v"
proof -
  have "parses Decoder_ShortString ([of_nat (length v)] @ v) v"
    unfolding Decoder_ShortString_def
    by (rule parses_bind [OF parses_need]) (auto intro: parses_need simp: uint_of_nat_byte assms)
  then show ?thesis by (simp add: short_wire_def)
qed

text \<open>The usual field: a short string whose error is wrapped, then the rest of the message.\<close>

lemma parses_short_field:
  "length v \<le> 255 \<Longrightarrow> parses (f v) ys b
    \<Longrightarrow> parses (op_bind (op_wrap s Decoder_ShortString) f) (short_wire v @ ys) b"
  by (rule parses_bind [OF parses_wrap [OF parses_ShortString]])

lemma parses_all_short_field:
  "length v \<le> 255 \<Longrightarrow> parses_all (f v) ys b
    \<Longrightarrow> parses_all (op_bind (op_wrap s Decoder_ShortString) f) (short_wire v @ ys) b"
  by (rule parses_all_bind [OF parses_wrap [OF parses_ShortString]])

lemma parses_Large [parses_rules]:
  assumes "length v \<le> 65535"
  shows "parses Decoder_Large (large_wire v) v"
  unfolding Decoder_Large_def large_wire_def
  by (rule parses_bind [OF parses_Word16]) (auto intro: parses_need simp: uint_of_nat_16 assms)

lemma parses_Char [parses_rules]: "parses Decoder_Char [c] c"
proof -
  have "parses Decoder_Char ([c] @ []) c"
    unfolding Decoder_Char_def
    by (rule parses_bind [OF parses_need]) (use parses_return [of c] in auto)
  then show ?thesis by simp
qed

lemma parses_Bool [parses_rules]: "parses Decoder_Bool (bool_wire v) v"
proof -
  have "parses Decoder_Bool (bool_wire v @ []) v"
    unfolding Decoder_Bool_def
    by (rule parses_bind [OF parses_need])
      (use parses_return [of v] in \<open>auto simp: bool_wire_def bs_Cons\<close>)
  then show ?thesis by simp
qed

lemma parses_MaybeShortString [parses_rules]:
  assumes "if present then length v \<le> 255 else v = []"
  shows "parses Decoder_MaybeShortString (maybe_wire present v) (present, v)"
proof (cases present)
  case True
  have "parses (op_bind Decoder_ShortString (\<lambda>v. op_return (True, v))) (short_wire v @ []) (True, v)"
    using True assms by (intro parses_bind [OF parses_ShortString] parses_return) simp
  then have "parses Decoder_MaybeShortString ([of_char (CHR ''1'')] @ short_wire v) (True, v)"
    unfolding Decoder_MaybeShortString_def by (intro parses_bind [OF parses_Char]) simp
  with True show ?thesis by (simp add: maybe_wire_def)
next
  case False
  have "parses Decoder_MaybeShortString ([of_char (CHR ''0'')] @ []) (False, [])"
    unfolding Decoder_MaybeShortString_def
    by (rule parses_bind [OF parses_Char]) (simp add: parses_return)
  with False assms show ?thesis by (simp add: maybe_wire_def)
qed

section \<open>Position safety\<close>

definition advances :: "(decoder, 'a) op \<Rightarrow> bool" where
  "advances p \<longleftrightarrow>
     (\<forall>d. dec_wf d \<longrightarrow>
        dec_wf (snd (p d)) \<and> dbuf (snd (p d)) = dbuf d \<and> dpos d \<le> dpos (snd (p d)))"

lemma advancesD:
  "advances p \<Longrightarrow> dec_wf d \<Longrightarrow> dec_wf (snd (p d))"
  "advances p \<Longrightarrow> dec_wf d \<Longrightarrow> dbuf (snd (p d)) = dbuf d"
  "advances p \<Longrightarrow> dec_wf d \<Longrightarrow> dpos d \<le> dpos (snd (p d))"
  by (simp_all add: advances_def)

lemma advances_return [advances_rules]: "advances (op_return x)"
  by (simp add: advances_def)

lemma advances_fail [advances_rules]: "advances (op_fail e)"
  by (simp add: advances_def)

lemma advances_wrap [advances_rules]: "advances p \<Longrightarrow> advances (op_wrap s p)"
  by (simp add: advances_def)

lemma advances_bind [advances_rules]:
  assumes "advances p" "\<And>x. advances (f x)"
  shows "advances (op_bind p f)"
  unfolding advances_def
proof (intro allI impI)
  fix d assume d: "dec_wf d"
  obtain r d1 where 1: "p d = (r, d1)" by fastforce
  with advancesD [OF assms(1) d] have d1: "dec_wf d1" "dbuf d1 = dbuf d" "dpos d \<le> dpos d1" by simp_all
  show "dec_wf (snd (op_bind p f d)) \<and> dbuf (snd (op_bind p f d)) = dbuf d
      \<and> dpos d \<le> dpos (snd (op_bind p f d))"
  proof (cases r)
    case (Inl e)
    with 1 d1 show ?thesis by (simp add: op_bind_simps)
  next
    case (Inr x)
    with 1 d1 advancesD [OF assms(2) d1(1), of x] show ?thesis
      by (simp add: op_bind_simps order_trans)
  qed
qed

lemma advances_if [advances_rules]:
  "advances p \<Longrightarrow> advances q \<Longrightarrow> advances (if b then p else q)"
  by simp

lemma advances_need [advances_rules]: "advances (Decoder_need n)"
  by (auto simp: advances_def Decoder_need_def dec_wf_def)

lemma advances_tail [advances_rules]: "advances tail_op"
  by (auto simp: advances_def tail_op_def Decoder_Tail_def dec_wf_def)

lemma advances_Word16 [advances_rules]: "advances Decoder_Word16"
  unfolding Decoder_Word16_def by (intro advances_rules)

lemma advances_Word32 [advances_rules]: "advances Decoder_Word32"
  unfolding Decoder_Word32_def by (intro advances_rules)

lemma advances_Int64 [advances_rules]: "advances Decoder_Int64"
  unfolding Decoder_Int64_def by (intro advances_rules)

lemma advances_ShortString [advances_rules]: "advances Decoder_ShortString"
  unfolding Decoder_ShortString_def by (intro advances_rules)

lemma advances_Large [advances_rules]: "advances Decoder_Large"
  unfolding Decoder_Large_def by (intro advances_rules)

lemma advances_Bool [advances_rules]: "advances Decoder_Bool"
  unfolding Decoder_Bool_def by (intro advances_rules)

lemma advances_Char [advances_rules]: "advances Decoder_Char"
  unfolding Decoder_Char_def by (intro advances_rules)

lemma advances_MaybeShortString [advances_rules]: "advances Decoder_MaybeShortString"
  unfolding Decoder_MaybeShortString_def by (intro advances_rules)

section \<open>What a successful read consumed\<close>

definition reads :: "(decoder, 'a) op \<Rightarrow> (bytes \<Rightarrow> 'a \<Rightarrow> bool) \<Rightarrow> bool" where
  "reads p R \<longleftrightarrow>
     (\<forall>d x d'. dec_wf d \<longrightarrow> p d = (Inr x, d') \<longrightarrow>
        dec_wf d' \<and> dbuf d' = dbuf d \<and> (\<exists>xs. R xs x \<and> unread d = xs @ unread d'))"

lemma readsE:
  assumes "reads p R" "dec_wf d" "p d = (Inr x, d')"
  obtains xs where "R xs x" "unread d = xs @ unread d'" "dec_wf d'" "dbuf d' = dbuf d"
  using assms unfolding reads_def by blast

lemma reads_decode_with:
  assumes "reads p R" "decode_with p raw = Inr x"
  obtains xs r where "R xs x" "raw = xs @ r"
proof -
  from assms(2) obtain d' where "p (NewDecoder raw) = (Inr x, d')"
    by (metis decode_with_def prod.collapse)
  from readsE [OF assms(1) dec_wf_NewDecoder this] that show ?thesis by (metis unread_NewDecoder)
qed

lemma reads_mono: "reads p R \<Longrightarrow> (\<And>xs x. R xs x \<Longrightarrow> S xs x) \<Longrightarrow> reads p S"
  unfolding reads_def by blast

lemma reads_return: "reads (op_return x) (\<lambda>xs y. xs = [] \<and> y = x)"
  by (simp add: reads_def)

lemma reads_fail: "reads (op_fail e) R"
  by (simp add: reads_def)

lemma reads_wrap: "reads p R \<Longrightarrow> reads (op_wrap s p) R"
  unfolding reads_def op_wrap_eq_Inr .

lemma reads_bind:
  assumes p: "reads p R" and f: "\<And>a. reads (f a) (S a)"
  shows "reads (op_bind p f) (\<lambda>xs b. \<exists>a ys zs. xs = ys @ zs \<and> R ys a \<and> S a zs b)"
  unfolding reads_def
proof (intro allI impI)
  fix d y d'
  assume d: "dec_wf d" and ok: "op_bind p f d = (Inr y, d')"
  from ok obtain a d1 where 1: "p d = (Inr a, d1)" and 2: "f a d1 = (Inr y, d')"
    by (auto simp: op_bind_eq_Inr)
  obtain ys where "R ys a" "unread d = ys @ unread d1" "dec_wf d1" "dbuf d1 = dbuf d"
    by (rule readsE [OF p d 1])
  moreover obtain zs where "S a zs y" "unread d1 = zs @ unread d'" "dec_wf d'" "dbuf d' = dbuf d1"
    by (rule readsE [OF f \<open>dec_wf d1\<close> 2])
  ultimately have "unread d = (ys @ zs) @ unread d'" "R ys a" "S a zs y" "dec_wf d'" "dbuf d' = dbuf d"
    by simp_all
  then show "dec_wf d' \<and> dbuf d' = dbuf d
      \<and> (\<exists>xs. (\<exists>a ys zs. xs = ys @ zs \<and> R ys a \<and> S a zs y) \<and> unread d = xs @ unread d')"
    by blast
qed

lemma reads_need: "reads (Decoder_need n) (\<lambda>xs b. xs = b \<and> int (length b) = n)"
  unfolding reads_def using Decoder_need_Inr by blast

text \<open>The readers of the primitives accept exactly the encodings of the primitives.\<close>

lemma reads_Word16 [reads_rules]: "reads Decoder_Word16 (\<lambda>xs v. xs = be16 v)"
  unfolding Decoder_Word16_def
  by (rule reads_mono [OF reads_bind [OF reads_need reads_return]]) (auto simp: be16_be_Uint16)

lemma reads_Word32 [reads_rules]: "reads Decoder_Word32 (\<lambda>xs v. xs = be32 v)"
  unfolding Decoder_Word32_def
  by (rule reads_mono [OF reads_bind [OF reads_need reads_return]]) (auto simp: be32_be_Uint32)

lemma int64_wire_join: "int64_wire (push_bit 32 (ucast hi) OR ucast lo) = be32 hi @ be32 lo"
  by (simp only: int64_wire_def word64_split)

lemma reads_Int64 [reads_rules]: "reads Decoder_Int64 (\<lambda>xs v. xs = int64_wire v)"
  unfolding Decoder_Int64_def
  by (rule reads_mono [OF reads_bind [OF reads_Word32 reads_bind [OF reads_Word32 reads_return]]])
    (auto simp: int64_wire_join)

lemma byte_of_length: "int n = uint (b :: byte) \<Longrightarrow> b = of_nat n \<and> n \<le> 255"
proof -
  assume n: "int n = uint b"
  then have "b = of_nat n" by (metis of_int_of_nat_eq word_of_int_uint)
  moreover have "uint b < 256" using unsigned_less [of b, where ?'a = int] by simp
  ultimately show ?thesis using n by simp
qed

lemma word16_of_length: "int n = uint (w :: 16 word) \<Longrightarrow> w = of_nat n \<and> n \<le> 65535"
proof -
  assume n: "int n = uint w"
  then have "w = of_nat n" by (metis of_int_of_nat_eq word_of_int_uint)
  moreover have "uint w < 65536" using unsigned_less [of w, where ?'a = int] by simp
  ultimately show ?thesis using n by simp
qed

lemma reads_ShortString [reads_rules]:
  "reads Decoder_ShortString (\<lambda>xs v. length v \<le> 255 \<and> xs = short_wire v)"
  unfolding Decoder_ShortString_def
  by (rule reads_mono [OF reads_bind [OF reads_need reads_need]])
    (auto simp: short_wire_def length_Suc_conv dest!: byte_of_length)

lemma reads_Large [reads_rules]:
  "reads Decoder_Large (\<lambda>xs v. length v \<le> 65535 \<and> xs = large_wire v)"
  unfolding Decoder_Large_def
  by (rule reads_mono [OF reads_bind [OF reads_Word16 reads_need]])
    (auto simp: large_wire_def dest!: word16_of_length)

lemma reads_Char [reads_rules]: "reads Decoder_Char (\<lambda>xs c. xs = [c])"
  unfolding Decoder_Char_def
  by (rule reads_mono [OF reads_bind [OF reads_need reads_return]]) (auto simp: length_Suc_conv)

lemma reads_if: "reads p R \<Longrightarrow> reads q S \<Longrightarrow> reads (if b then p else q) (\<lambda>xs x. if b then R xs x else S xs x)"
  by simp

lemma reads_Bool [reads_rules]: "reads Decoder_Bool (\<lambda>xs v. xs = bool_wire v)"
  unfolding Decoder_Bool_def
  by (rule reads_mono [OF reads_bind [OF reads_need reads_if [OF reads_return
        reads_if [OF reads_return reads_fail [where R = "\<lambda>_ _. False"]]]]])
    (auto simp: bool_wire_def bs_Cons length_Suc_conv split: if_splits)

lemma reads_MaybeShortString [reads_rules]:
  "reads Decoder_MaybeShortString
     (\<lambda>xs (present, v). (if present then length v \<le> 255 else v = []) \<and> xs = maybe_wire present v)"
  unfolding Decoder_MaybeShortString_def
  by (rule reads_mono [OF reads_bind [OF reads_Char reads_if [OF reads_return
        reads_if [OF reads_bind [OF reads_ShortString reads_return]
          reads_fail [where R = "\<lambda>_ _. False"]]]]])
    (auto simp: maybe_wire_def split: if_splits)

text \<open>The same for readers that end with \<open>Tail\<close>: all the unread input is accounted for.\<close>

definition reads_all :: "(decoder, 'a) op \<Rightarrow> (bytes \<Rightarrow> 'a \<Rightarrow> bool) \<Rightarrow> bool" where
  "reads_all p R \<longleftrightarrow> (\<forall>d x d'. dec_wf d \<longrightarrow> p d = (Inr x, d') \<longrightarrow> R (unread d) x)"

lemma reads_all_decode_with: "reads_all p R \<Longrightarrow> decode_with p raw = Inr x \<Longrightarrow> R raw x"
  unfolding reads_all_def decode_with_def
  by (metis dec_wf_NewDecoder prod.collapse unread_NewDecoder)

lemma reads_all_mono: "reads_all p R \<Longrightarrow> (\<And>xs x. R xs x \<Longrightarrow> S xs x) \<Longrightarrow> reads_all p S"
  unfolding reads_all_def by blast

lemma reads_all_bind:
  assumes p: "reads p R" and f: "\<And>a. reads_all (f a) (S a)"
  shows "reads_all (op_bind p f) (\<lambda>xs b. \<exists>a ys zs. xs = ys @ zs \<and> R ys a \<and> S a zs b)"
  unfolding reads_all_def
proof (intro allI impI)
  fix d y d'
  assume d: "dec_wf d" and ok: "op_bind p f d = (Inr y, d')"
  from ok obtain a d1 where 1: "p d = (Inr a, d1)" and 2: "f a d1 = (Inr y, d')"
    by (auto simp: op_bind_eq_Inr)
  obtain ys where "R ys a" "unread d = ys @ unread d1" "dec_wf d1"
    by (rule readsE [OF p d 1])
  moreover from this 2 f have "S a (unread d1) y" unfolding reads_all_def by blast
  ultimately show "\<exists>a ys zs. unread d = ys @ zs \<and> R ys a \<and> S a zs y" by blast
qed

lemma reads_all_tail: "reads_all (op_bind tail_op (\<lambda>b. op_return (g b))) (\<lambda>xs y. y = g xs)"
  by (auto simp: reads_all_def op_bind_def tail_op_def Decoder_Tail_def slice_def unread_def
      dec_wf_def nat_diff_distrib)

section \<open>How a read fails\<close>

definition fails_with :: "(decoder, 'a) op \<Rightarrow> sentinel set \<Rightarrow> bool" where
  "fails_with p S \<longleftrightarrow> (\<forall>d e d'. p d = (Inl e, d') \<longrightarrow> (\<exists>s \<in> S. errors_is e s))"

lemma fails_withD: "fails_with p S \<Longrightarrow> decode_with p raw = Inl e \<Longrightarrow> \<exists>s \<in> S. errors_is e s"
  unfolding fails_with_def decode_with_def by (metis prod.collapse)

lemma fails_return [fails_rules]: "fails_with (op_return x) S"
  by (simp add: fails_with_def)

lemma fails_fail [fails_rules]:
  "errors_is e ErrBadEncoding \<Longrightarrow> ErrBadEncoding \<in> S \<Longrightarrow> fails_with (op_fail e) S"
  by (auto simp: fails_with_def)

lemma fails_wrap [fails_rules]: "fails_with p S \<Longrightarrow> fails_with (op_wrap f p) S"
  by (fastforce simp: fails_with_def op_wrap_def split: prod.splits sum.splits)

lemma fails_bind [fails_rules]:
  "fails_with p S \<Longrightarrow> (\<And>x. fails_with (f x) S) \<Longrightarrow> fails_with (op_bind p f) S"
  by (fastforce simp: fails_with_def op_bind_def split: prod.splits sum.splits)

lemma fails_if [fails_rules]:
  "fails_with p S \<Longrightarrow> fails_with q S \<Longrightarrow> fails_with (if b then p else q) S"
  by simp

lemma fails_tail [fails_rules]: "fails_with tail_op S"
  by (simp add: fails_with_def tail_op_def Decoder_Tail_def)

lemma fails_need [fails_rules]: "ErrTruncated \<in> S \<Longrightarrow> fails_with (Decoder_need n) S"
  by (auto simp: fails_with_def Decoder_need_def split: if_splits)

lemma fails_Char [fails_rules]: "ErrTruncated \<in> S \<Longrightarrow> fails_with Decoder_Char S"
  unfolding Decoder_Char_def by (intro fails_rules)

lemma fails_Word16 [fails_rules]: "ErrTruncated \<in> S \<Longrightarrow> fails_with Decoder_Word16 S"
  unfolding Decoder_Word16_def by (intro fails_rules)

lemma fails_ShortString [fails_rules]: "ErrTruncated \<in> S \<Longrightarrow> fails_with Decoder_ShortString S"
  unfolding Decoder_ShortString_def by (intro fails_rules)

lemma fails_Bool [fails_rules]:
  "ErrTruncated \<in> S \<Longrightarrow> ErrBadEncoding \<in> S \<Longrightarrow> fails_with Decoder_Bool S"
  unfolding Decoder_Bool_def by (intro fails_rules) simp_all

section \<open>The interface between a writer and its reader\<close>

text \<open>
  \<open>wire_codec\<close> is what a message format promises its users: for the values in \<open>ok\<close> the
  writer succeeds and appends \<open>wire x\<close>, and the reader gets \<open>x\<close> back from it. Unique
  readability follows. A \<open>canonical_codec\<close> also promises that the reader accepts nothing
  but such encodings, so every accepted input has one reading and no truncated message is
  taken for a whole one.
\<close>

lemma parses_unique:
  assumes "parses p xs x" "parses p ys y" "xs @ r = ys @ s"
  shows "x = y \<and> r = s"
proof -
  let ?d = "NewDecoder (xs @ r)"
  obtain d1 where "p ?d = (Inr x, d1)" "unread d1 = r"
    by (rule parsesE [OF assms(1), of ?d r]) simp_all
  moreover obtain d2 where "p ?d = (Inr y, d2)" "unread d2 = s"
    by (rule parsesE [OF assms(2), of ?d s]) (simp_all add: assms(3))
  ultimately show ?thesis by simp
qed

locale wire_codec =
  fixes enc :: "'a \<Rightarrow> (encoder, unit) op"
    and dec :: "(decoder, 'a) op"
    and wire :: "'a \<Rightarrow> bytes"
    and ok :: "'a \<Rightarrow> bool"
  assumes enc_emits: "ok x \<Longrightarrow> emits (enc x) (wire x)"
    and dec_parses: "ok x \<Longrightarrow> parses dec (wire x) x"
begin

lemma encode_wire: "ok x \<Longrightarrow> encode_with (enc x) = Inr (wire x)"
  by (rule encode_with_emits) (rule enc_emits)

lemma codec_roundtrip:
  "ok x \<Longrightarrow> encode_with (enc x) = Inr b \<Longrightarrow> decode_with dec (b @ r) = Inr x"
  by (metis decode_with_parses dec_parses encode_wire sum.inject(2))

lemma prefix_free: "ok x \<Longrightarrow> ok y \<Longrightarrow> wire x @ r = wire y @ s \<Longrightarrow> x = y \<and> r = s"
  by (rule parses_unique [OF dec_parses dec_parses])

lemma wire_inject: "ok x \<Longrightarrow> ok y \<Longrightarrow> wire x = wire y \<longleftrightarrow> x = y"
  using prefix_free [of x y "[]" "[]"] by auto

end

locale canonical_codec = wire_codec +
  assumes dec_reads: "reads dec (\<lambda>xs x. ok x \<and> xs = wire x)"
begin

lemma decode_iff: "decode_with dec raw = Inr x \<longleftrightarrow> ok x \<and> (\<exists>r. raw = wire x @ r)"
proof
  assume "decode_with dec raw = Inr x"
  then show "ok x \<and> (\<exists>r. raw = wire x @ r)"
    by (rule reads_decode_with [OF dec_reads]) blast
next
  assume "ok x \<and> (\<exists>r. raw = wire x @ r)"
  then show "decode_with dec raw = Inr x"
    by (auto intro: decode_with_parses dec_parses)
qed

lemma truncation_rejected:
  assumes "ok x" "wire x = raw @ s" "s \<noteq> []"
  shows "\<exists>e. decode_with dec raw = Inl e"
proof (cases "decode_with dec raw")
  case (Inr y)
  then obtain r where "ok y" "raw = wire y @ r" by (auto simp: decode_iff)
  with assms have "wire x @ [] = wire y @ (r @ s)" by simp
  with prefix_free [OF \<open>ok x\<close> \<open>ok y\<close>] have "r @ s = []" by blast
  with \<open>s \<noteq> []\<close> show ?thesis by simp
qed simp

end

interpretation word16_codec: canonical_codec Encoder_Word16 Decoder_Word16 be16 "\<lambda>_. True"
  by unfold_locales (simp_all add: emits_Word16 parses_Word16 reads_Word16)

interpretation word32_codec: canonical_codec Encoder_Word32 Decoder_Word32 be32 "\<lambda>_. True"
  by unfold_locales (simp_all add: emits_Word32 parses_Word32 reads_Word32)

interpretation int64_codec: canonical_codec Encoder_Int64 Decoder_Int64 int64_wire "\<lambda>_. True"
  by unfold_locales (simp_all add: emits_Int64 parses_Int64 reads_Int64)

interpretation short_codec:
  canonical_codec Encoder_ShortString Decoder_ShortString short_wire "\<lambda>v. length v \<le> 255"
  by unfold_locales (simp_all add: emits_ShortString parses_ShortString reads_ShortString)

interpretation large_codec:
  canonical_codec Encoder_Large Decoder_Large large_wire "\<lambda>v. length v \<le> 65535"
  by unfold_locales (simp_all add: emits_Large parses_Large reads_Large)

interpretation bool_codec: canonical_codec Encoder_Bool Decoder_Bool bool_wire "\<lambda>_. True"
  by unfold_locales (simp_all add: emits_Bool parses_Bool reads_Bool)

interpretation char_codec: canonical_codec Encoder_Char Decoder_Char "\<lambda>c. [c]" "\<lambda>_. True"
  by unfold_locales (simp_all add: emits_Char parses_Char reads_Char)

text \<open>An absent optional string carries no bytes, so only \<open>nil\<close> comes back for it.\<close>

definition maybe_ok :: "bool \<times> bytes \<Rightarrow> bool" where
  "maybe_ok x \<longleftrightarrow> (if fst x then length (snd x) \<le> 255 else snd x = [])"

lemma reads_maybe: "reads Decoder_MaybeShortString (\<lambda>xs x. maybe_ok x \<and> xs = maybe_wire (fst x) (snd x))"
  by (rule reads_mono [OF reads_MaybeShortString]) (auto simp: maybe_ok_def)

interpretation maybe_codec:
  canonical_codec "\<lambda>x. Encoder_MaybeShortString (fst x) (snd x)" Decoder_MaybeShortString
    "\<lambda>x. maybe_wire (fst x) (snd x)" maybe_ok
proof unfold_locales
  fix x :: "bool \<times> bytes"
  assume "maybe_ok x"
  then show "emits (Encoder_MaybeShortString (fst x) (snd x)) (maybe_wire (fst x) (snd x))"
    and "parses Decoder_MaybeShortString (maybe_wire (fst x) (snd x)) x"
    using parses_MaybeShortString [of "fst x" "snd x"]
    by (auto simp: maybe_ok_def intro: emits_MaybeShortString split: if_splits)
qed (rule reads_maybe)

lemma maybe_string_roundtrip:
  "case encode_with (Encoder_MaybeShortString p v) of
        Inl e \<Rightarrow> p \<and> 255 < length v \<and> errors_is e ErrShortStringTooLong
      | Inr b \<Rightarrow> decode_with Decoder_MaybeShortString (b @ r) = Inr (if p then (True, v) else (False, []))"
proof (cases "p \<and> 255 < length v")
  case True
  then obtain err where "\<And>e. Encoder_ShortString v e = (Inl err, e)" "errors_is err ErrShortStringTooLong"
    by (auto simp: Encoder_ShortString_def maxShortString_def)
  with True show ?thesis
    by (simp add: encode_with_def Encoder_MaybeShortString_def op_bind_def Encoder_Char_def)
next
  case False
  define x where "x = (if p then (True, v) else (False, []))"
  have ok: "maybe_ok x" using False by (auto simp: x_def maybe_ok_def)
  have "Encoder_MaybeShortString p v = Encoder_MaybeShortString (fst x) (snd x)"
    by (simp add: x_def Encoder_MaybeShortString_def)
  then show ?thesis
    using maybe_codec.encode_wire [OF ok] maybe_codec.codec_roundtrip [OF ok]
    by (simp add: x_def [symmetric])
qed

text \<open>A user of the decoder: any sequence of calls of its methods.\<close>

datatype decoder_method =
    M_need int | M_Word16 | M_Word32 | M_Int64 | M_ShortString | M_Large
  | M_Bool | M_Char | M_Tail | M_MaybeShortString

fun run_method :: "decoder_method \<Rightarrow> decoder \<Rightarrow> decoder" where
  "run_method (M_need n) d = snd (Decoder_need n d)"
| "run_method M_Word16 d = snd (Decoder_Word16 d)"
| "run_method M_Word32 d = snd (Decoder_Word32 d)"
| "run_method M_Int64 d = snd (Decoder_Int64 d)"
| "run_method M_ShortString d = snd (Decoder_ShortString d)"
| "run_method M_Large d = snd (Decoder_Large d)"
| "run_method M_Bool d = snd (Decoder_Bool d)"
| "run_method M_Char d = snd (Decoder_Char d)"
| "run_method M_Tail d = snd (Decoder_Tail d)"
| "run_method M_MaybeShortString d = snd (Decoder_MaybeShortString d)"

lemma snd_tail_op: "snd (tail_op d) = snd (Decoder_Tail d)"
  by (simp add: tail_op_def split: prod.splits)

lemma run_method_wf:
  assumes "dec_wf d"
  shows "dec_wf (run_method m d) \<and> dbuf (run_method m d) = dbuf d \<and> dpos d \<le> dpos (run_method m d)"
  using advancesD [OF advances_need assms] advancesD [OF advances_Word16 assms]
    advancesD [OF advances_Word32 assms] advancesD [OF advances_Int64 assms]
    advancesD [OF advances_ShortString assms] advancesD [OF advances_Large assms]
    advancesD [OF advances_Bool assms] advancesD [OF advances_Char assms]
    advancesD [OF advances_tail assms] advancesD [OF advances_MaybeShortString assms]
  by (cases m) (simp_all add: snd_tail_op)

lemma run_methods_wf:
  "dec_wf d \<Longrightarrow> dec_wf (fold run_method ms d) \<and> dbuf (fold run_method ms d) = dbuf d"
  by (induction ms arbitrary: d) (auto simp: run_method_wf)

section \<open>Properties of the primitives\<close>

text \<open>C39: Encoder and Decoder agree on every primitive: what a method of the encoder wrote,
  followed by any further bytes, is read back unchanged by the method of the same name (bytes
  written by \<open>Raw\<close> are read by a \<open>need\<close> of their number; \<open>Tail\<close> takes the rest of the buffer). The
  only writes that fail are strings beyond the reach of their length prefix (255 bytes for
  ShortString, 65535 for Large), and they fail with the documented sentinel.\<close>

theorem primitives_roundtrip:
  "(case encode_with (Encoder_Char ch) of Inl e \<Rightarrow> False
      | Inr b \<Rightarrow> decode_with Decoder_Char (b @ r) = Inr ch)
   \<and> (case encode_with (Encoder_Raw v) of Inl e \<Rightarrow> False
      | Inr b \<Rightarrow> decode_with (Decoder_need (int (length v))) (b @ r) = Inr v)
   \<and> (case encode_with (Encoder_Tail v) of Inl e \<Rightarrow> False
      | Inr b \<Rightarrow> fst (Decoder_Tail (NewDecoder b)) = v)
   \<and> (case encode_with (Encoder_Word16 w) of Inl e \<Rightarrow> False
      | Inr b \<Rightarrow> decode_with Decoder_Word16 (b @ r) = Inr w)
   \<and> (case encode_with (Encoder_Word32 u) of Inl e \<Rightarrow> False
      | Inr b \<Rightarrow> decode_with Decoder_Word32 (b @ r) = Inr u)
   \<and> (case encode_with (Encoder_Int64 i) of Inl e \<Rightarrow> False
      | Inr b \<Rightarrow> decode_with Decoder_Int64 (b @ r) = Inr i)
   \<and> (case encode_with (Encoder_Bool t) of Inl e \<Rightarrow> False
      | Inr b \<Rightarrow> decode_with Decoder_Bool (b @ r) = Inr t)
   \<and> (case encode_with (Encoder_ShortString v) of
        Inl e \<Rightarrow> 255 < length v \<and> errors_is e ErrShortStringTooLong
      | Inr b \<Rightarrow> length v \<le> 255 \<and> decode_with Decoder_ShortString (b @ r) = Inr v)
   \<and> (case encode_with (Encoder_Large v) of
        Inl e \<Rightarrow> 65535 < length v \<and> errors_is e ErrLargeStringTooLong
      | Inr b \<Rightarrow> length v \<le> 65535 \<and> decode_with Decoder_Large (b @ r) = Inr v)
   \<and> (case encode_with (Encoder_MaybeShortString p v) of
        Inl e \<Rightarrow> p \<and> 255 < length v \<and> errors_is e ErrShortStringTooLong
      | Inr b \<Rightarrow> decode_with Decoder_MaybeShortString (b @ r) = Inr (if p then (True, v) else (False, [])))"
proof -
  have short: "case encode_with (Encoder_ShortString v) of
        Inl e \<Rightarrow> 255 < length v \<and> errors_is e ErrShortStringTooLong
      | Inr b \<Rightarrow> length v \<le> 255 \<and> decode_with Decoder_ShortString (b @ r) = Inr v"
    using short_codec.encode_wire [of v] short_codec.codec_roundtrip [of v]
      Encoder_ShortString_too_long [of v NewEncoder]
    by (cases "length v \<le> 255") (auto simp: encode_with_def)
  have large: "case encode_with (Encoder_Large v) of
        Inl e \<Rightarrow> 65535 < length v \<and> errors_is e ErrLargeStringTooLong
      | Inr b \<Rightarrow> length v \<le> 65535 \<and> decode_with Decoder_Large (b @ r) = Inr v"
    using large_codec.encode_wire [of v] large_codec.codec_roundtrip [of v]
      Encoder_Large_too_long [of v NewEncoder]
    by (cases "length v \<le> 65535") (auto simp: encode_with_def)
  have bytes: "encode_with (Encoder_Char ch) = Inr [ch]" "encode_with (Encoder_Raw v) = Inr v"
    "encode_with (Encoder_Tail v) = Inr v" "decode_with Decoder_Char ([ch] @ r) = Inr ch"
    "decode_with (Decoder_need (int (length v))) (v @ r) = Inr v" "fst (Decoder_Tail (NewDecoder v)) = v"
    by (simp_all add: encode_with_def NewEncoder_def Encoder_Bytes_def Encoder_Char_def Encoder_Raw_def Encoder_Tail_def
        decode_with_def NewDecoder_def Decoder_Char_def Decoder_need_def Decoder_Tail_def op_bind_def op_return_def slice_def)
  show ?thesis
    using bytes short large maybe_string_roundtrip [of p v r] word16_codec.encode_wire word16_codec.codec_roundtrip
      word32_codec.encode_wire word32_codec.codec_roundtrip
      int64_codec.encode_wire int64_codec.codec_roundtrip
      bool_codec.encode_wire bool_codec.codec_roundtrip
    by auto
qed

text \<open>C15: Decoder.ShortString accepts an input exactly when it starts with a length byte
  and that many bytes, and returns those bytes: nothing shorter is accepted, nothing else
  is returned.\<close>

theorem ShortString_accepts_iff:
  "decode_with Decoder_ShortString raw = Inr v \<longleftrightarrow>
     length v \<le> 255 \<and> (\<exists>r. raw = of_nat (length v) # v @ r)"
  using short_codec.decode_iff [of raw v] by (simp add: short_wire_def)

text \<open>Go adds the position and the length on 64-bit integers. The package asks \<open>need\<close> for at most
  65535 bytes, the largest 16-bit length.\<close>

definition machine_add :: "int \<Rightarrow> int \<Rightarrow> int" where
  "machine_add a b = sint (word_of_int (a + b) :: 64 word)"

lemma machine_add_small: "0 \<le> a \<Longrightarrow> 0 \<le> b \<Longrightarrow> a + b < 2 ^ 63 \<Longrightarrow> machine_add a b = a + b"
  unfolding machine_add_def sint_sbintrunc' by (rule signed_take_bit_int_eq_self) simp_all

fun package_call :: "decoder_method \<Rightarrow> bool" where
  "package_call (M_need n) \<longleftrightarrow> n \<le> 65535"
| "package_call _ \<longleftrightarrow> True"

text \<open>C40: Whatever sequence of method calls a user makes on a decoder, and whichever of
  them fail, the buffer is the one it was created with, the position stays inside it - so the
  slice expressions of the decoder never go out of range -, no further call moves the position
  backwards, and Remaining is the number of bytes not read yet. The sum of position and length
  that \<open>need\<close> computes does not wrap, for a buffer of at most 2^62 bytes and the lengths the package
  passes.\<close>

theorem decoder_position_safe:
  assumes "length raw \<le> 2 ^ 62" and "list_all package_call (m # ms)"
  shows "let d = fold run_method ms (NewDecoder raw); d' = run_method m d in
     dbuf d = raw \<and> 0 \<le> dpos d \<and> dpos d \<le> int (length raw)
     \<and> dpos d \<le> dpos d' \<and> dpos d' \<le> int (length raw)
     \<and> Decoder_Remaining d = int (length (unread d))
     \<and> (Decoder_Done d \<longleftrightarrow> unread d = [])
     \<and> (\<forall>n \<in> {0..65535}. machine_add (dpos d) n = dpos d + n)"
proof -
  let ?d = "fold run_method ms (NewDecoder raw)"
  have d: "dec_wf ?d" "dbuf ?d = raw" using run_methods_wf [OF dec_wf_NewDecoder, of ms raw] by simp_all
  moreover from d(1) have "int (length raw) \<le> 2 ^ 62" "0 \<le> dpos ?d" "dpos ?d \<le> int (length raw)"
    using assms(1) d(2) by (simp_all add: dec_wf_def)
  then have "machine_add (dpos ?d) n = dpos ?d + n" if "0 \<le> n" "n \<le> 65535" for n
    using that by (intro machine_add_small) simp_all
  ultimately show ?thesis
    using run_method_wf [OF d(1), of m]
    by (auto simp: Let_def dec_wf_def Decoder_Remaining_unread Decoder_Done_def unread_def)
qed

theorem decoder_position_safe_witness:
  "dpos (fold run_method [M_ShortString] (NewDecoder [1, 7, 9])) \<le> dpos (run_method (M_need 5)
      (fold run_method [M_ShortString] (NewDecoder [1, 7, 9])))"
proof -
  have "length [1, 7, 9 :: byte] \<le> 2 ^ 62" by simp
  from decoder_position_safe [OF this, of "M_need 5" "[M_ShortString]"] show ?thesis by (simp add: Let_def)
qed

end
