(* ===== verification/Protocol.thy ===== *)
theory Protocol
  imports Wire_Codec
begin

text \<open>
  The typed protocol messages of \<open>smp/protocol.go\<close>: versions, the client's commands and
  their encoding, the server's messages and their decoding. \<open>command_wire\<close> and
  \<open>broker_wire\<close> state the wire grammar quoted in the comments of the source; the theorems
  compare the code with them.
\<close>

section \<open>Versions and identifiers\<close>

type_synonym version = "16 word"

definition VersionV6 :: version where "VersionV6 = 6"
definition VersionV7 :: version where "VersionV7 = 7"
definition VersionV9 :: version where "VersionV9 = 9"
definition VersionV11 :: version where "VersionV11 = 11"
definition VersionV18 :: version where "VersionV18 = 18"
definition MinClientVersion :: version where "MinClientVersion = VersionV6"
definition MaxClientVersion :: version where "MaxClientVersion = VersionV7"

lemmas version_defs = VersionV6_def VersionV7_def VersionV9_def VersionV11_def VersionV18_def
  MinClientVersion_def MaxClientVersion_def

record version_range =
  vr_Min :: version
  vr_Max :: version

type_synonym entity_id = bytes
type_synonym queue_id = entity_id
type_synonym msg_id = bytes
type_synonym session_id = bytes

definition NoEntity :: entity_id where "NoEntity = []"

text \<open>The Go type \<open>CorrID\<close> is an array of 24 bytes: a list with this length.\<close>

type_synonym corr_id = bytes

definition wf_corr_id :: "corr_id \<Rightarrow> bool" where
  "wf_corr_id c \<longleftrightarrow> length c = 24"

definition NoCorrID :: corr_id where
  "NoCorrID = replicate 24 0"

lemma NoCorrID_Cons: "NoCorrID = 0 # replicate 23 0"
  using replicate_Suc [of 23 "0 :: byte"] by (simp add: NoCorrID_def)

lemma wf_NoCorrID [simp]: "wf_corr_id NoCorrID"
  by (simp add: wf_corr_id_def NoCorrID_def)

definition SubscribeOnCreate :: byte where "SubscribeOnCreate = of_char (CHR ''S'')"
definition SubscribeManual :: byte where "SubscribeManual = of_char (CHR ''C'')"

text \<open>Nanoseconds since 0001-01-01T00:00:00 UTC, the zero \<open>time.Time\<close>.\<close>

type_synonym gotime = int

section \<open>Commands\<close>

record msg_flags =
  Notification :: bool

record new_queue_req =
  RcvAuthPubKeyDER :: bytes
  RcvDHPubKeyDER :: bytes
  BasicAuth :: string
  SubscribeMode :: byte
  SenderCanSecure :: bool

datatype command =
    NewCmd new_queue_req
  | SubCmd
  | SendCmd msg_flags bytes
  | AckCmd msg_id
  | PingCmd

definition encode_new :: "version \<Rightarrow> new_queue_req \<Rightarrow> (encoder, unit) op" where
  "encode_new v req =
     op_bind (Encoder_Raw (bs ''NEW '')) (\<lambda>_.
     op_bind (op_wrap ''smp: NEW rcvAuthPubKey: %w'' (Encoder_ShortString (RcvAuthPubKeyDER req))) (\<lambda>_.
     op_bind (op_wrap ''smp: NEW rcvDhPubKey: %w'' (Encoder_ShortString (RcvDHPubKeyDER req))) (\<lambda>_.
     op_bind (op_wrap ''smp: NEW basicAuth: %w''
        (Encoder_MaybeShortString (BasicAuth req \<noteq> '''') (bs (BasicAuth req)))) (\<lambda>_.
     let subMode = (if SubscribeMode req = 0 then SubscribeOnCreate else SubscribeMode req) in
     op_bind (Encoder_Char subMode) (\<lambda>_.
     if v \<ge> VersionV9 then Encoder_Bool (SenderCanSecure req) else op_return ())))))"

definition EncodeCommand :: "version \<Rightarrow> command \<Rightarrow> bytes result" where
  "EncodeCommand v cmd =
     (case cmd of
        NewCmd req \<Rightarrow> encode_with (encode_new v req)
      | SubCmd \<Rightarrow> Inr (bs ''SUB'')
      | SendCmd flags body \<Rightarrow>
          encode_with (
            op_bind (Encoder_Raw (bs ''SEND '')) (\<lambda>_.
            op_bind (Encoder_Bool (Notification flags)) (\<lambda>_.
            op_bind (Encoder_Char (of_char (CHR '' ''))) (\<lambda>_.
            Encoder_Tail body))))
      | AckCmd msgID \<Rightarrow>
          encode_with (
            op_bind (Encoder_Raw (bs ''ACK '')) (\<lambda>_.
            op_wrap ''smp: ACK msgId: %w'' (Encoder_ShortString msgID)))
      | PingCmd \<Rightarrow> Inr (bs ''PING''))"

section \<open>Server messages\<close>

record ids_response =
  RecipientID :: queue_id
  SenderID :: queue_id
  SrvDHPubKey :: bytes
  SndCanSecure :: bool

record message =
  msg_ID :: msg_id
  msg_Ts :: gotime
  msg_Flags :: msg_flags
  msg_Body :: bytes
  msg_Quota :: bool

datatype broker_msg =
    IDSMsg ids_response
  | MsgMsg message
  | OKMsg
  | PongMsg
  | EndMsg
  | ErrMsg string string

definition ErrMsg_Error :: "string \<Rightarrow> string \<Rightarrow> string" where
  "ErrMsg_Error ty detail =
     (if detail = '''' then ''smp: '' @ ty else ''smp: '' @ ty @ '': '' @ detail)"

definition decodeIDS :: "version \<Rightarrow> (decoder, broker_msg) op" where
  "decodeIDS v =
     op_bind (op_wrap ''smp: IDS recipientId: %w'' Decoder_ShortString) (\<lambda>rcv.
     op_bind (op_wrap ''smp: IDS senderId: %w'' Decoder_ShortString) (\<lambda>snd.
     op_bind (op_wrap ''smp: IDS srvDhPubKey: %w'' Decoder_ShortString) (\<lambda>dh.
     let resp = \<lparr>RecipientID = rcv, SenderID = snd, SrvDHPubKey = dh, SndCanSecure = False\<rparr> in
     if v \<ge> VersionV9
     then op_bind (op_wrap ''smp: IDS sndCanSecure: %w'' Decoder_Bool) (\<lambda>secure.
            op_return (IDSMsg (resp\<lparr>SndCanSecure := secure\<rparr>)))
     else op_return (IDSMsg resp))))"

definition decodeMSG :: "(decoder, broker_msg) op" where
  "decodeMSG =
     op_bind (op_wrap ''smp: MSG msgId: %w'' Decoder_ShortString) (\<lambda>msgID.
     op_bind tail_op (\<lambda>rest.
     op_return (MsgMsg \<lparr>msg_ID = msgID, msg_Ts = 0, msg_Flags = \<lparr>Notification = False\<rparr>,
       msg_Body = rest, msg_Quota = False\<rparr>)))"

definition decodeERR :: "bytes \<Rightarrow> broker_msg" where
  "decodeERR body =
     (let sp = IndexByte body (of_char (CHR '' '')) in
      if sp = -1 then ErrMsg (str body) ''''
      else ErrMsg (str (slice body 0 sp)) (str (slice body (sp + 1) (int (length body)))))"

definition DecodeBrokerMsg :: "version \<Rightarrow> bytes \<Rightarrow> broker_msg result" where
  "DecodeBrokerMsg v raw =
     (if raw = [] then Inl (wrapf ''%w: empty broker message'' (Sentinel ErrBadEncoding))
      else if HasPrefix raw (bs ''IDS '') then decode_with (decodeIDS v) (drop 4 raw)
      else if HasPrefix raw (bs ''MSG '') then decode_with decodeMSG (drop 4 raw)
      else if raw = bs ''OK'' then Inr OKMsg
      else if raw = bs ''PONG'' then Inr PongMsg
      else if raw = bs ''END'' then Inr EndMsg
      else if HasPrefix raw (bs ''ERR '') then Inr (decodeERR (drop 4 raw))
      else Inl (Errorf ''%w: unknown broker message prefix %q''
             [AWrap (Sentinel ErrBadEncoding), ABytes (take 16 raw)]))"

section \<open>The grammar of commands\<close>

definition sub_mode :: "new_queue_req \<Rightarrow> byte" where
  "sub_mode req = (if SubscribeMode req = 0 then SubscribeOnCreate else SubscribeMode req)"

fun command_wire :: "version \<Rightarrow> command \<Rightarrow> bytes" where
  "command_wire v (NewCmd req) =
     bs ''NEW '' @ short_wire (RcvAuthPubKeyDER req) @ short_wire (RcvDHPubKeyDER req)
       @ maybe_wire (BasicAuth req \<noteq> '''') (bs (BasicAuth req)) @ [sub_mode req]
       @ (if v \<ge> VersionV9 then bool_wire (SenderCanSecure req) else [])"
| "command_wire v SubCmd = bs ''SUB''"
| "command_wire v (SendCmd flags body) = bs ''SEND '' @ bool_wire (Notification flags) @ bs '' '' @ body"
| "command_wire v (AckCmd mid) = bs ''ACK '' @ short_wire mid"
| "command_wire v PingCmd = bs ''PING''"

fun command_ok :: "command \<Rightarrow> bool" where
  "command_ok (NewCmd req) \<longleftrightarrow> length (RcvAuthPubKeyDER req) \<le> 255
     \<and> length (RcvDHPubKeyDER req) \<le> 255 \<and> length (BasicAuth req) \<le> 255"
| "command_ok (AckCmd mid) \<longleftrightarrow> length mid \<le> 255"
| "command_ok _ \<longleftrightarrow> True"

lemma emits_encode_new:
  assumes "command_ok (NewCmd req)"
  shows "emits (encode_new v req) (command_wire v (NewCmd req))"
proof -
  have flag: "emits (if v \<ge> VersionV9 then Encoder_Bool (SenderCanSecure req) else op_return ())
      (if v \<ge> VersionV9 then bool_wire (SenderCanSecure req) else [])"
    by (simp add: emits_Bool emits_return)
  show ?thesis
    unfolding encode_new_def Let_def command_wire.simps sub_mode_def
    using assms by (intro emits_rules flag) simp_all
qed

lemma rejects_encode_new:
  assumes "\<not> command_ok (NewCmd req)"
  shows "rejects (encode_new v req) ErrShortStringTooLong"
proof -
  consider "255 < length (RcvAuthPubKeyDER req)"
    | "length (RcvAuthPubKeyDER req) \<le> 255" "255 < length (RcvDHPubKeyDER req)"
    | "length (RcvAuthPubKeyDER req) \<le> 255" "length (RcvDHPubKeyDER req) \<le> 255"
      "255 < length (BasicAuth req)"
    using assms by fastforce
  then show ?thesis
  proof cases
    case 1
    then show ?thesis unfolding encode_new_def
      by (intro rejects_later [OF emits_Raw] rejects_here rejects_wrap rejects_ShortString)
  next
    case 2
    then show ?thesis unfolding encode_new_def
      by (intro rejects_later [OF emits_Raw])
        (rule rejects_later [OF emits_wrap [OF emits_ShortString]],
          auto intro: rejects_here rejects_wrap rejects_ShortString)
  next
    case 3
    then have "BasicAuth req \<noteq> ''''" by auto
    with 3 have "rejects (Encoder_MaybeShortString (BasicAuth req \<noteq> '''') (bs (BasicAuth req)))
        ErrShortStringTooLong"
      by (intro rejects_MaybeShortString) simp_all
    then have auth: "rejects (op_bind (op_wrap f
        (Encoder_MaybeShortString (BasicAuth req \<noteq> '''') (bs (BasicAuth req)))) k) ErrShortStringTooLong"
      for f k by (intro rejects_here rejects_wrap)
    show ?thesis unfolding encode_new_def
      using 3 by (intro rejects_later [OF emits_Raw] auth
          rejects_later [OF emits_wrap [OF emits_ShortString [OF 3(1)]]]
          rejects_later [OF emits_wrap [OF emits_ShortString [OF 3(2)]]])
  qed
qed

lemma EncodeCommand_ok: "command_ok cmd \<Longrightarrow> EncodeCommand v cmd = Inr (command_wire v cmd)"
proof (cases cmd)
  case (NewCmd req)
  moreover assume "command_ok cmd"
  ultimately show ?thesis
    using encode_with_emits [OF emits_encode_new] by (simp add: EncodeCommand_def)
next
  case (SendCmd flags body)
  have "emits (op_bind (Encoder_Raw (bs ''SEND '')) (\<lambda>_. op_bind (Encoder_Bool (Notification flags))
          (\<lambda>_. op_bind (Encoder_Char (of_char (CHR '' ''))) (\<lambda>_. Encoder_Tail body))))
      (bs ''SEND '' @ bool_wire (Notification flags) @ [of_char (CHR '' '')] @ body)"
    by (intro emits_rules)
  from encode_with_emits [OF this] show ?thesis
    by (simp add: EncodeCommand_def SendCmd bs_Cons)
next
  case (AckCmd mid)
  moreover assume "command_ok cmd"
  ultimately show ?thesis
    unfolding EncodeCommand_def by (auto intro!: encode_with_emits emits_rules)
qed (simp_all add: EncodeCommand_def)

lemma EncodeCommand_bad:
  "\<not> command_ok cmd \<Longrightarrow> \<exists>e. EncodeCommand v cmd = Inl e \<and> errors_is e ErrShortStringTooLong"
proof (cases cmd)
  case (NewCmd req)
  moreover assume "\<not> command_ok cmd"
  ultimately show ?thesis
    using encode_with_rejects [OF rejects_encode_new] by (simp add: EncodeCommand_def)
next
  case (AckCmd mid)
  moreover assume "\<not> command_ok cmd"
  ultimately show ?thesis
    unfolding EncodeCommand_def
    by (auto intro!: encode_with_rejects rejects_later [OF emits_Raw] rejects_wrap rejects_ShortString)
qed simp_all

text \<open>What two commands must share to be the same request on the wire.\<close>

fun canon_command :: "version \<Rightarrow> command \<Rightarrow> command" where
  "canon_command v (NewCmd req) =
     NewCmd (req\<lparr>SubscribeMode := sub_mode req,
       SenderCanSecure := (v \<ge> VersionV9 \<and> SenderCanSecure req)\<rparr>)"
| "canon_command v cmd = cmd"

lemma new_wire_inject:
  assumes "command_ok (NewCmd r)" "command_ok (NewCmd q)"
    and eq: "command_wire v (NewCmd r) = command_wire v (NewCmd q)"
  shows "canon_command v (NewCmd r) = canon_command v (NewCmd q)"
proof -
  let ?flag = "\<lambda>r. if v \<ge> VersionV9 then bool_wire (SenderCanSecure r) else []"
  let ?auth = "\<lambda>r. maybe_wire (BasicAuth r \<noteq> '''') (bs (BasicAuth r))"
  have 1: "RcvAuthPubKeyDER r = RcvAuthPubKeyDER q \<and>
      short_wire (RcvDHPubKeyDER r) @ ?auth r @ [sub_mode r] @ ?flag r
      = short_wire (RcvDHPubKeyDER q) @ ?auth q @ [sub_mode q] @ ?flag q"
    using assms by (intro short_codec.prefix_free) simp_all
  then have 2: "RcvDHPubKeyDER r = RcvDHPubKeyDER q \<and>
      ?auth r @ [sub_mode r] @ ?flag r = ?auth q @ [sub_mode q] @ ?flag q"
    using assms(1,2) by (intro short_codec.prefix_free) simp_all
  then have "(BasicAuth r \<noteq> '''', bs (BasicAuth r)) = (BasicAuth q \<noteq> '''', bs (BasicAuth q))
      \<and> [sub_mode r] @ ?flag r = [sub_mode q] @ ?flag q"
    using assms(1,2) by (intro maybe_codec.prefix_free) (auto simp: maybe_ok_def)
  with 1 2 show ?thesis
    using bool_codec.wire_inject [of "SenderCanSecure r" "SenderCanSecure q"]
    by (cases r; cases q) (auto split: if_splits)
qed

lemma command_wire_inject:
  assumes ok: "command_ok c" "command_ok c'" and eq: "command_wire v c = command_wire v c'"
  shows "canon_command v c = canon_command v c'"
proof (cases c)
  case (NewCmd r)
  with eq obtain q where "c' = NewCmd q" by (cases c') (simp_all add: bs_Cons)
  with NewCmd ok eq new_wire_inject [of r q v] show ?thesis by blast
next
  case (SendCmd f body)
  with eq obtain g body' where c': "c' = SendCmd g body'" by (cases c') (simp_all add: bs_Cons)
  with SendCmd eq have "Notification f = Notification g \<and> bs '' '' @ body = bs '' '' @ body'"
    by (intro bool_codec.prefix_free) simp_all
  with SendCmd c' show ?thesis by simp
next
  case (AckCmd mid)
  with eq obtain mid' where c': "c' = AckCmd mid'" by (cases c') (simp_all add: bs_Cons)
  with AckCmd eq ok show ?thesis by (simp add: short_codec.wire_inject)
qed (use eq in \<open>cases c'; simp add: bs_Cons\<close>)+

text \<open>C13: Two commands that EncodeCommand turns into the same bytes are the same request: they
  agree on every field the negotiated version transmits, once an unset subscribe mode is
  read as S. No field of a command can be mistaken for part of another one.\<close>

theorem commands_unambiguous:
  assumes "EncodeCommand v c = Inr b" and "EncodeCommand v c' = Inr b"
  shows "canon_command v c = canon_command v c'"
  using EncodeCommand_ok [of c v] EncodeCommand_bad [of c v]
    EncodeCommand_ok [of c' v] EncodeCommand_bad [of c' v] assms command_wire_inject [of c c' v]
  by auto

theorem commands_unambiguous_witness:
  "canon_command 7 (AckCmd [1, 2]) = canon_command 7 (AckCmd [1, 2])"
  by (rule commands_unambiguous [where b = "[65, 67, 75, 32, 2, 1, 2]"])
    (simp_all add: EncodeCommand_ok short_wire_def bs_Cons)

section \<open>Commands of the specification\<close>

text \<open>
  The sentences of the specification as the comments of the source quote it: the subscribe mode
  is S or C, a message id has 24 bytes. The encoder takes any byte for the mode and any id of up
  to 255 bytes.
\<close>

inductive spec_command :: "version \<Rightarrow> bytes \<Rightarrow> bool" for v where
  spec_new: "length rk \<le> 255 \<Longrightarrow> length dk \<le> 255 \<Longrightarrow> length auth \<le> 255
    \<Longrightarrow> mode = SubscribeOnCreate \<or> mode = SubscribeManual
    \<Longrightarrow> spec_command v (bs ''NEW '' @ short_wire rk @ short_wire dk
          @ (if auth = [] then bs ''0'' else bs ''1'' @ short_wire auth) @ [mode]
          @ (if VersionV9 \<le> v then (if sec then bs ''T'' else bs ''F'') else []))"
| spec_sub: "spec_command v (bs ''SUB'')"
| spec_send: "spec_command v (bs ''SEND '' @ (if notify then bs ''T'' else bs ''F'') @ bs '' '' @ body)"
| spec_ack: "length mid = 24 \<Longrightarrow> spec_command v (bs ''ACK '' @ 0x18 # mid)"
| spec_ping: "spec_command v (bs ''PING'')"

fun spec_fields :: "command \<Rightarrow> bool" where
  "spec_fields (NewCmd req) \<longleftrightarrow> SubscribeMode req \<in> {0, SubscribeOnCreate, SubscribeManual}"
| "spec_fields (AckCmd mid) \<longleftrightarrow> length mid = 24"
| "spec_fields _ \<longleftrightarrow> True"

lemma spec_fields_canon: "spec_fields (canon_command v c) = spec_fields c"
  by (cases c) (auto simp: sub_mode_def)

lemma short_wire_24: "length mid = 24 \<Longrightarrow> short_wire mid = 0x18 # mid"
  by (simp add: short_wire_def)

lemma wire_spec_command:
  assumes "command_ok c" "spec_fields c"
  shows "spec_command v (command_wire v c)"
proof (cases c)
  case (NewCmd req)
  have "sub_mode req = SubscribeOnCreate \<or> sub_mode req = SubscribeManual"
    using assms(2) NewCmd by (auto simp: sub_mode_def)
  moreover have "maybe_wire (BasicAuth req \<noteq> []) (bs (BasicAuth req))
      = (if bs (BasicAuth req) = [] then bs ''0'' else bs ''1'' @ short_wire (bs (BasicAuth req)))"
    by (simp add: maybe_wire_def bs_Cons)
  ultimately show ?thesis
    unfolding NewCmd command_wire.simps bool_wire_def
    using assms(1) NewCmd by (simp only:) (intro spec_new; simp)
next
  case (SendCmd f body)
  then show ?thesis using spec_send [of v "Notification f" body] by (simp add: bool_wire_def)
next
  case (AckCmd mid)
  then show ?thesis using assms(2) spec_ack [of mid v] by (simp add: short_wire_24)
qed (simp_all add: spec_sub spec_ping)

lemma spec_command_wire:
  assumes "spec_command v b"
  shows "\<exists>c. command_ok c \<and> spec_fields c \<and> b = command_wire v c"
  using assms
proof cases
  case (spec_new rk dk auth mode sec)
  let ?c = "NewCmd \<lparr>RcvAuthPubKeyDER = rk, RcvDHPubKeyDER = dk, BasicAuth = str auth, SubscribeMode = mode, SenderCanSecure = sec\<rparr>"
  have "mode \<noteq> 0" using spec_new(5) by (auto simp: SubscribeOnCreate_def SubscribeManual_def)
  then show ?thesis
    using spec_new by (intro exI [of _ ?c]) (auto simp: sub_mode_def maybe_wire_def bool_wire_def bs_Cons)
next
  case spec_sub
  then show ?thesis by (intro exI [of _ SubCmd]) simp
next
  case (spec_send notify body)
  then show ?thesis by (intro exI [of _ "SendCmd \<lparr>Notification = notify\<rparr> body"]) (simp add: bool_wire_def)
next
  case (spec_ack mid)
  then show ?thesis by (intro exI [of _ "AckCmd mid"]) (simp add: short_wire_24)
next
  case spec_ping
  then show ?thesis by (intro exI [of _ PingCmd]) simp
qed

text \<open>C11: EncodeCommand against the grammar the comments quote. It encodes exactly the commands
  whose strings fit their length byte, as keyword, length-prefixed keys, optional basic auth, the
  subscribe mode defaulting to S and the v9 flag only from v9 on; the others fail with
  ErrShortStringTooLong. The result is a sentence of the grammar precisely when the subscribe
  mode is unset, S or C and a message id has 24 bytes - the encoder checks neither -, and every
  sentence of the grammar is the encoding of such a command.\<close>

theorem EncodeCommand_meets_grammar:
  "(case EncodeCommand v cmd of
      Inr b \<Rightarrow> command_ok cmd \<and> b = command_wire v cmd \<and> (spec_command v b \<longleftrightarrow> spec_fields cmd)
    | Inl e \<Rightarrow> \<not> command_ok cmd \<and> errors_is e ErrShortStringTooLong)
   \<and> {b. spec_command v b} = {b. \<exists>c. spec_fields c \<and> EncodeCommand v c = Inr b}"
proof
  have iff: "spec_command v (command_wire v c) \<longleftrightarrow> spec_fields c" if "command_ok c" for c
    using that wire_spec_command [of c v] spec_command_wire [of v "command_wire v c"]
      command_wire_inject [of c _ v] spec_fields_canon [of v] by metis
  then show "case EncodeCommand v cmd of
      Inr b \<Rightarrow> command_ok cmd \<and> b = command_wire v cmd \<and> (spec_command v b \<longleftrightarrow> spec_fields cmd)
    | Inl e \<Rightarrow> \<not> command_ok cmd \<and> errors_is e ErrShortStringTooLong"
    using EncodeCommand_ok [of cmd v] EncodeCommand_bad [of cmd v] by (cases "command_ok cmd") auto
  show "{b. spec_command v b} = {b. \<exists>c. spec_fields c \<and> EncodeCommand v c = Inr b}"
    using iff spec_command_wire [of v] EncodeCommand_ok [of _ v] EncodeCommand_bad [of _ v] by fastforce
qed

section \<open>The grammar of server messages\<close>

fun broker_wire :: "version \<Rightarrow> broker_msg \<Rightarrow> bytes" where
  "broker_wire v (IDSMsg r) =
     bs ''IDS '' @ short_wire (RecipientID r) @ short_wire (SenderID r) @ short_wire (SrvDHPubKey r)
       @ (if v \<ge> VersionV9 then bool_wire (SndCanSecure r) else [])"
| "broker_wire v (MsgMsg m) = bs ''MSG '' @ short_wire (msg_ID m) @ msg_Body m"
| "broker_wire v OKMsg = bs ''OK''"
| "broker_wire v PongMsg = bs ''PONG''"
| "broker_wire v EndMsg = bs ''END''"
| "broker_wire v (ErrMsg t d) = bs ''ERR '' @ bs t @ (if d = '''' then [] else bs '' '' @ bs d)"

text \<open>The messages that can come off the wire: flags and times of MSG are not parsed yet.\<close>

fun broker_ok :: "version \<Rightarrow> broker_msg \<Rightarrow> bool" where
  "broker_ok v (IDSMsg r) \<longleftrightarrow> length (RecipientID r) \<le> 255 \<and> length (SenderID r) \<le> 255
     \<and> length (SrvDHPubKey r) \<le> 255 \<and> (v \<ge> VersionV9 \<or> \<not> SndCanSecure r)"
| "broker_ok v (MsgMsg m) \<longleftrightarrow> length (msg_ID m) \<le> 255 \<and> msg_Ts m = 0
     \<and> \<not> Notification (msg_Flags m) \<and> \<not> msg_Quota m"
| "broker_ok v (ErrMsg t d) \<longleftrightarrow> CHR '' '' \<notin> set t"
| "broker_ok v _ \<longleftrightarrow> True"

text \<open>
  What may follow a message unnoticed: anything after an IDS, one space after an ERR
  without a detail, nothing otherwise.
\<close>

fun broker_slack :: "broker_msg \<Rightarrow> bytes \<Rightarrow> bool" where
  "broker_slack (IDSMsg r) s \<longleftrightarrow> True"
| "broker_slack (ErrMsg t d) s \<longleftrightarrow> s = [] \<or> d = '''' \<and> s = bs '' ''"
| "broker_slack _ s \<longleftrightarrow> s = []"

lemma parses_decodeIDS:
  assumes "broker_ok v (IDSMsg r)"
  shows "parses (decodeIDS v) (drop 4 (broker_wire v (IDSMsg r))) (IDSMsg r)"
proof -
  obtain a b c s where r: "r = \<lparr>RecipientID = a, SenderID = b, SrvDHPubKey = c, SndCanSecure = s\<rparr>"
    by (cases r)
  let ?r0 = "\<lparr>RecipientID = a, SenderID = b, SrvDHPubKey = c, SndCanSecure = False\<rparr>"
  have "parses (op_bind (op_wrap f Decoder_Bool) (\<lambda>secure. op_return (IDSMsg (?r0\<lparr>SndCanSecure := secure\<rparr>))))
      (bool_wire s @ []) (IDSMsg (?r0\<lparr>SndCanSecure := s\<rparr>))" for f
    by (rule parses_bind [OF parses_wrap [OF parses_Bool] parses_return])
  then have flag: "parses (if v \<ge> VersionV9
        then op_bind (op_wrap f Decoder_Bool) (\<lambda>secure. op_return (IDSMsg (?r0\<lparr>SndCanSecure := secure\<rparr>)))
        else op_return (IDSMsg ?r0)) (if v \<ge> VersionV9 then bool_wire s else []) (IDSMsg r)" for f
    using assms by (auto simp: r parses_return)
  have "parses (decodeIDS v)
      (short_wire a @ short_wire b @ short_wire c @ (if v \<ge> VersionV9 then bool_wire s else [])) (IDSMsg r)"
    unfolding decodeIDS_def Let_def
    using assms by (intro parses_short_field flag) (simp_all add: r)
  then show ?thesis by (cases "VersionV9 \<le> v") (simp_all add: r bs_Cons)
qed

lemma reads_decodeIDS:
  "reads (decodeIDS v) (\<lambda>xs m. \<exists>r. m = IDSMsg r \<and> broker_ok v m \<and> bs ''IDS '' @ xs = broker_wire v m)"
proof -
  have flag: "reads (if v \<ge> VersionV9
        then op_bind (op_wrap f Decoder_Bool) (\<lambda>secure. op_return (IDSMsg (r\<lparr>SndCanSecure := secure\<rparr>)))
        else op_return (IDSMsg r))
      (\<lambda>xs m. if v \<ge> VersionV9 then \<exists>s. xs = bool_wire s \<and> m = IDSMsg (r\<lparr>SndCanSecure := s\<rparr>)
         else xs = [] \<and> m = IDSMsg r)" for f and r :: ids_response
    by (rule reads_mono [OF reads_if [OF reads_bind [OF reads_wrap [OF reads_Bool] reads_return]
            reads_return]]) (auto split: if_splits)
  show ?thesis
    unfolding decodeIDS_def Let_def
    by (rule reads_mono [OF reads_bind [OF reads_wrap [OF reads_ShortString]
            reads_bind [OF reads_wrap [OF reads_ShortString]
              reads_bind [OF reads_wrap [OF reads_ShortString] flag]]]])
      (auto split: if_splits)
qed

lemma decodeMSG_wire:
  assumes "broker_ok v (MsgMsg m)"
  shows "decode_with decodeMSG (short_wire (msg_ID m) @ msg_Body m) = Inr (MsgMsg m)"
proof -
  have "parses_all decodeMSG (short_wire (msg_ID m) @ msg_Body m) (MsgMsg m)"
    unfolding decodeMSG_def
    using assms by (intro parses_all_short_field parses_all_tail_bind) (cases m, auto)
  then show ?thesis by (rule decode_with_all)
qed

lemma reads_decodeMSG:
  "reads_all decodeMSG (\<lambda>xs x. \<exists>m. x = MsgMsg m \<and> broker_ok v x \<and> bs ''MSG '' @ xs = broker_wire v x)"
  unfolding decodeMSG_def
  by (rule reads_all_mono [OF reads_all_bind [OF reads_wrap [OF reads_ShortString] reads_all_tail]])
    auto

lemma decodeERR_wire:
  "CHR '' '' \<notin> set t \<Longrightarrow> decodeERR (bs t) = ErrMsg t ''''"
  "CHR '' '' \<notin> set t \<Longrightarrow> decodeERR (bs t @ bs '' '' @ d) = ErrMsg t (str d)"
proof -
  assume "CHR '' '' \<notin> set t"
  then show "decodeERR (bs t) = ErrMsg t ''''" "decodeERR (bs t @ bs '' '' @ d) = ErrMsg t (str d)"
    by (auto simp: decodeERR_def Let_def bs_Cons slice_def nat_add_distrib)
qed

lemma decodeERR_sound:
  obtains t d s where "decodeERR body = ErrMsg t d" "CHR '' '' \<notin> set t" "broker_slack (ErrMsg t d) s"
    "bs ''ERR '' @ body = broker_wire v (ErrMsg t d) @ s"
proof (cases "of_char (CHR '' '') \<in> set body")
  case True
  then obtain xs ys where body: "body = xs @ of_char (CHR '' '') # ys" "of_char (CHR '' '') \<notin> set xs"
    by (meson split_list_first)
  then have "decodeERR body = ErrMsg (str xs) (str ys)"
    using decodeERR_wire(2) [of "str xs" ys] by (simp add: bs_Cons)
  then show ?thesis
    by (rule that [where s = "if ys = [] then bs '' '' else []"]) (use body in \<open>auto simp: bs_Cons\<close>)
next
  case False
  then have "decodeERR body = ErrMsg (str body) ''''"
    using decodeERR_wire(1) [of "str body"] by simp
  then show ?thesis by (rule that [where s = "[]"]) (use False in auto)
qed

lemma DecodeBrokerMsg_wire:
  assumes ok: "broker_ok v m" and slack: "broker_slack m s"
  shows "DecodeBrokerMsg v (broker_wire v m @ s) = Inr m"
proof (cases m)
  case (IDSMsg r)
  with ok have "parses (decodeIDS v) (drop 4 (broker_wire v m)) m"
    using parses_decodeIDS [of v r] by blast
  then have "decode_with (decodeIDS v) (drop 4 (broker_wire v m) @ s) = Inr m"
    by (rule decode_with_parses)
  then show ?thesis by (simp add: IDSMsg DecodeBrokerMsg_def bs_Cons)
next
  case (MsgMsg q)
  then show ?thesis
    using decodeMSG_wire [of v q] ok slack by (simp add: DecodeBrokerMsg_def bs_Cons)
next
  case (ErrMsg t d)
  then show ?thesis
    using decodeERR_wire(1) [of t] decodeERR_wire(2) [of t "bs d"] decodeERR_wire(2) [of t "[]"] ok slack
    by (auto simp: DecodeBrokerMsg_def bs_Cons)
qed (use slack in \<open>simp_all add: DecodeBrokerMsg_def bs_Cons\<close>)

lemma DecodeBrokerMsg_sound:
  assumes "DecodeBrokerMsg v raw = Inr m"
  shows "broker_ok v m \<and> (\<exists>s. broker_slack m s \<and> raw = broker_wire v m @ s)"
proof -
  have pre: "raw = t @ drop 4 raw" if "HasPrefix raw t" "length t = 4" for t
    using HasPrefix_imp_append_drop [OF that(1)] that(2) by simp
  consider "HasPrefix raw (bs ''IDS '')" "decode_with (decodeIDS v) (drop 4 raw) = Inr m"
    | "HasPrefix raw (bs ''MSG '')" "decode_with decodeMSG (drop 4 raw) = Inr m"
    | "raw = bs ''OK''" "m = OKMsg" | "raw = bs ''PONG''" "m = PongMsg"
    | "raw = bs ''END''" "m = EndMsg"
    | "HasPrefix raw (bs ''ERR '')" "m = decodeERR (drop 4 raw)"
    using assms unfolding DecodeBrokerMsg_def by (auto split: if_splits)
  then show ?thesis
  proof cases
    case 1
    from reads_decode_with [OF reads_decodeIDS 1(2)] obtain xs r q
      where "m = IDSMsg q" "broker_ok v m" "bs ''IDS '' @ xs = broker_wire v m" "drop 4 raw = xs @ r"
      by metis
    with pre [OF 1(1)] have "raw = broker_wire v m @ r" "broker_slack m r" by auto
    with \<open>broker_ok v m\<close> show ?thesis by blast
  next
    case 2
    from reads_all_decode_with [OF reads_decodeMSG 2(2)] obtain q
      where "m = MsgMsg q" "broker_ok v m" "bs ''MSG '' @ drop 4 raw = broker_wire v m"
      by blast
    with pre [OF 2(1)] have "raw = broker_wire v m @ []" "broker_slack m []" by auto
    with \<open>broker_ok v m\<close> show ?thesis by blast
  next
    case 6
    obtain t d s where "decodeERR (drop 4 raw) = ErrMsg t d" "CHR '' '' \<notin> set t"
      "broker_slack (ErrMsg t d) s" "bs ''ERR '' @ drop 4 raw = broker_wire v (ErrMsg t d) @ s"
      by (rule decodeERR_sound)
    moreover from this(4) pre [OF 6(1)] have "raw = broker_wire v (ErrMsg t d) @ s" by simp
    ultimately show ?thesis using 6(2) by auto
  qed simp_all
qed

lemma fails_decodeIDS: "fails_with (decodeIDS v) {ErrTruncated, ErrBadEncoding}"
  unfolding decodeIDS_def Let_def by (intro fails_rules) simp_all

lemma fails_decodeMSG: "fails_with decodeMSG {ErrTruncated, ErrBadEncoding}"
  unfolding decodeMSG_def by (intro fails_rules) simp_all

text \<open>
  The server messages of the specification as the comments quote it: queue ids have 16 to 24
  bytes, message ids 24; an error is a word, with a detail after a space.
\<close>

inductive spec_broker :: "version \<Rightarrow> broker_msg \<Rightarrow> bytes \<Rightarrow> bool" for v where
  spec_IDS: "length r \<in> {16..24} \<Longrightarrow> length s \<in> {16..24} \<Longrightarrow> length k \<le> 255
    \<Longrightarrow> spec_broker v (IDSMsg \<lparr>RecipientID = r, SenderID = s, SrvDHPubKey = k, SndCanSecure = (VersionV9 \<le> v \<and> sec)\<rparr>)
          (bs ''IDS '' @ short_wire r @ short_wire s @ short_wire k
            @ (if VersionV9 \<le> v then (if sec then bs ''T'' else bs ''F'') else []))"
| spec_MSG: "length mid = 24
    \<Longrightarrow> spec_broker v (MsgMsg \<lparr>msg_ID = mid, msg_Ts = 0, msg_Flags = \<lparr>Notification = False\<rparr>, msg_Body = body, msg_Quota = False\<rparr>)
          (bs ''MSG '' @ 0x18 # mid @ body)"
| spec_OK: "spec_broker v OKMsg (bs ''OK'')"
| spec_PONG: "spec_broker v PongMsg (bs ''PONG'')"
| spec_END: "spec_broker v EndMsg (bs ''END'')"
| spec_ERR: "CHR '' '' \<notin> set t \<Longrightarrow> spec_broker v (ErrMsg t '''') (bs ''ERR '' @ bs t)"
| spec_ERR_detail: "CHR '' '' \<notin> set t \<Longrightarrow> d \<noteq> '''' \<Longrightarrow> spec_broker v (ErrMsg t d) (bs ''ERR '' @ bs t @ bs '' '' @ bs d)"

fun spec_lengths :: "broker_msg \<Rightarrow> bool" where
  "spec_lengths (IDSMsg r) \<longleftrightarrow> length (RecipientID r) \<in> {16..24} \<and> length (SenderID r) \<in> {16..24}"
| "spec_lengths (MsgMsg m) \<longleftrightarrow> length (msg_ID m) = 24"
| "spec_lengths _ \<longleftrightarrow> True"

lemma wire_spec_broker:
  assumes "broker_ok v m" "spec_lengths m"
  shows "spec_broker v m (broker_wire v m)"
proof (cases m)
  case (IDSMsg r)
  obtain a b c s where r: "r = \<lparr>RecipientID = a, SenderID = b, SrvDHPubKey = c, SndCanSecure = s\<rparr>" by (cases r)
  have "(VersionV9 \<le> v \<and> s) = s" using assms(1) IDSMsg r by auto
  with spec_IDS [of a b c v s] show ?thesis
    using assms IDSMsg r by (cases s; cases "VersionV9 \<le> v") (simp_all add: bool_wire_def)
next
  case (MsgMsg q)
  obtain i ts f b u where q: "q = \<lparr>msg_ID = i, msg_Ts = ts, msg_Flags = f, msg_Body = b, msg_Quota = u\<rparr>" by (cases q)
  have "f = \<lparr>Notification = False\<rparr>" using assms(1) MsgMsg q by (cases f) simp
  with spec_MSG [of i v b] show ?thesis using assms MsgMsg q by (simp add: short_wire_24)
next
  case (ErrMsg t d)
  then show ?thesis using assms(1) spec_ERR [of t v] spec_ERR_detail [of t d v] by simp
qed (simp_all add: spec_OK spec_PONG spec_END)

lemma spec_broker_wire: "spec_broker v m raw \<Longrightarrow> broker_ok v m \<and> spec_lengths m \<and> raw = broker_wire v m"
  by (induction rule: spec_broker.induct) (auto simp: bool_wire_def short_wire_24)

lemma broker_slack_Nil: "broker_slack m []"
  by (cases m) simp_all

text \<open>C12: DecodeBrokerMsg against the grammar the comments quote. Every sentence of the grammar is
  read as the one message it stands for. Beyond the grammar the decoder accepts exactly the same
  layout with ids of any length up to 255, further bytes after an IDS, and a trailing space
  after an ERR without detail; what it returns is then what this layout says. Everything
  else is rejected with ErrTruncated or ErrBadEncoding.\<close>

theorem DecodeBrokerMsg_exact:
  "case DecodeBrokerMsg v raw of
     Inr m \<Rightarrow> broker_ok v m \<and> (\<exists>s. broker_slack m s \<and> raw = broker_wire v m @ s)
       \<and> {m'. spec_broker v m' raw} = (if spec_lengths m \<and> raw = broker_wire v m then {m} else {})
   | Inl e \<Rightarrow> (errors_is e ErrTruncated \<or> errors_is e ErrBadEncoding)
       \<and> (\<nexists>m s. broker_ok v m \<and> broker_slack m s \<and> raw = broker_wire v m @ s)
       \<and> {m'. spec_broker v m' raw} = {}"
proof (cases "DecodeBrokerMsg v raw")
  case (Inr m)
  have dec: "m' = m \<and> spec_lengths m \<and> raw = broker_wire v m" if "spec_broker v m' raw" for m'
  proof -
    have w: "broker_ok v m'" "spec_lengths m'" "raw = broker_wire v m'" using spec_broker_wire [OF that] by blast+
    from DecodeBrokerMsg_wire [OF w(1) broker_slack_Nil] w(3) Inr have "m' = m" by simp
    with w show ?thesis by blast
  qed
  have "{m'. spec_broker v m' raw} = (if spec_lengths m \<and> raw = broker_wire v m then {m} else {})"
  proof (cases "spec_lengths m \<and> raw = broker_wire v m")
    case True
    with wire_spec_broker [of v m] DecodeBrokerMsg_sound [OF Inr] have "spec_broker v m raw" by metis
    with dec show ?thesis unfolding if_P [OF True] by blast
  next
    case False
    with dec show ?thesis unfolding if_not_P [OF False] by blast
  qed
  then show ?thesis using Inr DecodeBrokerMsg_sound [OF Inr] by simp
next
  case (Inl e)
  then have "errors_is e ErrTruncated \<or> errors_is e ErrBadEncoding"
    using fails_withD [OF fails_decodeIDS, of v] fails_withD [OF fails_decodeMSG]
    unfolding DecodeBrokerMsg_def by (auto split: if_splits)
  moreover have none: "\<nexists>m s. broker_ok v m \<and> broker_slack m s \<and> raw = broker_wire v m @ s"
    using Inl DecodeBrokerMsg_wire [of v] by fastforce
  moreover have "{m'. spec_broker v m' raw} = {}"
    using none spec_broker_wire [of v _ raw] broker_slack_Nil by (metis Collect_empty_eq append_Nil2)
  ultimately show ?thesis using Inl by simp
qed

end
