(* ===== verification/Transport.thy ===== *)
theory Transport
  imports Wire_Codec
begin

text \<open>
  The block transport of \<open>smp/transport.go\<close>: fixed-size padded blocks over a TLS stream,
  deadlines, certificate pinning and dialling. The TLS session is a record of the bytes that
  will still arrive, how the stream ends, the bytes written and the deadlines set; the
  certificates a server presents, the outcome of the TCP dial and SHA-256 are parameters.
\<close>

section \<open>Blocks over a TLS stream\<close>

definition SMPBlockSize :: int where "SMPBlockSize = 16384"

type_synonym key_hash = bytes

definition wf_key_hash :: "key_hash \<Rightarrow> bool" where
  "wf_key_hash k \<longleftrightarrow> length k = 32"

record certificate =
  cert_Raw :: bytes
  cert_RawSubjectPublicKeyInfo :: bytes

record transport_config =
  DialTimeout :: int
  IOTimeout :: int
  LogTLSErrors :: bool

text \<open>
  \<open>tls_end\<close> is the error of a read after the last byte of \<open>tls_in\<close> (\<open>None\<close> for \<open>io.EOF\<close>),
  \<open>tls_wfault\<close> the number of bytes a failing write still sends and its error. Deadline 0 is
  the zero \<open>time.Time\<close>, no deadline.
\<close>

record tls_state =
  tls_in :: bytes
  tls_end :: "go_err option"
  tls_out :: bytes
  tls_wfault :: "(nat \<times> go_err) option"
  tls_rdeadline :: int
  tls_wdeadline :: int

record conn =
  conn_tls :: tls_state
  conn_tlsUnique :: bytes
  conn_peerCertChain :: "certificate list"
  conn_cfg :: transport_config

definition TLSUnique :: "conn \<Rightarrow> bytes" where
  "TLSUnique c = conn_tlsUnique c"

definition PeerCertChain :: "conn \<Rightarrow> certificate list" where
  "PeerCertChain c = conn_peerCertChain c"

text \<open>\<open>io.ReadFull\<close>: all the bytes, or the reason they did not come.\<close>

datatype read_error = EOF | ErrUnexpectedEOF | ReadErr go_err

definition ReadFull :: "nat \<Rightarrow> tls_state \<Rightarrow> (read_error + bytes) \<times> tls_state" where
  "ReadFull n s =
     (if n \<le> length (tls_in s)
      then (Inr (take n (tls_in s)), s\<lparr>tls_in := drop n (tls_in s)\<rparr>)
      else (Inl (case tls_end s of
                   None \<Rightarrow> if tls_in s = [] then EOF else ErrUnexpectedEOF
                 | Some e \<Rightarrow> ReadErr e), s\<lparr>tls_in := []\<rparr>))"

definition tls_Write :: "bytes \<Rightarrow> (tls_state, unit) op" where
  "tls_Write b s =
     (case tls_wfault s of
        None \<Rightarrow> (Inr (), s\<lparr>tls_out := tls_out s @ b\<rparr>)
      | Some (n, e) \<Rightarrow> (Inl e, s\<lparr>tls_out := tls_out s @ take n b\<rparr>))"

text \<open>
  Closing a TLS connection: every later write fails, a reader gets at most what was already
  received (\<open>k\<close> bytes of it) and then an error. \<open>r\<close> is what the call itself returns.
\<close>

definition ErrNetClosed :: go_err where
  "ErrNetClosed = ForeignErr ''use of closed network connection''"

definition tls_Close :: "nat \<Rightarrow> unit result \<Rightarrow> (tls_state, unit) op" where
  "tls_Close k r s =
     (r, s\<lparr>tls_in := take k (tls_in s), tls_end := Some ErrNetClosed, tls_wfault := Some (0, ErrNetClosed)\<rparr>)"

text \<open>\<open>None\<close> is the nil receiver; a \<open>Conn\<close> that \<open>DialTLS\<close> made has a session.\<close>

definition Conn_Close :: "nat \<Rightarrow> unit result \<Rightarrow> conn option \<Rightarrow> unit result \<times> conn option" where
  "Conn_Close k r c =
     (case c of
        None \<Rightarrow> (Inr (), None)
      | Some conn \<Rightarrow>
          (case tls_Close k r (conn_tls conn) of (r', t) \<Rightarrow> (r', Some (conn\<lparr>conn_tls := t\<rparr>))))"

text \<open>
  \<open>now\<close> is the clock and \<open>ctxDeadline\<close> the result of \<open>ctx.Deadline()\<close>.
\<close>

definition earliestDeadline :: "int \<Rightarrow> int \<Rightarrow> int option \<Rightarrow> int" where
  "earliestDeadline now io ctxDeadline =
     (let deadline = (if io > 0 then now + io else 0) in
      case ctxDeadline of
        Some d \<Rightarrow> if deadline = 0 \<or> d < deadline then d else deadline
      | None \<Rightarrow> deadline)"

definition applyReadDeadline :: "int \<Rightarrow> int option \<Rightarrow> conn \<Rightarrow> conn" where
  "applyReadDeadline now ctx c =
     (let deadline = earliestDeadline now (IOTimeout (conn_cfg c)) ctx in
      if deadline \<noteq> 0 then c\<lparr>conn_tls := (conn_tls c)\<lparr>tls_rdeadline := deadline\<rparr>\<rparr> else c)"

definition clearReadDeadline :: "conn \<Rightarrow> conn" where
  "clearReadDeadline c = c\<lparr>conn_tls := (conn_tls c)\<lparr>tls_rdeadline := 0\<rparr>\<rparr>"

definition applyWriteDeadline :: "int \<Rightarrow> int option \<Rightarrow> conn \<Rightarrow> conn" where
  "applyWriteDeadline now ctx c =
     (let deadline = earliestDeadline now (IOTimeout (conn_cfg c)) ctx in
      if deadline \<noteq> 0 then c\<lparr>conn_tls := (conn_tls c)\<lparr>tls_wdeadline := deadline\<rparr>\<rparr> else c)"

definition clearWriteDeadline :: "conn \<Rightarrow> conn" where
  "clearWriteDeadline c = c\<lparr>conn_tls := (conn_tls c)\<lparr>tls_wdeadline := 0\<rparr>\<rparr>"

text \<open>The block \<open>WriteBlock\<close> fills: length prefix, payload, padding.\<close>

definition pad_block :: "bytes \<Rightarrow> bytes" where
  "pad_block payload =
     be16 (of_nat (length payload)) @ payload
       @ replicate (nat SMPBlockSize - (2 + length payload)) (of_char (CHR ''#''))"

definition WriteBlock :: "int \<Rightarrow> int option \<Rightarrow> bytes \<Rightarrow> (conn, unit) op" where
  "WriteBlock now ctx payload c =
     (if int (length payload) > SMPBlockSize - 2 then (Inl (Sentinel ErrLargeBlock), c)
      else
        (let block = pad_block payload;
             c1 = applyWriteDeadline now ctx c in
         case tls_Write block (conn_tls c1) of
           (r, t) \<Rightarrow> (r, clearWriteDeadline (c1\<lparr>conn_tls := t\<rparr>))))"

text \<open>\<open>block[2:2+length]\<close> is computed in \<open>uint16\<close>; the guard keeps it from wrapping.\<close>

definition ReadBlock :: "int \<Rightarrow> int option \<Rightarrow> (conn, bytes) op" where
  "ReadBlock now ctx c =
     (let c1 = applyReadDeadline now ctx c in
      case ReadFull (nat SMPBlockSize) (conn_tls c1) of
        (Inl err, t) \<Rightarrow>
          (Inl (case err of EOF \<Rightarrow> Sentinel ErrShortBlock
                | ErrUnexpectedEOF \<Rightarrow> Sentinel ErrShortBlock
                | ReadErr e \<Rightarrow> e),
           clearReadDeadline (c1\<lparr>conn_tls := t\<rparr>))
      | (Inr block, t) \<Rightarrow>
          (let len = be_Uint16 (slice block 0 2) in
           if uint len > SMPBlockSize - 2
           then (Inl (Sentinel ErrBadBlock), clearReadDeadline (c1\<lparr>conn_tls := t\<rparr>))
           else (Inr (slice block 2 (uint (2 + len))), clearReadDeadline (c1\<lparr>conn_tls := t\<rparr>))))"

section \<open>Certificate pinning and dialling\<close>

definition SPKIFingerprint :: "(bytes \<Rightarrow> bytes) \<Rightarrow> certificate \<Rightarrow> key_hash" where
  "SPKIFingerprint sha256 cert = sha256 (cert_RawSubjectPublicKeyInfo cert)"

definition CertFingerprint :: "(bytes \<Rightarrow> bytes) \<Rightarrow> certificate \<Rightarrow> key_hash" where
  "CertFingerprint sha256 cert = sha256 (cert_Raw cert)"

fun pin_loop :: "(bytes \<Rightarrow> bytes) \<Rightarrow> key_hash \<Rightarrow> certificate list \<Rightarrow> unit result" where
  "pin_loop sha256 expected [] = Inl (Sentinel ErrFingerprintMismatch)"
| "pin_loop sha256 expected (cert # certs) =
     (if CertFingerprint sha256 cert = expected \<or> SPKIFingerprint sha256 cert = expected
      then Inr () else pin_loop sha256 expected certs)"

definition VerifyConnection :: "(bytes \<Rightarrow> bytes) \<Rightarrow> key_hash \<Rightarrow> certificate list \<Rightarrow> unit result" where
  "VerifyConnection sha256 expected peerChain =
     (if length peerChain = 0 then Inl (ErrNew ''smp: server presented no certificates'')
      else if length peerChain < 2 \<or> length peerChain > 4
        then Inl (Errorf ''smp: unexpected cert chain length %d (want 2..4)'' [AInt (int (length peerChain))])
      else pin_loop sha256 expected peerChain)"

text \<open>
  The \<open>tls.Config\<close>. Without a \<open>ClientSessionCache\<close> no session is resumed.
\<close>

definition ALPNSMP :: string where "ALPNSMP = ''smp/1''"

definition VersionTLS13 :: nat where "VersionTLS13 = 0x0304"

datatype curve_id = CurveP256 | CurveP384 | CurveP521 | X25519 | X25519MLKEM768

record tls_config =
  InsecureSkipVerify :: bool
  MinVersion :: nat
  MaxVersion :: nat
  NextProtos :: "string list"
  CurvePreferences :: "curve_id list"
  has_ClientSessionCache :: bool
  verify_callback :: "certificate list \<Rightarrow> unit result"

definition client_tls_config :: "(bytes \<Rightarrow> bytes) \<Rightarrow> key_hash \<Rightarrow> tls_config" where
  "client_tls_config sha256 expected =
     \<lparr>InsecureSkipVerify = True, MinVersion = VersionTLS13, MaxVersion = VersionTLS13,
      NextProtos = [ALPNSMP], CurvePreferences = [X25519], has_ClientSessionCache = False,
      verify_callback = VerifyConnection sha256 expected\<rparr>"

text \<open>
  What lies outside: the TCP dial (with its timeout and address), and the TLS handshake with a
  configuration and a deadline up to the point where it calls \<open>VerifyConnection\<close> with the
  presented chain. \<open>HandshakeContext\<close> fails when the callback does. \<open>env_now\<close> is the clock
  after the dial, \<open>env_stream\<close> the session after the handshake.
\<close>

record dial_env =
  env_dial :: "int \<Rightarrow> string \<Rightarrow> unit result"
  env_now :: int
  env_certs :: "tls_config \<Rightarrow> int option \<Rightarrow> certificate list result"
  env_stream :: tls_state

definition HandshakeContext :: "tls_config \<Rightarrow> int option \<Rightarrow> dial_env \<Rightarrow> certificate list result" where
  "HandshakeContext tlsCfg deadline env =
     rbind (env_certs env tlsCfg deadline) (\<lambda>chain. rbind (verify_callback tlsCfg chain) (\<lambda>_. Inr chain))"

text \<open>The deadline of the dial is cleared when \<open>DialTLS\<close> returns.\<close>

definition dial_deadline :: "transport_config \<Rightarrow> int \<Rightarrow> int option" where
  "dial_deadline cfg now = (if DialTimeout cfg > 0 then Some (now + DialTimeout cfg) else None)"

definition dialled_stream :: "transport_config \<Rightarrow> tls_state \<Rightarrow> tls_state" where
  "dialled_stream cfg s = (if DialTimeout cfg > 0 then s\<lparr>tls_rdeadline := 0, tls_wdeadline := 0\<rparr> else s)"

text \<open>The second component of the result says whether the TCP connection is still open.\<close>

definition DialTLS ::
  "(bytes \<Rightarrow> bytes) \<Rightarrow> dial_env \<Rightarrow> string \<Rightarrow> key_hash \<Rightarrow> transport_config \<Rightarrow> conn result \<times> bool" where
  "DialTLS sha256 env addr expected cfg =
     (case env_dial env (DialTimeout cfg) addr of
        Inl e \<Rightarrow> (Inl (Errorf ''smp: tcp dial %s: %w'' [AStr addr, AWrap e]), False)
      | Inr _ \<Rightarrow>
          (case HandshakeContext (client_tls_config sha256 expected) (dial_deadline cfg (env_now env)) env of
             Inl e \<Rightarrow> (Inl (wrapf ''smp: tls handshake: %w'' e), False)
           | Inr chain \<Rightarrow>
               (Inr \<lparr>conn_tls = dialled_stream cfg (env_stream env), conn_tlsUnique = [], conn_peerCertChain = chain,
                 conn_cfg = cfg\<rparr>, True)))"

section \<open>Framing\<close>

lemma nat_SMPBlockSize [simp]: "nat SMPBlockSize = 16384"
  by (simp add: SMPBlockSize_def)

lemma length_pad_block [simp]:
  "length p \<le> 16382 \<Longrightarrow> length (pad_block p) = 16384"
  by (simp add: pad_block_def)

lemma slice_pad_block:
  assumes "length p \<le> 16382"
  shows "be_Uint16 (slice (pad_block p) 0 2) = of_nat (length p)"
    "slice (pad_block p) 2 (2 + int (length p)) = p"
proof -
  show "be_Uint16 (slice (pad_block p) 0 2) = of_nat (length p)"
    by (simp add: pad_block_def slice_def)
  have "nat (2 + int (length p)) = Suc (Suc (length p))" by simp
  then show "slice (pad_block p) 2 (2 + int (length p)) = p"
    by (simp add: pad_block_def slice_def be16_def)
qed

text \<open>What a conn's deadlines do not touch: the streams. \<open>with_tls\<close> names the final state.\<close>

definition with_tls :: "conn \<Rightarrow> tls_state \<Rightarrow> conn" where
  "with_tls c t = c\<lparr>conn_tls := t\<rparr>"

lemma with_tls_simps [simp]:
  "conn_tls (with_tls c t) = t" "conn_cfg (with_tls c t) = conn_cfg c"
  "conn_tlsUnique (with_tls c t) = conn_tlsUnique c"
  "conn_peerCertChain (with_tls c t) = conn_peerCertChain c"
  "with_tls (with_tls c t) t' = with_tls c t'" "with_tls c (conn_tls c) = c"
  by (simp_all add: with_tls_def)

lemma WriteBlock_ok:
  assumes "length p \<le> 16382" "tls_wfault (conn_tls c) = None"
  shows "WriteBlock now ctx p c =
    (Inr (), with_tls c ((conn_tls c)\<lparr>tls_out := tls_out (conn_tls c) @ pad_block p, tls_wdeadline := 0\<rparr>))"
  using assms
  by (simp add: WriteBlock_def SMPBlockSize_def tls_Write_def applyWriteDeadline_def
      clearWriteDeadline_def with_tls_def Let_def)

lemma WriteBlock_large:
  "16382 < length p \<Longrightarrow> WriteBlock now ctx p c = (Inl (Sentinel ErrLargeBlock), c)"
  by (simp add: WriteBlock_def SMPBlockSize_def)

lemma WriteBlock_fault:
  assumes "length p \<le> 16382" "tls_wfault (conn_tls c) = Some (n, e)"
  shows "WriteBlock now ctx p c =
    (Inl e, with_tls c ((conn_tls c)\<lparr>tls_out := tls_out (conn_tls c) @ take n (pad_block p), tls_wdeadline := 0\<rparr>))"
  using assms
  by (simp add: WriteBlock_def SMPBlockSize_def tls_Write_def applyWriteDeadline_def
      clearWriteDeadline_def with_tls_def Let_def)

text \<open>The bytes left for the next read after taking one block.\<close>

definition after_block :: "conn \<Rightarrow> conn" where
  "after_block c = with_tls c ((conn_tls c)\<lparr>tls_in := drop 16384 (tls_in (conn_tls c)), tls_rdeadline := 0\<rparr>)"

definition block_length :: "bytes \<Rightarrow> nat" where
  "block_length b = unat (be_Uint16 (take 2 b))"

lemma ReadBlock_cases:
  "ReadBlock now ctx c =
    (if length (tls_in (conn_tls c)) < 16384
     then (Inl (case tls_end (conn_tls c) of None \<Rightarrow> Sentinel ErrShortBlock | Some e \<Rightarrow> e), after_block c)
     else if 16382 < block_length (tls_in (conn_tls c)) then (Inl (Sentinel ErrBadBlock), after_block c)
     else (Inr (take (block_length (tls_in (conn_tls c))) (drop 2 (tls_in (conn_tls c)))), after_block c))"
  (is "?lhs = ?rhs")
proof -
  define t where "t = conn_tls c"
  define c1 where "c1 = applyReadDeadline now ctx c"
  have c1: "tls_in (conn_tls c1) = tls_in t" "tls_end (conn_tls c1) = tls_end t"
    "clearReadDeadline (c1\<lparr>conn_tls := (conn_tls c1)\<lparr>tls_in := x\<rparr>\<rparr>)
       = with_tls c (t\<lparr>tls_in := x, tls_rdeadline := 0\<rparr>)" for x
    by (simp_all add: c1_def t_def applyReadDeadline_def clearReadDeadline_def with_tls_def Let_def)
  define w where "w = be_Uint16 (take 2 (tls_in t))"
  have w: "be_Uint16 (slice (take 16384 (tls_in t)) 0 2) = w"
    by (simp add: w_def slice_def min_def)
  have bl: "block_length (tls_in t) = unat w" by (simp add: block_length_def w_def)
  show ?thesis
  proof (cases "length (tls_in t) < 16384")
    case True
    then show ?thesis
      by (auto simp: ReadBlock_def Let_def ReadFull_def c1 c1_def[symmetric] t_def[symmetric]
          after_block_def split: option.split)
  next
    case False
    have *: "?lhs = (if uint w > 16382 then (Inl (Sentinel ErrBadBlock), after_block c)
        else (Inr (slice (take 16384 (tls_in t)) 2 (uint (2 + w))), after_block c))"
    proof -
      have rf: "ReadFull (nat SMPBlockSize) (conn_tls c1)
          = (Inr (take 16384 (tls_in t)), (conn_tls c1)\<lparr>tls_in := drop 16384 (tls_in t)\<rparr>)"
        using False by (simp add: ReadFull_def c1)
      have sz: "SMPBlockSize - 2 = 16382" by (simp add: SMPBlockSize_def)
      show ?thesis
        unfolding ReadBlock_def Let_def c1_def[symmetric] rf prod.case sum.case c1 w sz
          after_block_def t_def[symmetric] ..
    qed
    have un: "uint w = int (unat w)" by (rule uint_nat)
    have big: "uint w > 16382 \<longleftrightarrow> 16382 < unat w"
      using un by linarith
    show ?thesis
    proof (cases "16382 < unat w")
      case True
      with False * big show ?thesis by (simp add: bl t_def[symmetric])
    next
      case small: False
      then have lt: "uint w < 65534" using un by linarith
      have "uint (2 + w) = 2 + int (unat w)"
        using lt by (simp add: uint_plus_if_size word_size)
      then have "slice (take 16384 (tls_in t)) 2 (uint (2 + w)) = take (unat w) (drop 2 (tls_in t))"
        using small by (simp add: slice_def drop_take min_def del: of_nat_unat)
      with False small * big show ?thesis by (simp add: bl t_def[symmetric])
    qed
  qed
qed

lemma ReadBlock_after [simp]: "snd (ReadBlock now ctx c) = after_block c"
  by (simp add: ReadBlock_cases)

lemma block_length_be16 [simp]: "block_length (be16 w @ b) = unat w"
  by (simp add: block_length_def)

lemma framed_iff:
  "(16384 \<le> length b \<and> block_length b \<le> 16382 \<and> p = take (block_length b) (drop 2 b))
   \<longleftrightarrow> (\<exists>pad rest. b = be16 (of_nat (length p)) @ p @ pad @ rest \<and> length p + length pad = 16382)"
  (is "?l \<longleftrightarrow> ?r")
proof
  assume l: ?l
  have two: "length (take 2 b) = 2" using l by simp
  have p: "length p = block_length b" using l by auto
  have "b = take 2 b @ drop 2 b" by simp
  also have "take 2 b = be16 (of_nat (length p))"
    using be16_be_Uint16 [OF two] by (simp add: p block_length_def)
  also have "drop 2 b = p @ drop (block_length b) (drop 2 b)"
    using l append_take_drop_id [of "block_length b" "drop 2 b"] by simp
  also have "drop (block_length b) (drop 2 b)
      = take (16382 - block_length b) (drop (block_length b) (drop 2 b)) @ drop 16384 b"
    using l append_take_drop_id [of "16382 - block_length b" "drop (block_length b) (drop 2 b)"]
    by simp
  finally show ?r using l p by (intro exI) (auto simp: p)
next
  assume ?r
  then obtain pad rest where b: "b = be16 (of_nat (length p)) @ p @ pad @ rest"
    and len: "length p + length pad = 16382" by blast
  have "unat (of_nat (length p) :: 16 word) = length p"
    using len by (simp add: unat_of_nat)
  then show ?l using len by (simp add: b)
qed

lemma ReadBlock_Inr_iff:
  "fst (ReadBlock now ctx c) = Inr p \<longleftrightarrow>
      (\<exists>pad rest. tls_in (conn_tls c) = be16 (of_nat (length p)) @ p @ pad @ rest
        \<and> length p + length pad = 16382)"
proof -
  have "fst (ReadBlock now ctx c) = Inr p \<longleftrightarrow>
      16384 \<le> length (tls_in (conn_tls c)) \<and> block_length (tls_in (conn_tls c)) \<le> 16382
      \<and> p = take (block_length (tls_in (conn_tls c))) (drop 2 (tls_in (conn_tls c)))"
    by (auto simp: ReadBlock_cases)
  then show ?thesis using framed_iff [of "tls_in (conn_tls c)" p] by simp
qed

text \<open>C16: \<open>ReadBlock\<close> succeeds exactly on a stream that starts with a complete block whose
  length prefix fits, and then returns the framed payload whatever the padding bytes are; it
  fails with \<open>ErrShortBlock\<close> (or the stream's own error) exactly when fewer than 16384 bytes
  come, and with \<open>ErrBadBlock\<close> exactly when the prefix exceeds 16382. On every branch with a
  complete block it has consumed exactly 16384 bytes, so the stream stays in step, and the read
  deadline is cleared on every branch.\<close>

theorem ReadBlock_exact:
  "(fst (ReadBlock now ctx c) = Inr p \<longleftrightarrow>
      (\<exists>pad rest. tls_in (conn_tls c) = be16 (of_nat (length p)) @ p @ pad @ rest
        \<and> length p + length pad = 16382))
   \<and> (fst (ReadBlock now ctx c) = Inl e \<longleftrightarrow>
      (if length (tls_in (conn_tls c)) < 16384
       then e = (case tls_end (conn_tls c) of None \<Rightarrow> Sentinel ErrShortBlock | Some e' \<Rightarrow> e')
       else 16382 < block_length (tls_in (conn_tls c)) \<and> e = Sentinel ErrBadBlock))
   \<and> tls_in (conn_tls (snd (ReadBlock now ctx c))) = drop 16384 (tls_in (conn_tls c))
   \<and> tls_rdeadline (conn_tls (snd (ReadBlock now ctx c))) = 0
   \<and> tls_out (conn_tls (snd (ReadBlock now ctx c))) = tls_out (conn_tls c)"
  unfolding ReadBlock_Inr_iff by (auto simp: ReadBlock_cases after_block_def)

text \<open>C11: \<open>WriteBlock\<close> either refuses a payload above 16382 bytes with \<open>ErrLargeBlock\<close> and
  touches nothing, or hands the TLS session exactly one block of 16384 bytes and clears the
  write deadline; it succeeds exactly when the payload fits and the session accepts the bytes.\<close>

theorem WriteBlock_exact:
  "(fst (WriteBlock now ctx p c) = Inr () \<longleftrightarrow> length p \<le> 16382 \<and> tls_wfault (conn_tls c) = None)
   \<and> (snd (WriteBlock now ctx p c) = c \<and> fst (WriteBlock now ctx p c) = Inl (Sentinel ErrLargeBlock)
      \<or> (\<exists>block sent. length block = 16384 \<and> block_length block = length p
          \<and> take (length p) (drop 2 block) = p
          \<and> sent = (case tls_wfault (conn_tls c) of None \<Rightarrow> block | Some (n, e) \<Rightarrow> take n block)
          \<and> snd (WriteBlock now ctx p c)
             = with_tls c ((conn_tls c)\<lparr>tls_out := tls_out (conn_tls c) @ sent, tls_wdeadline := 0\<rparr>)))"
proof (cases "16382 < length p")
  case True
  then show ?thesis by (simp add: WriteBlock_large)
next
  case False
  then have small: "length p \<le> 16382" by simp
  have "unat (of_nat (length p) :: 16 word) = length p"
    using small by (simp add: unat_of_nat)
  then have b: "length (pad_block p) = 16384" "block_length (pad_block p) = length p"
    "take (length p) (drop 2 (pad_block p)) = p"
    using small by (simp_all add: pad_block_def)
  show ?thesis
  proof (cases "tls_wfault (conn_tls c)")
    case None
    with small b show ?thesis by (auto simp: WriteBlock_ok intro!: exI [of _ "pad_block p"])
  next
    case (Some f)
    obtain n e where f: "f = (n, e)" by (cases f)
    from small b Some f show ?thesis
      by (auto simp: WriteBlock_fault intro!: exI [of _ "pad_block p"])
  qed
qed

section \<open>A stream of blocks\<close>

fun write_blocks :: "int \<Rightarrow> int option \<Rightarrow> bytes list \<Rightarrow> (conn, unit) op" where
  "write_blocks now ctx [] = op_return ()"
| "write_blocks now ctx (p # ps) = op_bind (WriteBlock now ctx p) (\<lambda>_. write_blocks now ctx ps)"

fun read_blocks :: "int \<Rightarrow> int option \<Rightarrow> nat \<Rightarrow> (conn, bytes list) op" where
  "read_blocks now ctx 0 = op_return []"
| "read_blocks now ctx (Suc n) =
     op_bind (ReadBlock now ctx) (\<lambda>p. op_bind (read_blocks now ctx n) (\<lambda>ps. op_return (p # ps)))"

lemma write_blocks_out:
  assumes "\<forall>p\<in>set ps. length p \<le> 16382" "tls_wfault (conn_tls c) = None"
  shows "\<exists>c'. write_blocks now ctx ps c = (Inr (), c')
    \<and> tls_out (conn_tls c') = tls_out (conn_tls c) @ concat (map pad_block ps)
    \<and> tls_wfault (conn_tls c') = None"
  using assms
proof (induction ps arbitrary: c)
  case (Cons p ps)
  let ?c1 = "with_tls c ((conn_tls c)\<lparr>tls_out := tls_out (conn_tls c) @ pad_block p, tls_wdeadline := 0\<rparr>)"
  have "WriteBlock now ctx p c = (Inr (), ?c1)"
    using Cons.prems by (intro WriteBlock_ok) auto
  with Cons.IH [of ?c1] Cons.prems show ?case by (auto simp: op_bind_def)
qed (simp add: op_return_def)

lemma ReadBlock_pad_block:
  assumes "length p \<le> 16382" "tls_in (conn_tls c) = pad_block p @ rest"
  shows "ReadBlock now ctx c = (Inr p, after_block c)"
proof -
  have "fst (ReadBlock now ctx c) = Inr p"
    unfolding ReadBlock_Inr_iff assms(2) pad_block_def using assms(1)
    by (intro exI [of _ "replicate (16382 - length p) (of_char (CHR ''#''))"] exI [of _ rest]) simp
  then show ?thesis by (metis ReadBlock_after prod.collapse)
qed

lemma read_blocks_in:
  assumes "\<forall>p\<in>set ps. length p \<le> 16382"
    "tls_in (conn_tls c) = concat (map pad_block ps) @ rest"
  shows "\<exists>c'. read_blocks now ctx (length ps) c = (Inr ps, c')
    \<and> tls_in (conn_tls c') = rest \<and> tls_end (conn_tls c') = tls_end (conn_tls c)"
  using assms
proof (induction ps arbitrary: c)
  case (Cons p ps)
  have "ReadBlock now ctx c = (Inr p, after_block c)"
    using Cons.prems by (intro ReadBlock_pad_block [where rest = "concat (map pad_block ps) @ rest"]) auto
  moreover have "tls_in (conn_tls (after_block c)) = concat (map pad_block ps) @ rest"
    "tls_end (conn_tls (after_block c)) = tls_end (conn_tls c)"
    using Cons.prems by (simp_all add: after_block_def)
  ultimately show ?case
    using Cons.IH [of "after_block c"] Cons.prems by (auto simp: op_bind_def op_return_def)
qed (simp add: op_return_def)

text \<open>C6: what one side writes block by block the other reads back payload by payload: after
  any sequence of payloads that fit, the bytes sent are 16384 per payload, reading as many
  blocks from them returns exactly the payloads in order, and what followed them is left
  untouched for the next read.\<close>

theorem block_stream_roundtrip:
  assumes "\<forall>p\<in>set ps. length p \<le> 16382"
    and "tls_wfault (conn_tls w) = None"
    and "tls_out (conn_tls (snd (write_blocks now ctx ps w))) = tls_out (conn_tls w) @ sent"
    and "tls_in (conn_tls r) = sent @ rest"
  shows "fst (write_blocks now ctx ps w) = Inr () \<and> length sent = 16384 * length ps
    \<and> fst (read_blocks now' ctx' (length ps) r) = Inr ps
    \<and> tls_in (conn_tls (snd (read_blocks now' ctx' (length ps) r))) = rest"
proof -
  have w: "fst (write_blocks now ctx ps w) = Inr ()" "sent = concat (map pad_block ps)"
    using write_blocks_out [OF assms(1,2), of now ctx] assms(3) by auto
  have "length (concat (map pad_block ps)) = 16384 * length ps"
    using assms(1) by (induction ps) auto
  moreover have "fst (read_blocks now' ctx' (length ps) r) = Inr ps"
    "tls_in (conn_tls (snd (read_blocks now' ctx' (length ps) r))) = rest"
    using read_blocks_in [OF assms(1), of r rest now' ctx'] assms(4) w(2) by auto
  ultimately show ?thesis using w by simp
qed

definition test_conn :: "bytes \<Rightarrow> conn" where
  "test_conn b = \<lparr>conn_tls = \<lparr>tls_in = b, tls_end = None, tls_out = [], tls_wfault = None,
       tls_rdeadline = 0, tls_wdeadline = 0\<rparr>, conn_tlsUnique = [], conn_peerCertChain = [],
     conn_cfg = \<lparr>DialTimeout = 0, IOTimeout = 0, LogTLSErrors = False\<rparr>\<rparr>"

theorem block_stream_roundtrip_witness:
  "fst (read_blocks 0 None 2 (test_conn (pad_block [1, 2] @ pad_block [] @ [7]))) = Inr [[1, 2], []]"
proof -
  have "tls_out (conn_tls (snd (write_blocks 0 None [[1, 2], []] (test_conn []))))
      = tls_out (conn_tls (test_conn [])) @ (pad_block [1, 2] @ pad_block [])"
    by (simp add: op_bind_def op_return_def WriteBlock_ok test_conn_def)
  then show ?thesis
    using block_stream_roundtrip [of "[[1, 2], []]" "test_conn []" 0 None
        "pad_block [1, 2] @ pad_block []" "test_conn (pad_block [1, 2] @ pad_block [] @ [7])" "[7]" 0 None]
    by (simp add: test_conn_def numeral_2_eq_2)
qed

section \<open>Pinning\<close>

lemma pin_loop_iff:
  "pin_loop sha256 expected certs =
    (if \<exists>cert\<in>set certs. CertFingerprint sha256 cert = expected \<or> SPKIFingerprint sha256 cert = expected
     then Inr () else Inl (Sentinel ErrFingerprintMismatch))"
  by (induction certs) auto

lemma VerifyConnection_iff:
  "VerifyConnection sha256 expected chain = Inr () \<longleftrightarrow> 2 \<le> length chain \<and> length chain \<le> 4
     \<and> (\<exists>cert\<in>set chain. CertFingerprint sha256 cert = expected \<or> SPKIFingerprint sha256 cert = expected)"
  by (auto simp: VerifyConnection_def pin_loop_iff)

lemma result_unit_cases: "(\<exists>e. r = Inl e) \<or> r = Inr (u :: unit)"
  by (cases r) auto

text \<open>The chain the server presents to a client with this configuration.\<close>

definition presented :: "(bytes \<Rightarrow> bytes) \<Rightarrow> dial_env \<Rightarrow> key_hash \<Rightarrow> transport_config \<Rightarrow> certificate list result" where
  "presented sha256 env expected cfg =
     env_certs env (client_tls_config sha256 expected) (dial_deadline cfg (env_now env))"

lemma HandshakeContext_client:
  "HandshakeContext (client_tls_config sha256 expected) (dial_deadline cfg (env_now env)) env =
     rbind (presented sha256 env expected cfg) (\<lambda>chain. rbind (VerifyConnection sha256 expected chain) (\<lambda>_. Inr chain))"
  by (simp add: HandshakeContext_def presented_def client_tls_config_def)

lemma DialTLS_iff:
  "(fst (DialTLS sha256 env addr expected cfg) = Inr c \<longleftrightarrow>
     env_dial env (DialTimeout cfg) addr = Inr ()
     \<and> (\<exists>chain. presented sha256 env expected cfg = Inr chain \<and> 2 \<le> length chain \<and> length chain \<le> 4
        \<and> (\<exists>cert\<in>set chain. sha256 (cert_Raw cert) = expected
              \<or> sha256 (cert_RawSubjectPublicKeyInfo cert) = expected)
        \<and> c = \<lparr>conn_tls = dialled_stream cfg (env_stream env), conn_tlsUnique = [],
               conn_peerCertChain = chain, conn_cfg = cfg\<rparr>))
   \<and> (snd (DialTLS sha256 env addr expected cfg) \<longleftrightarrow> (\<exists>c. fst (DialTLS sha256 env addr expected cfg) = Inr c))"
proof (cases "env_dial env (DialTimeout cfg) addr")
  case (Inl e)
  then show ?thesis by (simp add: DialTLS_def)
next
  case dial: (Inr u)
  show ?thesis
  proof (cases "presented sha256 env expected cfg")
    case (Inl e)
    with dial show ?thesis by (simp add: DialTLS_def HandshakeContext_client)
  next
    case (Inr chain)
    show ?thesis
    proof (cases "VerifyConnection sha256 expected chain")
      case (Inl e)
      then have "VerifyConnection sha256 expected chain \<noteq> Inr ()" by simp
      then have "\<not> (2 \<le> length chain \<and> length chain \<le> 4
          \<and> (\<exists>cert\<in>set chain. sha256 (cert_Raw cert) = expected \<or> sha256 (cert_RawSubjectPublicKeyInfo cert) = expected))"
        unfolding VerifyConnection_iff CertFingerprint_def SPKIFingerprint_def .
      with dial Inr Inl show ?thesis
        by (auto simp: DialTLS_def HandshakeContext_client)
    next
      case ok: (Inr u')
      then have "VerifyConnection sha256 expected chain = Inr ()" by simp
      note chain = this [unfolded VerifyConnection_iff CertFingerprint_def SPKIFingerprint_def]
      from dial Inr ok have "DialTLS sha256 env addr expected cfg =
         (Inr \<lparr>conn_tls = dialled_stream cfg (env_stream env), conn_tlsUnique = [],
            conn_peerCertChain = chain, conn_cfg = cfg\<rparr>, True)"
        by (simp add: DialTLS_def HandshakeContext_client)
      with dial Inr chain show ?thesis by auto
    qed
  qed
qed

text \<open>C8: \<open>DialTLS\<close> returns a connection exactly when the TCP dial succeeds and the server
  presents a chain of 2 to 4 certificates one of which - any of them - has the expected
  fingerprint, over the whole certificate or its public key info, in a handshake that offers
  only TLS 1.3, \<open>smp/1\<close> and X25519 and resumes nothing; the connection then carries
  that chain, an empty channel binding, the configuration and no deadline of the dial, and on
  every failure the TCP connection is closed.\<close>

theorem DialTLS_pinned:
  "(fst (DialTLS sha256 env addr expected cfg) = Inr c \<longleftrightarrow>
     env_dial env (DialTimeout cfg) addr = Inr ()
     \<and> (\<exists>tls chain. env_certs env tls (dial_deadline cfg (env_now env)) = Inr chain
        \<and> MinVersion tls = 0x0304 \<and> MaxVersion tls = 0x0304 \<and> NextProtos tls = [''smp/1'']
        \<and> CurvePreferences tls = [X25519] \<and> \<not> has_ClientSessionCache tls \<and> InsecureSkipVerify tls
        \<and> verify_callback tls = VerifyConnection sha256 expected
        \<and> 2 \<le> length chain \<and> length chain \<le> 4
        \<and> (\<exists>cert\<in>set chain. sha256 (cert_Raw cert) = expected
              \<or> sha256 (cert_RawSubjectPublicKeyInfo cert) = expected)
        \<and> c = \<lparr>conn_tls = dialled_stream cfg (env_stream env), conn_tlsUnique = [],
               conn_peerCertChain = chain, conn_cfg = cfg\<rparr>))
   \<and> (snd (DialTLS sha256 env addr expected cfg) \<longleftrightarrow> (\<exists>c. fst (DialTLS sha256 env addr expected cfg) = Inr c))"
proof -
  have "tls = client_tls_config sha256 expected \<longleftrightarrow>
      MinVersion tls = 0x0304 \<and> MaxVersion tls = 0x0304 \<and> NextProtos tls = [''smp/1'']
      \<and> CurvePreferences tls = [X25519] \<and> \<not> has_ClientSessionCache tls \<and> InsecureSkipVerify tls
      \<and> verify_callback tls = VerifyConnection sha256 expected" for tls
    by (cases tls) (auto simp: client_tls_config_def VersionTLS13_def ALPNSMP_def)
  then have "(\<exists>tls chain. env_certs env tls d = Inr chain
        \<and> MinVersion tls = 0x0304 \<and> MaxVersion tls = 0x0304 \<and> NextProtos tls = [''smp/1'']
        \<and> CurvePreferences tls = [X25519] \<and> \<not> has_ClientSessionCache tls \<and> InsecureSkipVerify tls
        \<and> verify_callback tls = VerifyConnection sha256 expected \<and> P chain)
      \<longleftrightarrow> (\<exists>chain. env_certs env (client_tls_config sha256 expected) d = Inr chain \<and> P chain)" for d P
    by metis
  then show ?thesis using DialTLS_iff by (simp only: presented_def)
qed

lemma earliestDeadline_min:
  assumes "0 < now" "earliestDeadline now io ctxDeadline = d"
  shows "(0 < io \<longrightarrow> d \<le> now + io) \<and> (\<forall>t. ctxDeadline = Some t \<longrightarrow> d \<le> t)
    \<and> (d = 0 \<or> (0 < io \<and> d = now + io) \<or> ctxDeadline = Some d)"
  using assms by (auto simp: earliestDeadline_def Let_def split: option.splits if_splits)

end
