(* ===== verification/Transmission.thy ===== *)
theory Transmission
  imports Protocol
begin

text \<open>
  The framing layer of \<open>smp/protocol.go\<close>: correlation ids, single transmissions
  (\<open>EncodeTransmission\<close>, \<open>decodeTransmission\<close>) and blocks of transmissions
  (\<open>EncodeBlock\<close>, \<open>DecodeBlock\<close>). \<open>corr_wire\<close>, \<open>auth_wire\<close>, \<open>tx_wire\<close> and
  \<open>block_wire\<close> state the layouts the comments quote from the specification.
\<close>

section \<open>Definitions\<close>

definition encodeCorrID :: "corr_id \<Rightarrow> (encoder, unit) op" where
  "encodeCorrID c =
     (if c = NoCorrID then Encoder_Char 0x00
      else op_bind (Encoder_Char 0x18) (\<lambda>_. Encoder_Raw c))"

definition decodeCorrID :: "(decoder, corr_id) op" where
  "decodeCorrID =
     op_bind (op_wrap ''corrId tag: %w'' Decoder_Char) (\<lambda>tag.
       if tag = 0x00 then op_return NoCorrID
       else if tag = 0x18 then
         op_bind (op_wrap ''corrId bytes: %w'' (Decoder_need 24)) (\<lambda>b. op_return b)
       else op_fail (Errorf ''%w: invalid corrId tag %#x'' [AWrap (Sentinel ErrBadEncoding), AInt (uint tag)]))"

record transmission =
  tx_CorrID :: corr_id
  tx_EntityID :: entity_id
  tx_Command :: bytes
  tx_Authorization :: bytes

text \<open>The two encoders \<open>EncodeTransmission\<close> fills, \<open>a\<close> and \<open>w\<close>.\<close>

definition encode_auth :: "session_id \<Rightarrow> transmission \<Rightarrow> (encoder, unit) op" where
  "encode_auth sessID t =
     op_bind (op_wrap ''smp: auth sessId: %w'' (Encoder_ShortString sessID)) (\<lambda>_.
     op_bind (encodeCorrID (tx_CorrID t)) (\<lambda>_.
     op_bind (op_wrap ''smp: auth entityId: %w'' (Encoder_ShortString (tx_EntityID t))) (\<lambda>_.
     Encoder_Raw (tx_Command t))))"

definition encode_wire :: "version \<Rightarrow> session_id \<Rightarrow> transmission \<Rightarrow> (encoder, unit) op" where
  "encode_wire v sessID t =
     op_bind (op_wrap ''smp: wire authorization: %w'' (Encoder_ShortString (tx_Authorization t))) (\<lambda>_.
     op_bind (if v < VersionV7
              then op_wrap ''smp: wire sessId: %w'' (Encoder_ShortString sessID)
              else op_return ()) (\<lambda>_.
     op_bind (encodeCorrID (tx_CorrID t)) (\<lambda>_.
     op_bind (op_wrap ''smp: wire entityId: %w'' (Encoder_ShortString (tx_EntityID t))) (\<lambda>_.
     Encoder_Raw (tx_Command t)))))"

definition EncodeTransmission :: "version \<Rightarrow> session_id \<Rightarrow> transmission \<Rightarrow> (bytes \<times> bytes) result" where
  "EncodeTransmission v sessID t =
     rbind (encode_with (encode_auth sessID t)) (\<lambda>authBytes.
     rbind (encode_with (encode_wire v sessID t)) (\<lambda>wireBytes.
     Inr (wireBytes, authBytes)))"

definition decode_tx :: "version \<Rightarrow> session_id \<Rightarrow> (decoder, transmission) op" where
  "decode_tx v sessID =
     op_bind (op_wrap ''authorization: %w'' Decoder_ShortString) (\<lambda>auth.
     op_bind (if v < VersionV7
              then op_bind (op_wrap ''sessId: %w'' Decoder_ShortString) (\<lambda>gotSess.
                     if gotSess \<noteq> sessID
                     then op_fail (wrapf ''%w: sessId mismatch'' (Sentinel ErrBadEncoding))
                     else op_return ())
              else op_return ()) (\<lambda>_.
     op_bind decodeCorrID (\<lambda>cid.
     op_bind (op_wrap ''entityId: %w'' Decoder_ShortString) (\<lambda>entityID.
     op_bind tail_op (\<lambda>cmd.
     op_return \<lparr>tx_CorrID = cid, tx_EntityID = entityID, tx_Command = cmd, tx_Authorization = auth\<rparr>)))))"

definition decodeTransmission :: "version \<Rightarrow> session_id \<Rightarrow> bytes \<Rightarrow> transmission result" where
  "decodeTransmission v sessID body = decode_with (decode_tx v sessID) body"

text \<open>The loop of \<open>EncodeBlock\<close>; \<open>i\<close> is its index, used in the error only.\<close>

fun encode_txs :: "int \<Rightarrow> bytes list \<Rightarrow> (encoder, unit) op" where
  "encode_txs i [] = op_return ()"
| "encode_txs i (t # ts) =
     (if int (length t) > 65535
      then op_fail (Errorf ''smp: tx %d too large (%d bytes, max 65535)'' [AInt i, AInt (int (length t))])
      else op_bind (Encoder_Word16 (of_nat (length t))) (\<lambda>_.
           op_bind (Encoder_Raw t) (\<lambda>_. encode_txs (i + 1) ts)))"

definition EncodeBlock :: "bytes list \<Rightarrow> bytes result" where
  "EncodeBlock transmissions =
     (if int (length transmissions) > 255
      then Inl (Errorf ''%w: %d transmissions, max 255''
             [AWrap (Sentinel ErrBadEncoding), AInt (int (length transmissions))])
      else encode_with (op_bind (Encoder_Char (of_nat (length transmissions)))
             (\<lambda>_. encode_txs 0 transmissions)))"

text \<open>\<open>fmt.Errorf("smp: tx %d ...: %w", i, err)\<close>.\<close>

definition op_wrapi :: "string \<Rightarrow> int \<Rightarrow> ('s, 'a) op \<Rightarrow> ('s, 'a) op" where
  "op_wrapi f i m s =
     (case m s of (Inl e, s') \<Rightarrow> (Inl (Errorf f [AInt i, AWrap e]), s') | (Inr x, s') \<Rightarrow> (Inr x, s'))"

definition op_lift :: "'a result \<Rightarrow> ('s, 'a) op" where
  "op_lift r s = (r, s)"

text \<open>The loop of \<open>DecodeBlock\<close>: index and transmissions still to read.\<close>

fun decode_txs :: "version \<Rightarrow> session_id \<Rightarrow> int \<Rightarrow> nat \<Rightarrow> (decoder, transmission list) op" where
  "decode_txs v sessID i 0 = op_return []"
| "decode_txs v sessID i (Suc n) =
     op_bind (op_wrapi ''smp: tx %d length: %w'' i Decoder_Word16) (\<lambda>tLen.
     op_bind (op_wrapi ''smp: tx %d body: %w'' i (Decoder_need (uint tLen))) (\<lambda>body.
     op_bind (op_wrapi ''smp: tx %d: %w'' i (op_lift (decodeTransmission v sessID body))) (\<lambda>tx.
     op_bind (decode_txs v sessID (i + 1) n) (\<lambda>out.
     op_return (tx # out)))))"

definition DecodeBlock :: "version \<Rightarrow> session_id \<Rightarrow> bytes \<Rightarrow> transmission list result" where
  "DecodeBlock v sessID block =
     decode_with (op_bind (op_wrap ''smp: block count: %w'' Decoder_Char)
       (\<lambda>cnt. decode_txs v sessID 0 (unat cnt))) block"

section \<open>Correlation ids\<close>

definition corr_wire :: "corr_id \<Rightarrow> bytes" where
  "corr_wire c = (if c = NoCorrID then [0x00] else 0x18 # c)"

lemma emits_CorrID [emits_rules]: "emits (encodeCorrID c) (corr_wire c)"
  using emits_bind [OF emits_Char [of "0x18"] emits_Raw [of c]]
  by (simp add: encodeCorrID_def corr_wire_def emits_Char)

lemma parses_CorrID_tagged:
  assumes "length c = 24"
  shows "parses decodeCorrID (0x18 # c) c"
proof -
  have "parses (op_bind (op_wrap f (Decoder_need 24)) (\<lambda>b. op_return b)) (c @ []) c" for f
    using assms by (intro parses_bind [OF parses_wrap [OF parses_need] parses_return]) simp
  then have "parses decodeCorrID ([0x18] @ c) c"
    unfolding decodeCorrID_def by (intro parses_bind [OF parses_wrap [OF parses_Char]]) simp
  then show ?thesis by simp
qed

lemma parses_CorrID [parses_rules]:
  assumes "wf_corr_id c"
  shows "parses decodeCorrID (corr_wire c) c"
proof (cases "c = NoCorrID")
  case True
  have "parses decodeCorrID ([0x00] @ []) NoCorrID"
    unfolding decodeCorrID_def
    by (rule parses_bind [OF parses_wrap [OF parses_Char]]) (simp add: parses_return)
  with True show ?thesis by (simp add: corr_wire_def)
next
  case False
  with assms show ?thesis by (simp add: corr_wire_def wf_corr_id_def parses_CorrID_tagged)
qed

text \<open>
  The reader is not canonical: the id of 24 zero bytes may also come in the long form.
  Both spellings give \<open>NoCorrID\<close>.
\<close>

definition corr_reads :: "bytes \<Rightarrow> corr_id \<Rightarrow> bool" where
  "corr_reads xs c \<longleftrightarrow> wf_corr_id c \<and> (xs = corr_wire c \<or> c = NoCorrID \<and> xs = 0x18 # NoCorrID)"

lemma reads_CorrID: "reads decodeCorrID corr_reads"
  unfolding decodeCorrID_def
  by (rule reads_mono [OF reads_bind [OF reads_wrap [OF reads_Char] reads_if [OF reads_return
        reads_if [OF reads_bind [OF reads_wrap [OF reads_need] reads_return]
          reads_fail [where R = "\<lambda>_ _. False"]]]]])
    (auto simp: corr_reads_def corr_wire_def wf_corr_id_def NoCorrID_def split: if_splits)

interpretation corr_codec: wire_codec encodeCorrID decodeCorrID corr_wire wf_corr_id
  by unfold_locales (simp_all add: emits_CorrID parses_CorrID)

lemma parses_CorrID_reads: "corr_reads xs c \<Longrightarrow> parses decodeCorrID xs c"
  by (auto simp: corr_reads_def intro: parses_CorrID parses_CorrID_tagged)
    (simp add: NoCorrID_def parses_CorrID_tagged)

section \<open>Transmissions\<close>

definition auth_wire :: "session_id \<Rightarrow> transmission \<Rightarrow> bytes" where
  "auth_wire sessID t =
     short_wire sessID @ corr_wire (tx_CorrID t) @ short_wire (tx_EntityID t) @ tx_Command t"

definition sess_wire :: "version \<Rightarrow> session_id \<Rightarrow> bytes" where
  "sess_wire v sessID = (if v < VersionV7 then short_wire sessID else [])"

definition tx_wire :: "version \<Rightarrow> session_id \<Rightarrow> transmission \<Rightarrow> bytes" where
  "tx_wire v sessID t =
     short_wire (tx_Authorization t) @ sess_wire v sessID @ corr_wire (tx_CorrID t)
       @ short_wire (tx_EntityID t) @ tx_Command t"

definition tx_fits :: "session_id \<Rightarrow> transmission \<Rightarrow> bool" where
  "tx_fits sessID t \<longleftrightarrow> length sessID \<le> 255 \<and> length (tx_EntityID t) \<le> 255
     \<and> length (tx_Authorization t) \<le> 255"

lemma emits_auth:
  "length sessID \<le> 255 \<Longrightarrow> length (tx_EntityID t) \<le> 255
    \<Longrightarrow> emits (encode_auth sessID t) (auth_wire sessID t)"
  unfolding encode_auth_def auth_wire_def by (intro emits_rules)

lemma emits_wire: "tx_fits sessID t \<Longrightarrow> emits (encode_wire v sessID t) (tx_wire v sessID t)"
proof -
  assume fits: "tx_fits sessID t"
  then have "emits (if v < VersionV7 then op_wrap f (Encoder_ShortString sessID) else op_return ())
      (sess_wire v sessID)" for f
    by (auto simp: sess_wire_def tx_fits_def intro: emits_rules)
  with fits show ?thesis
    unfolding encode_wire_def tx_wire_def by (intro emits_rules) (simp_all add: tx_fits_def)
qed

lemma rejects_auth:
  assumes "\<not> (length sessID \<le> 255 \<and> length (tx_EntityID t) \<le> 255)"
  shows "rejects (encode_auth sessID t) ErrShortStringTooLong"
proof (cases "length sessID \<le> 255")
  case True
  with assms show ?thesis unfolding encode_auth_def
    by (intro rejects_later [OF emits_wrap [OF emits_ShortString]] rejects_later [OF emits_CorrID]
        rejects_here rejects_wrap rejects_ShortString) simp_all
next
  case False
  then show ?thesis unfolding encode_auth_def
    by (intro rejects_here rejects_wrap rejects_ShortString) simp
qed

lemma EncodeTransmission_fits:
  "tx_fits sessID t \<Longrightarrow> EncodeTransmission v sessID t = Inr (tx_wire v sessID t, auth_wire sessID t)"
  using encode_with_emits [OF emits_auth] encode_with_emits [OF emits_wire]
  by (simp add: EncodeTransmission_def tx_fits_def)

lemma EncodeTransmission_too_long:
  assumes "\<not> tx_fits sessID t"
  shows "\<exists>e. EncodeTransmission v sessID t = Inl e \<and> errors_is e ErrShortStringTooLong"
proof (cases "length sessID \<le> 255 \<and> length (tx_EntityID t) \<le> 255")
  case True
  with assms have "rejects (encode_wire v sessID t) ErrShortStringTooLong"
    unfolding encode_wire_def tx_fits_def
    by (intro rejects_here rejects_wrap rejects_ShortString) simp
  with True show ?thesis
    using encode_with_rejects encode_with_emits [OF emits_auth]
    by (fastforce simp: EncodeTransmission_def)
next
  case False
  from encode_with_rejects [OF rejects_auth [OF this]] show ?thesis
    by (auto simp: EncodeTransmission_def)
qed

text \<open>EncodeTransmission returns exactly the two layouts of the specification (what goes on
  the wire, with the session id only below v7; what the authenticator covers, with the session
  id always) when session id, entity id and authorization fit their length byte, and fails with
  ErrShortStringTooLong otherwise.\<close>

theorem EncodeTransmission_exact:
  "case EncodeTransmission v sessID t of
     Inr (w, a) \<Rightarrow> tx_fits sessID t \<and> w = tx_wire v sessID t \<and> a = auth_wire sessID t
   | Inl e \<Rightarrow> \<not> tx_fits sessID t \<and> errors_is e ErrShortStringTooLong"
  using EncodeTransmission_fits [of sessID t v] EncodeTransmission_too_long [of sessID t v]
  by (cases "tx_fits sessID t") auto

lemma auth_wire_inject:
  assumes "auth_wire s t = auth_wire s' t'"
    and "length s \<le> 255" "length s' \<le> 255" "length (tx_EntityID t) \<le> 255" "length (tx_EntityID t') \<le> 255"
    and "wf_corr_id (tx_CorrID t)" "wf_corr_id (tx_CorrID t')"
  shows "s = s' \<and> tx_CorrID t = tx_CorrID t' \<and> tx_EntityID t = tx_EntityID t' \<and> tx_Command t = tx_Command t'"
proof -
  have 1: "s = s' \<and> corr_wire (tx_CorrID t) @ short_wire (tx_EntityID t) @ tx_Command t
      = corr_wire (tx_CorrID t') @ short_wire (tx_EntityID t') @ tx_Command t'"
    using assms by (intro short_codec.prefix_free) (simp_all add: auth_wire_def)
  then have 2: "tx_CorrID t = tx_CorrID t' \<and>
      short_wire (tx_EntityID t) @ tx_Command t = short_wire (tx_EntityID t') @ tx_Command t'"
    using assms by (intro corr_codec.prefix_free) simp_all
  then have "tx_EntityID t = tx_EntityID t' \<and> tx_Command t = tx_Command t'"
    using assms by (intro short_codec.prefix_free) simp_all
  with 1 2 show ?thesis by blast
qed

text \<open>C14: The bytes handed to the authenticator determine the session, the correlation id, the
  queue and the whole command: an authorization made for one transmission covers no other
  transmission and no other session, whatever the versions.\<close>

theorem authBytes_binding:
  assumes "EncodeTransmission v s t = Inr (w, a)" and "EncodeTransmission v' s' t' = Inr (w', a)"
    and "wf_corr_id (tx_CorrID t)" and "wf_corr_id (tx_CorrID t')"
  shows "s = s' \<and> tx_CorrID t = tx_CorrID t' \<and> tx_EntityID t = tx_EntityID t' \<and> tx_Command t = tx_Command t'"
  using EncodeTransmission_fits [of s t v] EncodeTransmission_too_long [of s t v]
    EncodeTransmission_fits [of s' t' v'] EncodeTransmission_too_long [of s' t' v'] assms
  by (intro auth_wire_inject) (auto simp: tx_fits_def)

section \<open>Reading a transmission back\<close>

lemma parses_sess:
  assumes "length sessID \<le> 255"
  shows "parses (if v < VersionV7
      then op_bind (op_wrap f Decoder_ShortString) (\<lambda>gotSess.
             if gotSess \<noteq> sessID then op_fail e else op_return ())
      else op_return ()) (sess_wire v sessID) ()"
proof -
  have "parses (op_bind (op_wrap f Decoder_ShortString) (\<lambda>gotSess.
      if gotSess \<noteq> sessID then op_fail e else op_return ())) (short_wire sessID @ []) ()"
    using assms by (intro parses_short_field) (simp_all add: parses_return)
  then show ?thesis by (simp add: sess_wire_def parses_return)
qed

lemma parses_decode_tx:
  assumes "length auth \<le> 255" "length sessID \<le> 255" "length ent \<le> 255" "corr_reads cw c"
  shows "parses_all (decode_tx v sessID)
     (short_wire auth @ sess_wire v sessID @ cw @ short_wire ent @ cmd)
     \<lparr>tx_CorrID = c, tx_EntityID = ent, tx_Command = cmd, tx_Authorization = auth\<rparr>"
  unfolding decode_tx_def using assms
  by (intro parses_all_short_field parses_all_bind [OF parses_sess]
      parses_all_bind [OF parses_CorrID_reads] parses_all_tail_bind) simp_all

lemma reads_sess:
  "reads (if v < VersionV7
      then op_bind (op_wrap f Decoder_ShortString) (\<lambda>gotSess.
             if gotSess \<noteq> sessID then op_fail e else op_return ())
      else op_return ())
    (\<lambda>xs _. xs = sess_wire v sessID \<and> (v < VersionV7 \<longrightarrow> length sessID \<le> 255))"
proof (cases "v < VersionV7")
  case True
  have "reads (op_bind (op_wrap f Decoder_ShortString) (\<lambda>gotSess.
      if gotSess \<noteq> sessID then op_fail e else op_return ()))
    (\<lambda>xs _. xs = sess_wire v sessID \<and> (v < VersionV7 \<longrightarrow> length sessID \<le> 255))"
    by (rule reads_mono [OF reads_bind [OF reads_wrap [OF reads_ShortString]
          reads_if [OF reads_fail [where R = "\<lambda>_ _. False"] reads_return]]])
      (use True in \<open>auto simp: sess_wire_def split: if_splits\<close>)
  with True show ?thesis by simp
next
  case False
  with reads_return [of "()"] show ?thesis by (simp add: sess_wire_def reads_def)
qed

lemma reads_decode_tx:
  "reads_all (decode_tx v sessID) (\<lambda>xs t. length (tx_Authorization t) \<le> 255
     \<and> length (tx_EntityID t) \<le> 255 \<and> (v < VersionV7 \<longrightarrow> length sessID \<le> 255)
     \<and> (\<exists>cw. corr_reads cw (tx_CorrID t)
        \<and> xs = short_wire (tx_Authorization t) @ sess_wire v sessID @ cw
                 @ short_wire (tx_EntityID t) @ tx_Command t))"
  unfolding decode_tx_def
  by (rule reads_all_mono [OF reads_all_bind [OF reads_wrap [OF reads_ShortString]
        reads_all_bind [OF reads_sess reads_all_bind [OF reads_CorrID
          reads_all_bind [OF reads_wrap [OF reads_ShortString] reads_all_tail]]]]]) auto

lemma fails_decode_tx: "fails_with (decode_tx v sessID) {ErrTruncated, ErrBadEncoding}"
  unfolding decode_tx_def decodeCorrID_def by (intro fails_rules) simp_all

theorem authBytes_binding_witness:
  "EncodeTransmission 6 [7] \<lparr>tx_CorrID = NoCorrID, tx_EntityID = [9], tx_Command = [1], tx_Authorization = [5]\<rparr>
     = Inr ([1, 5, 1, 7, 0, 1, 9, 1], [1, 7, 0, 1, 9, 1]) \<and> [7 :: byte] = [7]"
  using authBytes_binding [of 6 "[7]"
      "\<lparr>tx_CorrID = NoCorrID, tx_EntityID = [9], tx_Command = [1], tx_Authorization = [5]\<rparr>"
      "[1, 5, 1, 7, 0, 1, 9, 1]" "[1, 7, 0, 1, 9, 1]" 7 "[7]"
      "\<lparr>tx_CorrID = NoCorrID, tx_EntityID = [9], tx_Command = [1], tx_Authorization = []\<rparr>" "[0, 0, 1, 9, 1]"]
  by (simp add: EncodeTransmission_fits tx_fits_def tx_wire_def auth_wire_def sess_wire_def
      corr_wire_def short_wire_def VersionV7_def)

lemma decodeTransmission_wire:
  assumes "tx_fits sessID t" "wf_corr_id (tx_CorrID t)"
  shows "decodeTransmission v sessID (tx_wire v sessID t) = Inr t"
proof -
  have "parses_all (decode_tx v sessID) (tx_wire v sessID t)
      \<lparr>tx_CorrID = tx_CorrID t, tx_EntityID = tx_EntityID t, tx_Command = tx_Command t,
        tx_Authorization = tx_Authorization t\<rparr>"
    unfolding tx_wire_def
    using assms by (intro parses_decode_tx) (simp_all add: tx_fits_def corr_reads_def)
  from decode_with_all [OF this] show ?thesis by (simp add: decodeTransmission_def)
qed

text \<open>A transmission that EncodeTransmission put on the wire is read back by the peer's
  decodeTransmission with every field intact, in the v6 layout (with the session id) and in
  the v7 one (without).\<close>

theorem transmission_roundtrip:
  assumes "EncodeTransmission v sessID t = Inr (w, a)" and "wf_corr_id (tx_CorrID t)"
  shows "decodeTransmission v sessID w = Inr t"
proof -
  have "tx_fits sessID t" and "w = tx_wire v sessID t"
    using assms(1) EncodeTransmission_fits [of sessID t v] EncodeTransmission_too_long [of sessID t v]
    by auto
  with assms(2) show ?thesis by (simp add: decodeTransmission_wire)
qed

theorem transmission_roundtrip_witness:
  "decodeTransmission 7 [1, 2] [0, 0x18, 1,2,3,4,5,6,7,8,9,10,11,12,13,14,15,16,17,18,19,20,21,22,23,24, 1, 7, 80]
     = Inr \<lparr>tx_CorrID = [1,2,3,4,5,6,7,8,9,10,11,12,13,14,15,16,17,18,19,20,21,22,23,24],
           tx_EntityID = [7], tx_Command = [80], tx_Authorization = []\<rparr>"
  by (rule transmission_roundtrip [where
        a = "[2, 1, 2, 0x18, 1,2,3,4,5,6,7,8,9,10,11,12,13,14,15,16,17,18,19,20,21,22,23,24, 1, 7, 80]"])
    (simp_all add: EncodeTransmission_fits tx_fits_def tx_wire_def auth_wire_def sess_wire_def
      corr_wire_def short_wire_def VersionV7_def NoCorrID_Cons wf_corr_id_def)

text \<open>Below v7 a transmission is accepted only if it carries the session id of this
  connection: one that EncodeTransmission made for another session is rejected with
  ErrBadEncoding.\<close>

theorem foreign_session_rejected:
  assumes "EncodeTransmission v other t = Inr (w, a)" and "v < VersionV7" and "other \<noteq> sessID"
  shows "\<exists>e. decodeTransmission v sessID w = Inl e \<and> errors_is e ErrBadEncoding"
proof -
  have fits: "tx_fits other t" and w: "w = tx_wire v other t"
    using assms(1) EncodeTransmission_fits [of other t v] EncodeTransmission_too_long [of other t v]
    by auto
  let ?err = "wrapf ''%w: sessId mismatch'' (Sentinel ErrBadEncoding)"
  have auth: "length (tx_Authorization t) \<le> 255" and other: "length other \<le> 255"
    using fits by (simp_all add: tx_fits_def)
  have "unread (NewDecoder w) = short_wire (tx_Authorization t) @ (short_wire other
      @ corr_wire (tx_CorrID t) @ short_wire (tx_EntityID t) @ tx_Command t)"
    using assms(2) by (simp add: w tx_wire_def sess_wire_def)
  then obtain d1 where d1: "op_wrap ''authorization: %w'' Decoder_ShortString (NewDecoder w)
        = (Inr (tx_Authorization t), d1)" "dec_wf d1"
      "unread d1 = short_wire other @ corr_wire (tx_CorrID t) @ short_wire (tx_EntityID t) @ tx_Command t"
    by (rule parsesE [OF parses_wrap [OF parses_ShortString [OF auth]] dec_wf_NewDecoder])
  obtain d2 where d2: "op_wrap ''sessId: %w'' Decoder_ShortString d1 = (Inr other, d2)"
    by (rule parsesE [OF parses_wrap [OF parses_ShortString [OF other]] d1(2,3)])
  have "decode_tx v sessID (NewDecoder w) = (Inl ?err, d2)"
    using assms(2,3) by (simp add: decode_tx_def op_bind_def d1(1) d2)
  then show ?thesis by (simp add: decodeTransmission_def decode_with_def)
qed

theorem foreign_session_rejected_witness:
  "\<exists>e. decodeTransmission 6 [8] [0, 1, 7, 0, 0, 1] = Inl e \<and> errors_is e ErrBadEncoding"
  by (rule foreign_session_rejected [where other = "[7]" and a = "[1, 7, 0, 0, 1]"
        and t = "\<lparr>tx_CorrID = NoCorrID, tx_EntityID = [], tx_Command = [1], tx_Authorization = []\<rparr>"])
    (simp_all add: EncodeTransmission_fits tx_fits_def tx_wire_def auth_wire_def sess_wire_def
      corr_wire_def short_wire_def VersionV7_def)

section \<open>Blocks\<close>

definition block_wire :: "bytes list \<Rightarrow> bytes" where
  "block_wire ws = of_nat (length ws) # concat (map large_wire ws)"

definition block_fits :: "bytes list \<Rightarrow> bool" where
  "block_fits ws \<longleftrightarrow> length ws \<le> 255 \<and> (\<forall>w \<in> set ws. length w \<le> 65535)"

lemma emits_txs:
  "\<forall>w \<in> set ws. length w \<le> 65535 \<Longrightarrow> emits (encode_txs i ws) (concat (map large_wire ws))"
proof (induction ws arbitrary: i)
  case Nil
  show ?case using emits_return by (simp only: encode_txs.simps list.map concat.simps)
next
  case (Cons w ws)
  then have "emits (op_bind (Encoder_Word16 (of_nat (length w))) (\<lambda>_.
      op_bind (Encoder_Raw w) (\<lambda>_. encode_txs (i + 1) ws)))
      (be16 (of_nat (length w)) @ w @ concat (map large_wire ws))"
    by (intro emits_rules) simp
  with Cons.prems show ?case by (simp add: large_wire_def [of w])
qed

lemma encode_txs_too_large:
  assumes "\<exists>w \<in> set ws. 65535 < length w"
  shows "\<exists>err e'. encode_txs i ws e = (Inl err, e')"
  using assms
proof (induction ws arbitrary: i e)
  case (Cons w ws)
  show ?case
  proof (cases "65535 < length w")
    case False
    with Cons.prems have "\<exists>err e'. encode_txs (i + 1) ws (e\<lparr>ebuf := ebuf e @ be16 (of_nat (length w)) @ w\<rparr>) = (Inl err, e')"
      by (intro Cons.IH) auto
    with False show ?thesis by (simp add: op_bind_def Encoder_Word16_def Encoder_Raw_def)
  qed simp
qed simp

lemma EncodeBlock_fits: "block_fits ws \<Longrightarrow> EncodeBlock ws = Inr (block_wire ws)"
proof -
  assume fits: "block_fits ws"
  then have "emits (op_bind (Encoder_Char (of_nat (length ws))) (\<lambda>_. encode_txs 0 ws))
      ([of_nat (length ws)] @ concat (map large_wire ws))"
    by (intro emits_rules emits_txs) (simp add: block_fits_def)
  from encode_with_emits [OF this] fits show ?thesis
    by (simp add: EncodeBlock_def block_wire_def block_fits_def)
qed

lemma EncodeBlock_Inr: "EncodeBlock ws = Inr b \<Longrightarrow> block_fits ws \<and> b = block_wire ws"
proof -
  assume ok: "EncodeBlock ws = Inr b"
  have "block_fits ws"
  proof (rule ccontr)
    assume "\<not> block_fits ws"
    with ok have big: "\<exists>w \<in> set ws. 65535 < length w" and "length ws \<le> 255"
      by (auto simp: block_fits_def EncodeBlock_def not_le split: if_splits)
    from ok obtain e where "encode_txs 0 ws (snd (Encoder_Char (of_nat (length ws)) NewEncoder)) = (Inr (), e)"
      by (auto simp: EncodeBlock_def encode_with_def op_bind_def Encoder_Char_def
          split: if_splits prod.splits sum.splits)
    with encode_txs_too_large [OF big] show False by (metis prod.inject sum.distinct(1))
  qed
  with ok EncodeBlock_fits [OF this] show ?thesis by simp
qed

lemma parses_lift: "parses (op_lift (Inr x)) [] x"
  by (simp add: parses_def op_lift_def)

lemma op_wrapi_eq_Inr [simp]: "op_wrapi f i m s = (Inr y, s') \<longleftrightarrow> m s = (Inr y, s')"
  by (auto simp: op_wrapi_def split: prod.splits sum.splits)

lemma parses_wrapi: "parses p xs a \<Longrightarrow> parses (op_wrapi f i p) xs a"
  unfolding parses_def op_wrapi_eq_Inr .

lemma reads_wrapi: "reads p R \<Longrightarrow> reads (op_wrapi f i p) R"
  unfolding reads_def op_wrapi_eq_Inr .

lemma reads_lift: "reads (op_lift r) (\<lambda>xs x. xs = [] \<and> r = Inr x)"
  by (simp add: reads_def op_lift_def)

lemma fails_wrapi [fails_rules]: "fails_with p S \<Longrightarrow> fails_with (op_wrapi f i p) S"
  by (fastforce simp: fails_with_def op_wrapi_def split: prod.splits sum.splits)

lemma fails_lift_tx [fails_rules]:
  "ErrTruncated \<in> S \<Longrightarrow> ErrBadEncoding \<in> S \<Longrightarrow> fails_with (op_lift (decodeTransmission v sessID w)) S"
  using fails_withD [OF fails_decode_tx, of v sessID w]
  by (auto simp: fails_with_def op_lift_def decodeTransmission_def)

lemma parses_decode_txs:
  assumes "list_all2 (\<lambda>t w. decodeTransmission v sessID w = Inr t \<and> length w \<le> 65535) ts ws"
  shows "parses (decode_txs v sessID i (length ws)) (concat (map large_wire ws)) ts"
  using assms
proof (induction arbitrary: i rule: list_all2_induct)
  case Nil
  show ?case
    using parses_return by (simp only: decode_txs.simps list.size list.map concat.simps)
next
  case (Cons t ts w ws)
  then have len: "uint (of_nat (length w) :: 16 word) = int (length w)"
    by (simp add: uint_of_nat_16)
  have tx: "parses (op_wrapi f i (op_lift (decodeTransmission v sessID w))) [] t" for f i
    using Cons.hyps(1) by (auto intro: parses_wrapi parses_lift)
  have "parses (decode_txs v sessID i (Suc (length ws)))
      (be16 (of_nat (length w)) @ w @ [] @ concat (map large_wire ws) @ []) (t # ts)"
    unfolding decode_txs.simps
    by (rule parses_bind [OF parses_wrapi [OF parses_Word16]]
        parses_bind [OF parses_wrapi [OF parses_need [OF len]]] parses_bind [OF tx]
        parses_bind [OF Cons.IH] parses_return)+
  then show ?case by (simp add: large_wire_def [of w])
qed

lemma block_fits_count: "block_fits ws \<Longrightarrow> unat (of_nat (length ws) :: byte) = length ws"
  by (simp add: block_fits_def length_8_word)

lemma DecodeBlock_wire:
  assumes "block_fits ws" "list_all2 (\<lambda>t w. decodeTransmission v sessID w = Inr t) ts ws"
  shows "DecodeBlock v sessID (block_wire ws @ r) = Inr ts"
proof -
  have "list_all2 (\<lambda>t w. decodeTransmission v sessID w = Inr t \<and> length w \<le> 65535) ts ws"
    using assms by (auto simp: list_all2_conv_all_nth block_fits_def)
  from parses_decode_txs [OF this, of 0]
  have "parses (decode_txs v sessID 0 (unat (of_nat (length ws) :: byte))) (concat (map large_wire ws)) ts"
    by (simp add: block_fits_count [OF assms(1)])
  then have "parses (op_bind (op_wrap f Decoder_Char) (\<lambda>cnt. decode_txs v sessID 0 (unat cnt)))
      ([of_nat (length ws)] @ concat (map large_wire ws)) ts" for f
    by (rule parses_bind [OF parses_wrap [OF parses_Char]])
  from decode_with_parses [OF this] show ?thesis
    by (simp add: DecodeBlock_def block_wire_def)
qed

text \<open>C15: What one peer batches, the other reads back: a block built by EncodeBlock from
  transmissions that EncodeTransmission produced for this version and session is decoded by
  DecodeBlock to exactly these transmissions in their order, whatever padding follows it.\<close>

theorem block_roundtrip:
  assumes "list_all2 (\<lambda>t w. wf_corr_id (tx_CorrID t) \<and> (\<exists>a. EncodeTransmission v sessID t = Inr (w, a))) ts ws"
    and "EncodeBlock ws = Inr b"
  shows "DecodeBlock v sessID (b @ pad) = Inr ts"
proof -
  have "list_all2 (\<lambda>t w. decodeTransmission v sessID w = Inr t) ts ws"
    using assms(1) by (rule list_all2_mono)
      (metis EncodeTransmission_fits EncodeTransmission_too_long Inl_Inr_False decodeTransmission_wire
        prod.inject sum.inject(2))
  with EncodeBlock_Inr [OF assms(2)] show ?thesis by (simp add: DecodeBlock_wire)
qed

theorem block_roundtrip_witness:
  "DecodeBlock 7 [] ([2, 0, 4, 0, 0, 0, 65, 0, 5, 0, 0, 1, 9, 66] @ [35, 35])
     = Inr [\<lparr>tx_CorrID = NoCorrID, tx_EntityID = [], tx_Command = [65], tx_Authorization = []\<rparr>,
            \<lparr>tx_CorrID = NoCorrID, tx_EntityID = [9], tx_Command = [66], tx_Authorization = []\<rparr>]"
proof (rule block_roundtrip [where ws = "[[0, 0, 0, 65], [0, 0, 1, 9, 66]]"])
  show "EncodeBlock [[0, 0, 0, 65], [0, 0, 1, 9, 66]] = Inr [2, 0, 4, 0, 0, 0, 65, 0, 5, 0, 0, 1, 9, 66]"
    by (simp add: EncodeBlock_fits block_fits_def block_wire_def large_wire_def be16_def)
qed (simp add: EncodeTransmission_fits tx_fits_def tx_wire_def auth_wire_def sess_wire_def
    corr_wire_def short_wire_def VersionV7_def)

lemma reads_decode_txs:
  "reads (decode_txs v sessID i n) (\<lambda>xs ts. \<exists>ws. length ws = n \<and> xs = concat (map large_wire ws)
     \<and> list_all2 (\<lambda>t w. decodeTransmission v sessID w = Inr t \<and> length w \<le> 65535) ts ws)"
proof (induction n arbitrary: i)
  case 0
  show ?case
    unfolding decode_txs.simps by (rule reads_mono [OF reads_return]) simp
next
  case (Suc n)
  show ?case
    unfolding decode_txs.simps
  proof (rule reads_mono [OF reads_bind [OF reads_wrapi [OF reads_Word16]
          reads_bind [OF reads_wrapi [OF reads_need] reads_bind [OF reads_wrapi [OF reads_lift]
            reads_bind [OF Suc.IH reads_return]]]]], elim exE conjE, goal_cases)
    case (1 xs ts tLen ys zs body ys' zs' tx ys'' zs'' out ys''' zs''' ws)
    then have len: "tLen = of_nat (length body)" "length body \<le> 65535"
      using word16_of_length [of "length body" tLen] by simp_all
    with 1 have "length (body # ws) = Suc n \<and> xs = concat (map large_wire (body # ws))
      \<and> list_all2 (\<lambda>t w. decodeTransmission v sessID w = Inr t \<and> length w \<le> 65535) ts (body # ws)"
      by (simp add: large_wire_def [of body])
    then show ?case by blast
  qed
qed

lemma fails_decode_txs [fails_rules]: "fails_with (decode_txs v sessID i n) {ErrTruncated, ErrBadEncoding}"
proof (induction n arbitrary: i)
  case 0
  show ?case unfolding decode_txs.simps by (rule fails_return)
next
  case (Suc n)
  show ?case unfolding decode_txs.simps by (intro fails_rules Suc.IH) simp_all
qed

text \<open>C9: DecodeBlock accepts an input exactly when it starts with a count byte followed by that
  many length-prefixed transmissions that decode for this version and session, and returns
  these transmissions; every other input is rejected as a whole with ErrTruncated or
  ErrBadEncoding. It always returns, for any bytes a server sends.\<close>

theorem DecodeBlock_exact:
  "case DecodeBlock v sessID block of
     Inr ts \<Rightarrow> \<exists>ws r. block = block_wire ws @ r \<and> block_fits ws
       \<and> list_all2 (\<lambda>t w. decodeTransmission v sessID w = Inr t) ts ws
   | Inl e \<Rightarrow> (errors_is e ErrTruncated \<or> errors_is e ErrBadEncoding)
       \<and> (\<nexists>ts ws r. block = block_wire ws @ r \<and> block_fits ws
            \<and> list_all2 (\<lambda>t w. decodeTransmission v sessID w = Inr t) ts ws)"
proof (cases "DecodeBlock v sessID block")
  case (Inl e)
  have "fails_with (op_bind (op_wrap ''smp: block count: %w'' Decoder_Char)
      (\<lambda>cnt. decode_txs v sessID 0 (unat cnt))) {ErrTruncated, ErrBadEncoding}"
    by (intro fails_rules) simp
  from fails_withD [OF this] Inl have "errors_is e ErrTruncated \<or> errors_is e ErrBadEncoding"
    by (auto simp: DecodeBlock_def)
  with Inl show ?thesis using DecodeBlock_wire by fastforce
next
  case (Inr ts)
  then obtain xs r where "block = xs @ r" and
    "\<exists>cnt ws. xs = cnt # concat (map large_wire ws) \<and> length ws = unat cnt
      \<and> list_all2 (\<lambda>t w. decodeTransmission v sessID w = Inr t \<and> length w \<le> 65535) ts ws"
    unfolding DecodeBlock_def
    by (rule reads_decode_with [OF reads_bind [OF reads_wrap [OF reads_Char] reads_decode_txs]]) auto
  then obtain cnt ws where b: "block = cnt # concat (map large_wire ws) @ r" "length ws = unat cnt"
    and tw: "list_all2 (\<lambda>t w. decodeTransmission v sessID w = Inr t \<and> length w \<le> 65535) ts ws"
    by auto
  have "unat cnt \<le> 255" using unsigned_less [of cnt, where ?'a = nat] by simp
  with b tw have "block_fits ws" by (auto simp: block_fits_def list_all2_conv_all_nth in_set_conv_nth)
  moreover have "block = block_wire ws @ r" using b by (simp add: block_wire_def)
  moreover have "list_all2 (\<lambda>t w. decodeTransmission v sessID w = Inr t) ts ws"
    using tw by (rule list_all2_mono) simp
  ultimately show ?thesis using Inr by auto
qed

end
