(* ===== verification/Auth.thy ===== *)
theory Auth
  imports Transmission
begin

text \<open>
  Command authentication: \<open>smp/dh.go\<close>, \<open>smp/auth.go\<close> and \<open>smp/auth_cb.go\<close>. The primitives
  these files call (\<open>crypto/ecdh\<close>, \<open>crypto/sha512\<close>, \<open>crypto/ed25519\<close> and
  \<open>nacl/secretbox\<close>) are the fields of a record that every definition takes; what the theorems
  need of them is the predicate \<open>crypto_laws\<close>, with a concrete instance at the end.
\<close>

section \<open>Primitives\<close>

record crypto =
  ecdh_NewPrivateKey :: "bytes \<Rightarrow> bytes result"
  ecdh_NewPublicKey :: "bytes \<Rightarrow> bytes result"
  ecdh_PublicKey :: "bytes \<Rightarrow> bytes"
  ecdh_ECDH :: "bytes \<Rightarrow> bytes \<Rightarrow> bytes result"
  sha512_Sum512 :: "bytes \<Rightarrow> bytes"
  secretbox_Seal :: "bytes \<Rightarrow> bytes \<Rightarrow> bytes \<Rightarrow> bytes"
  secretbox_Open :: "bytes \<Rightarrow> bytes \<Rightarrow> bytes \<Rightarrow> bytes option"
  ed25519_Sign :: "bytes \<Rightarrow> bytes \<Rightarrow> bytes"

text \<open>\<open>secretbox_Seal cr msg nonce key\<close> and \<open>secretbox_Open cr box nonce key\<close>.
  \<open>var a [n]byte; copy(a[:], b)\<close> is \<open>copy_array n b\<close>.\<close>

definition copy_array :: "nat \<Rightarrow> bytes \<Rightarrow> bytes" where
  "copy_array n b = take n b @ replicate (n - length b) 0"

lemma length_copy_array [simp]: "length (copy_array n b) = n"
  by (simp add: copy_array_def min_def)

lemma copy_array_id [simp]: "length b = n \<Longrightarrow> copy_array n b = b"
  by (simp add: copy_array_def)

section \<open>Diffie-Hellman\<close>

definition X25519KeySize :: nat where "X25519KeySize = 32"
definition CbAuthenticatorSize :: nat where "CbAuthenticatorSize = 16 + 64"
definition ed25519_PrivateKeySize :: nat where "ed25519_PrivateKeySize = 64"

lemmas key_sizes = X25519KeySize_def CbAuthenticatorSize_def ed25519_PrivateKeySize_def

definition X25519DeriveShared :: "crypto \<Rightarrow> bytes \<Rightarrow> bytes \<Rightarrow> bytes result" where
  "X25519DeriveShared cr priv peerPub =
     (if length priv \<noteq> X25519KeySize
      then Inl (Errorf ''smp: X25519 private key must be %d bytes, got %d''
                  [AInt (int X25519KeySize), AInt (int (length priv))])
      else if length peerPub \<noteq> X25519KeySize
      then Inl (Errorf ''smp: X25519 peer public key must be %d bytes, got %d''
                  [AInt (int X25519KeySize), AInt (int (length peerPub))])
      else
        rbind (rwrap ''smp: parse X25519 private: %w'' (ecdh_NewPrivateKey cr priv)) (\<lambda>privKey.
        rbind (rwrap ''smp: parse X25519 peer pub: %w'' (ecdh_NewPublicKey cr peerPub)) (\<lambda>pubKey.
        rwrap ''smp: X25519 ECDH: %w'' (ecdh_ECDH cr privKey pubKey))))"

definition DeriveSessSecret :: "crypto \<Rightarrow> bytes \<Rightarrow> bytes \<Rightarrow> bytes result" where
  "DeriveSessSecret cr ownPriv peerPub =
     (case X25519DeriveShared cr ownPriv peerPub of Inl err \<Rightarrow> Inl err | Inr s \<Rightarrow> Inr s)"

section \<open>Authenticators\<close>

text \<open>The interface \<open>RcvAuthKey\<close> of \<open>smp/client.go\<close>: its one method \<open>Authorize\<close>.\<close>

type_synonym rcv_auth_key = "bytes \<Rightarrow> corr_id \<Rightarrow> bytes result"

record ed25519_signer =
  ed_Key :: bytes

definition Ed25519Signer_Authorize :: "crypto \<Rightarrow> ed25519_signer \<Rightarrow> rcv_auth_key" where
  "Ed25519Signer_Authorize cr s authorized _ =
     (if length (ed_Key s) \<noteq> ed25519_PrivateKeySize
      then Inl (ErrNew ''smp: invalid Ed25519 private key length'')
      else Inr (ed25519_Sign cr (ed_Key s) authorized))"

record x25519_auth_signer =
  xs_Priv :: bytes
  xs_PeerPub :: bytes

definition X25519AuthSigner_Authorize :: "crypto \<Rightarrow> x25519_auth_signer \<Rightarrow> rcv_auth_key" where
  "X25519AuthSigner_Authorize cr s authorized nonce =
     (if length (xs_Priv s) \<noteq> X25519KeySize
      then Inl (Errorf ''smp: X25519 priv must be %d bytes, got %d''
                  [AInt (int X25519KeySize), AInt (int (length (xs_Priv s)))])
      else if length (xs_PeerPub s) \<noteq> X25519KeySize
      then Inl (Errorf ''smp: X25519 peer pub must be %d bytes, got %d''
                  [AInt (int X25519KeySize), AInt (int (length (xs_PeerPub s)))])
      else
        rbind (rwrap ''smp: derive sessSecret: %w''
                 (X25519DeriveShared cr (xs_Priv s) (xs_PeerPub s))) (\<lambda>shared.
          let digest = sha512_Sum512 cr authorized;
              key = copy_array 32 shared;
              n = copy_array 24 nonce;
              tag = secretbox_Seal cr digest n key
          in if length tag \<noteq> CbAuthenticatorSize
             then Inl (Errorf ''smp: unexpected tag size %d (want %d)''
                         [AInt (int (length tag)), AInt (int CbAuthenticatorSize)])
             else Inr tag))"

definition VerifyCbAuth ::
  "crypto \<Rightarrow> bytes \<Rightarrow> bytes \<Rightarrow> corr_id \<Rightarrow> bytes \<Rightarrow> bytes \<Rightarrow> bool result" where
  "VerifyCbAuth cr peerPub ownPriv nonce tag authorized =
     (if length tag \<noteq> CbAuthenticatorSize
      then Inl (Errorf ''smp: tag must be %d bytes, got %d''
                  [AInt (int CbAuthenticatorSize), AInt (int (length tag))])
      else
        rbind (rwrap ''smp: derive sessSecret: %w'' (X25519DeriveShared cr ownPriv peerPub)) (\<lambda>shared.
          let digest = sha512_Sum512 cr authorized;
              key = copy_array 32 shared;
              n = copy_array 24 nonce
          in case secretbox_Open cr tag n key of
               None \<Rightarrow> Inr False
             | Some plain \<Rightarrow>
                 if length plain \<noteq> length digest then Inr False
                 else if \<exists>i<length plain. plain ! i \<noteq> digest ! i then Inr False
                 else Inr True))"

section \<open>What the primitives promise\<close>

text \<open>
  Documented behaviour of the libraries: SHA-512 has 64 bytes; a box is 16 bytes longer than its
  message, opens to it under the same key and nonce, and nothing but the box of a message opens
  to that message (XSalsa20-Poly1305 is deterministic); X25519 accepts every 32-byte string as a
  key, public keys have 32 bytes, shared secrets 32, and both sides of an exchange compute the
  same one.
\<close>

definition secretbox_laws :: "crypto \<Rightarrow> bool" where
  "secretbox_laws cr \<longleftrightarrow>
     (\<forall>m. length (sha512_Sum512 cr m) = 64)
   \<and> (\<forall>m n k. length (secretbox_Seal cr m n k) = length m + 16)
   \<and> (\<forall>m n k. secretbox_Open cr (secretbox_Seal cr m n k) n k = Some m)
   \<and> (\<forall>b m n k. secretbox_Open cr b n k = Some m \<longrightarrow> b = secretbox_Seal cr m n k)"

definition x25519_laws :: "crypto \<Rightarrow> bool" where
  "x25519_laws cr \<longleftrightarrow>
     (\<forall>k. length k = 32 \<longrightarrow> ecdh_NewPrivateKey cr k = Inr k \<and> ecdh_NewPublicKey cr k = Inr k
        \<and> length (ecdh_PublicKey cr k) = 32)
   \<and> (\<forall>a b. length a = 32 \<longrightarrow> length b = 32 \<longrightarrow>
        ecdh_ECDH cr a (ecdh_PublicKey cr b) = ecdh_ECDH cr b (ecdh_PublicKey cr a))"

definition crypto_laws :: "crypto \<Rightarrow> bool" where
  "crypto_laws cr \<longleftrightarrow> secretbox_laws cr \<and> x25519_laws cr"

lemma secretbox_lawsD:
  assumes "secretbox_laws cr"
  shows "length (sha512_Sum512 cr m) = 64"
    "length (secretbox_Seal cr m n k) = length m + 16"
    "secretbox_Open cr b n k = Some m \<longleftrightarrow> b = secretbox_Seal cr m n k"
    "secretbox_Seal cr m n k = secretbox_Seal cr m' n k \<longleftrightarrow> m = m'"
  using assms unfolding secretbox_laws_def by (blast, blast, blast, metis option.inject)

lemma DeriveShared_ok_iff:
  "X25519DeriveShared cr priv pub = Inr shared \<longleftrightarrow> length priv = 32 \<and> length pub = 32
     \<and> (\<exists>a b. ecdh_NewPrivateKey cr priv = Inr a \<and> ecdh_NewPublicKey cr pub = Inr b \<and> ecdh_ECDH cr a b = Inr shared)"
  by (auto simp: X25519DeriveShared_def key_sizes)

lemma DeriveShared_symmetric:
  assumes "x25519_laws cr" "length a = 32" "length b = 32"
  shows "X25519DeriveShared cr a (ecdh_PublicKey cr b) = X25519DeriveShared cr b (ecdh_PublicKey cr a)"
  using assms by (simp add: X25519DeriveShared_def key_sizes x25519_laws_def)

text \<open>The tag both sides compute, given the shared secret.\<close>

definition cb_tag :: "crypto \<Rightarrow> bytes \<Rightarrow> corr_id \<Rightarrow> bytes \<Rightarrow> bytes" where
  "cb_tag cr shared nonce authorized =
     secretbox_Seal cr (sha512_Sum512 cr authorized) (copy_array 24 nonce) (copy_array 32 shared)"

lemma Authorize_ok_iff:
  assumes "secretbox_laws cr"
  shows "X25519AuthSigner_Authorize cr s authorized nonce = Inr tag \<longleftrightarrow>
    (\<exists>shared. X25519DeriveShared cr (xs_Priv s) (xs_PeerPub s) = Inr shared
      \<and> tag = cb_tag cr shared nonce authorized)"
proof -
  have "length (cb_tag cr shared nonce authorized) = 80" for shared
    using secretbox_lawsD [OF assms] by (simp add: cb_tag_def)
  then show ?thesis
    by (auto simp: X25519AuthSigner_Authorize_def DeriveShared_ok_iff key_sizes Let_def cb_tag_def[symmetric])
qed

lemma Verify_iff:
  assumes "secretbox_laws cr"
  shows "VerifyCbAuth cr peerPub ownPriv nonce tag authorized = Inr ok \<longleftrightarrow>
    length tag = 80 \<and> (\<exists>shared. X25519DeriveShared cr ownPriv peerPub = Inr shared
      \<and> (ok \<longleftrightarrow> tag = cb_tag cr shared nonce authorized))"
proof (cases "X25519DeriveShared cr ownPriv peerPub")
  case (Inr shared)
  let ?open = "secretbox_Open cr tag (copy_array 24 nonce) (copy_array 32 shared)"
  let ?digest = "sha512_Sum512 cr authorized"
  have eq: "(length plain \<noteq> length ?digest \<or> (\<exists>i<length plain. plain ! i \<noteq> ?digest ! i)) \<longleftrightarrow> plain \<noteq> ?digest" for plain
    by (auto simp: list_eq_iff_nth_eq)
  have "VerifyCbAuth cr peerPub ownPriv nonce tag authorized = Inr ok \<longleftrightarrow>
      length tag = 80 \<and> (ok \<longleftrightarrow> ?open = Some ?digest)"
    using Inr eq by (cases ?open) (auto simp: VerifyCbAuth_def key_sizes Let_def)
  then show ?thesis
    using Inr secretbox_lawsD(3) [OF assms] by (simp add: cb_tag_def)
qed (simp add: VerifyCbAuth_def)

lemma length_cb_tag:
  "secretbox_laws cr \<Longrightarrow> length (cb_tag cr shared nonce authorized) = 80"
  using secretbox_lawsD [of cr] by (simp add: cb_tag_def)

text \<open>A model of the laws, for the witnesses.\<close>

definition example_crypto :: crypto where
  "example_crypto =
     \<lparr>ecdh_NewPrivateKey = Inr, ecdh_NewPublicKey = Inr, ecdh_PublicKey = copy_array 32,
      ecdh_ECDH = (\<lambda>a b. Inr (map2 (+) a b)), sha512_Sum512 = copy_array 64,
      secretbox_Seal = (\<lambda>m n k. replicate 16 0 @ m),
      secretbox_Open = (\<lambda>b n k. if HasPrefix b (replicate 16 0) then Some (drop 16 b) else None),
      ed25519_Sign = (\<lambda>k m. copy_array 64 m)\<rparr>"

lemma example_crypto_laws: "crypto_laws example_crypto"
proof -
  have "map2 (+) a b = map2 (+) b a" for a b :: bytes
    by (induction a b rule: list_induct2') (auto simp: add.commute)
  then show ?thesis
    by (auto simp: crypto_laws_def secretbox_laws_def x25519_laws_def example_crypto_def
        HasPrefix_iff split: if_splits)
qed

section \<open>Correctness of the authenticator\<close>

text \<open>\<open>VerifyCbAuth\<close> answers true exactly for the tag its comment names, false for every
  other tag of 80 bytes, and returns an error when the tag has another size or the key
  agreement fails.\<close>

theorem VerifyCbAuth_exact:
  assumes "secretbox_laws cr"
  shows "VerifyCbAuth cr peerPub ownPriv nonce tag authorized =
    (if length tag \<noteq> 80 then Inl (Errorf ''smp: tag must be %d bytes, got %d'' [AInt 80, AInt (int (length tag))])
     else case X25519DeriveShared cr ownPriv peerPub of
       Inl e \<Rightarrow> Inl (wrapf ''smp: derive sessSecret: %w'' e)
     | Inr shared \<Rightarrow> Inr (tag = cb_tag cr shared nonce authorized))"
proof (cases "length tag = 80")
  case True
  then show ?thesis
    using Verify_iff [OF assms, of peerPub ownPriv nonce tag authorized]
    by (cases "X25519DeriveShared cr ownPriv peerPub") (simp_all add: VerifyCbAuth_def key_sizes)
qed (simp add: VerifyCbAuth_def key_sizes)

theorem VerifyCbAuth_exact_witness:
  "VerifyCbAuth example_crypto (replicate 32 1) (replicate 32 2) NoCorrID [1, 2] [7]
    = Inl (Errorf ''smp: tag must be %d bytes, got %d'' [AInt 80, AInt 2])"
  using VerifyCbAuth_exact [of example_crypto "replicate 32 1" "replicate 32 2" NoCorrID "[1, 2]" "[7]"]
    example_crypto_laws by (simp add: crypto_laws_def)

text \<open>C9: A tag the client's signer makes is accepted by the server that holds the matching
  private key, whatever is authorised; and it is deniable, because the server's own key makes
  the very same tag.\<close>

theorem authenticator_accepted_and_deniable:
  assumes "crypto_laws cr" and "length a = 32" and "length b = 32"
    and "X25519AuthSigner_Authorize cr \<lparr>xs_Priv = a, xs_PeerPub = ecdh_PublicKey cr b\<rparr> authorized nonce = Inr tag"
  shows "VerifyCbAuth cr (ecdh_PublicKey cr a) b nonce tag authorized = Inr True
    \<and> X25519AuthSigner_Authorize cr \<lparr>xs_Priv = b, xs_PeerPub = ecdh_PublicKey cr a\<rparr> authorized nonce = Inr tag"
  using assms DeriveShared_symmetric [of cr a b]
  by (auto simp: crypto_laws_def Authorize_ok_iff Verify_iff length_cb_tag)

theorem authenticator_accepted_and_deniable_witness:
  "\<exists>tag. VerifyCbAuth example_crypto (replicate 32 1) (replicate 32 2) NoCorrID tag [7] = Inr True"
proof -
  let ?a = "replicate 32 1 :: bytes" and ?b = "replicate 32 2 :: bytes"
  have "\<exists>tag. X25519AuthSigner_Authorize example_crypto
      \<lparr>xs_Priv = ?a, xs_PeerPub = ecdh_PublicKey example_crypto ?b\<rparr> [7] NoCorrID = Inr tag"
    using example_crypto_laws
    by (simp add: crypto_laws_def Authorize_ok_iff DeriveShared_ok_iff) (simp add: example_crypto_def)
  then obtain tag where "X25519AuthSigner_Authorize example_crypto
      \<lparr>xs_Priv = ?a, xs_PeerPub = ecdh_PublicKey example_crypto ?b\<rparr> [7] NoCorrID = Inr tag" ..
  then have "VerifyCbAuth example_crypto (ecdh_PublicKey example_crypto ?a) ?b NoCorrID tag [7] = Inr True"
    using authenticator_accepted_and_deniable [OF example_crypto_laws, of ?a ?b "[7]" NoCorrID tag] by simp
  moreover have "ecdh_PublicKey example_crypto ?a = ?a" by (simp add: example_crypto_def)
  ultimately show ?thesis by auto
qed

text \<open>C10: The authenticator of a transmission covers it whole: if one tag verifies for the
  authorised bytes of two transmissions - under whatever keys, each with its own correlation id as
  the nonce -, they name the same session, correlation id, queue and command, or their authorised
  bytes are a SHA-512 collision, or the tag is a secretbox that opens to two different digests under
  two different pairs of key and nonce. So replaying a tag under another correlation id, or moving it
  to another queue or command, breaks one of the two primitives.\<close>

theorem authenticator_covers_transmission:
  assumes "secretbox_laws cr"
    and "EncodeTransmission v s t = Inr (w, a)" and "EncodeTransmission v' s' t' = Inr (w', a')"
    and "wf_corr_id (tx_CorrID t)" and "wf_corr_id (tx_CorrID t')"
    and "VerifyCbAuth cr pub priv (tx_CorrID t) tag a = Inr True"
    and "VerifyCbAuth cr pub' priv' (tx_CorrID t') tag a' = Inr True"
  shows "s = s' \<and> tx_CorrID t = tx_CorrID t' \<and> tx_EntityID t = tx_EntityID t' \<and> tx_Command t = tx_Command t'
    \<or> a \<noteq> a' \<and> sha512_Sum512 cr a = sha512_Sum512 cr a'
    \<or> (\<exists>k k'. (k, tx_CorrID t) \<noteq> (k', tx_CorrID t') \<and> sha512_Sum512 cr a \<noteq> sha512_Sum512 cr a'
        \<and> secretbox_Open cr tag (tx_CorrID t) k = Some (sha512_Sum512 cr a)
        \<and> secretbox_Open cr tag (tx_CorrID t') k' = Some (sha512_Sum512 cr a'))"
proof (cases "a = a'")
  case True
  have "a = auth_wire s t" "tx_fits s t" "a' = auth_wire s' t'" "tx_fits s' t'"
    using EncodeTransmission_fits [of s t v] EncodeTransmission_too_long [of s t v]
      EncodeTransmission_fits [of s' t' v'] EncodeTransmission_too_long [of s' t' v'] assms(2,3)
    by auto
  then show ?thesis
    using auth_wire_inject [of s t s' t'] assms(4,5) True by (simp add: tx_fits_def)
next
  case False
  obtain sh sh' where tag: "tag = cb_tag cr sh (tx_CorrID t) a" "tag = cb_tag cr sh' (tx_CorrID t') a'"
    using assms(6,7) by (auto simp: Verify_iff [OF assms(1)])
  let ?k = "copy_array 32 sh" and ?k' = "copy_array 32 sh'"
  have opens: "secretbox_Open cr tag (tx_CorrID t) ?k = Some (sha512_Sum512 cr a)"
    "secretbox_Open cr tag (tx_CorrID t') ?k' = Some (sha512_Sum512 cr a')"
    using tag assms(4,5) by (simp_all add: secretbox_lawsD(3) [OF assms(1)] cb_tag_def wf_corr_id_def)
  show ?thesis
  proof (cases "sha512_Sum512 cr a = sha512_Sum512 cr a'")
    case True
    with False show ?thesis by blast
  next
    case differ: False
    with opens have "(?k, tx_CorrID t) \<noteq> (?k', tx_CorrID t')" by auto
    with opens differ show ?thesis by blast
  qed
qed

theorem authenticator_covers_transmission_witness:
  "\<exists>tag. VerifyCbAuth example_crypto (replicate 32 1) (replicate 32 2) NoCorrID tag [1, 7, 0, 1, 9, 1] = Inr True
    \<and> ([7 :: byte] = [7] \<and> [9 :: byte] = [9] \<and> [1 :: byte] = [1]
       \<or> [1, 7, 0, 1, 9, 1 :: byte] \<noteq> [1, 7, 0, 1, 9, 1])"
proof -
  let ?t = "\<lparr>tx_CorrID = NoCorrID, tx_EntityID = [9], tx_Command = [1], tx_Authorization = [5]\<rparr>"
  let ?u = "?t\<lparr>tx_Authorization := []\<rparr>"
  let ?sh = "map2 (+) (replicate 32 2) (replicate 32 1) :: bytes"
  let ?tag = "cb_tag example_crypto ?sh NoCorrID [1, 7, 0, 1, 9, 1]"
  have laws: "secretbox_laws example_crypto" using example_crypto_laws by (simp add: crypto_laws_def)
  have enc: "EncodeTransmission 6 [7] ?t = Inr ([1, 5, 1, 7, 0, 1, 9, 1], [1, 7, 0, 1, 9, 1])"
    "EncodeTransmission 7 [7] ?u = Inr ([0, 0, 1, 9, 1], [1, 7, 0, 1, 9, 1])"
    by (simp_all add: EncodeTransmission_fits tx_fits_def tx_wire_def auth_wire_def sess_wire_def
      corr_wire_def short_wire_def VersionV7_def)
  have "X25519DeriveShared example_crypto (replicate 32 2) (replicate 32 1) = Inr ?sh"
    by (simp add: X25519DeriveShared_def key_sizes example_crypto_def)
  then have ok: "VerifyCbAuth example_crypto (replicate 32 1) (replicate 32 2) NoCorrID ?tag [1, 7, 0, 1, 9, 1] = Inr True"
    using length_cb_tag [OF laws] by (simp add: Verify_iff [OF laws])
  show ?thesis
    using authenticator_covers_transmission [OF laws enc, of "replicate 32 1" "replicate 32 2" ?tag
      "replicate 32 1" "replicate 32 2"] ok by auto
qed

end
