(* ===== verification/Handshake.thy ===== *)
theory Handshake
  imports Protocol Transport Auth
begin

text \<open>
  The SMP handshake: the hello messages and version negotiation of \<open>smp/handshake.go\<close> and the
  client's side of the exchange, \<open>runSMPClientHandshake\<close> of \<open>smp/dial.go\<close>, over the block
  transport of \<open>Transport\<close>.
\<close>

section \<open>Hello messages\<close>

record smp_server_handshake =
  sh_VersionRange :: version_range
  sh_SessionID :: session_id
  sh_AuthPubKeyRaw :: bytes

text \<open>\<open>None\<close> is the nil slice: no key offered.\<close>

record smp_client_handshake =
  ch_Version :: version
  ch_KeyHash :: key_hash
  ch_AuthPubKeyRaw :: "bytes option"

definition encode_client_hello :: "smp_client_handshake \<Rightarrow> (encoder, unit) op" where
  "encode_client_hello hs =
     op_bind (Encoder_Word16 (ch_Version hs)) (\<lambda>_.
     op_bind (op_wrap ''smp: clientHello keyHash: %w'' (Encoder_ShortString (ch_KeyHash hs))) (\<lambda>_.
     if ch_Version hs \<ge> VersionV7 \<and> ch_AuthPubKeyRaw hs \<noteq> None
     then op_wrap ''smp: clientHello authPubKey: %w'' (Encoder_ShortString (the (ch_AuthPubKeyRaw hs)))
     else op_return ()))"

definition EncodeSMPClientHandshake :: "smp_client_handshake \<Rightarrow> bytes result" where
  "EncodeSMPClientHandshake hs =
     (if ch_Version hs < MinClientVersion
      then Inl (Errorf ''smp: clientHello version %d below minimum %d''
                  [AInt (uint (ch_Version hs)), AInt (uint MinClientVersion)])
      else encode_with (encode_client_hello hs))"

definition hello_key :: "version \<Rightarrow> smp_server_handshake \<Rightarrow> (decoder, smp_server_handshake) op" where
  "hello_key maxV hs d =
     (if maxV \<ge> VersionV7 \<and> Decoder_Remaining d > 0
      then (case Decoder_Tail d of (tail, d') \<Rightarrow> (Inr (hs\<lparr>sh_AuthPubKeyRaw := tail\<rparr>), d'))
      else (Inr hs, d))"

definition decode_server_hello :: "(decoder, smp_server_handshake) op" where
  "decode_server_hello =
     op_bind (op_wrap ''smp: serverHello minVer: %w'' Decoder_Word16) (\<lambda>minV.
     op_bind (op_wrap ''smp: serverHello maxVer: %w'' Decoder_Word16) (\<lambda>maxV.
     op_bind (op_wrap ''smp: serverHello sessId: %w'' Decoder_ShortString) (\<lambda>sessID.
     hello_key maxV \<lparr>sh_VersionRange = \<lparr>vr_Min = minV, vr_Max = maxV\<rparr>, sh_SessionID = sessID,
       sh_AuthPubKeyRaw = []\<rparr>)))"

definition DecodeSMPServerHandshake :: "bytes \<Rightarrow> smp_server_handshake result" where
  "DecodeSMPServerHandshake raw = decode_with decode_server_hello raw"

definition NegotiateVersion :: "version_range \<Rightarrow> version result" where
  "NegotiateVersion serverRange =
     (let lo = (if vr_Min serverRange > MinClientVersion then vr_Min serverRange else MinClientVersion);
          hi = (if vr_Max serverRange < MaxClientVersion then vr_Max serverRange else MaxClientVersion)
      in if lo > hi
         then Inl (Errorf ''%w: client=[%d..%d], server=[%d..%d]''
                     [AWrap (Sentinel ErrIncompatibleVersion), AInt (uint MinClientVersion),
                      AInt (uint MaxClientVersion), AInt (uint (vr_Min serverRange)),
                      AInt (uint (vr_Max serverRange))])
         else Inr hi)"

section \<open>The client's side\<close>

record handshake_params =
  hp_Version :: version
  hp_SessID :: session_id
  hp_PeerAuthPubKey :: "bytes option"
  hp_BlockSize :: int

text \<open>
  The key pair of step 4: \<open>genkey\<close> is what \<open>GenerateKey(rand.Reader)\<close> returns, \<open>None\<close> the nil
  slice. The value is \<open>ownPub\<close>.
\<close>

definition handshake_pub :: "crypto \<Rightarrow> bytes result \<Rightarrow> version \<Rightarrow> bytes option \<Rightarrow> bytes option result" where
  "handshake_pub cr genkey v ownAuthPriv =
     (if v \<ge> VersionV7 then
        (case ownAuthPriv of
           None \<Rightarrow>
             rbind (rwrap ''smp: generate ephemeral X25519: %w'' genkey)
               (\<lambda>k. Inr (Some (ecdh_PublicKey cr k)))
         | Some priv \<Rightarrow>
             if length priv \<noteq> X25519KeySize
             then Inl (Errorf ''smp: ownAuthPriv must be %d bytes, got %d''
                         [AInt (int X25519KeySize), AInt (int (length priv))])
             else rbind (rwrap ''smp: parse ownAuthPriv: %w'' (ecdh_NewPrivateKey cr priv))
                    (\<lambda>k. Inr (Some (ecdh_PublicKey cr k))))
      else Inr None)"

definition runSMPClientHandshake ::
  "crypto \<Rightarrow> bytes result \<Rightarrow> int \<Rightarrow> int option \<Rightarrow> key_hash \<Rightarrow> session_id \<Rightarrow> bytes option
   \<Rightarrow> (conn, handshake_params) op" where
  "runSMPClientHandshake cr genkey now ctx expected sessionID ownAuthPriv =
     op_bind (op_wrap ''smp: read serverHello: %w'' (ReadBlock now ctx)) (\<lambda>helloBytes.
     op_bind (op_lift (rwrap ''smp: decode serverHello: %w'' (DecodeSMPServerHandshake helloBytes))) (\<lambda>srv.
     if sh_SessionID srv \<noteq> sessionID
     then op_fail (Errorf ''%w: server=%x ours=%x''
                     [AWrap (Sentinel ErrBadSession), ABytes (sh_SessionID srv), ABytes sessionID])
     else
       op_bind (op_lift (NegotiateVersion (sh_VersionRange srv))) (\<lambda>v.
       op_bind (op_lift (handshake_pub cr genkey v ownAuthPriv)) (\<lambda>ownPub.
       op_bind (op_lift (rwrap ''smp: encode clientHello: %w''
                  (EncodeSMPClientHandshake \<lparr>ch_Version = v, ch_KeyHash = expected,
                     ch_AuthPubKeyRaw = ownPub\<rparr>))) (\<lambda>cliBytes.
       op_bind (op_wrap ''smp: write clientHello: %w'' (WriteBlock now ctx cliBytes)) (\<lambda>_.
       op_return
         \<lparr>hp_Version = v, hp_SessID = sessionID,
          hp_PeerAuthPubKey =
            (if v \<ge> VersionV7 \<and> length (sh_AuthPubKeyRaw srv) = X25519KeySize
             then Some (sh_AuthPubKeyRaw srv) else None),
          hp_BlockSize = SMPBlockSize\<rparr>))))))"

section \<open>Negotiation\<close>

definition common_versions :: "version_range \<Rightarrow> version set" where
  "common_versions r = {u. MinClientVersion \<le> u \<and> u \<le> MaxClientVersion \<and> vr_Min r \<le> u \<and> u \<le> vr_Max r}"

lemma NegotiateVersion_cases:
  "NegotiateVersion r =
    (if max (vr_Min r) MinClientVersion \<le> min (vr_Max r) MaxClientVersion
     then Inr (min (vr_Max r) MaxClientVersion)
     else Inl (Errorf ''%w: client=[%d..%d], server=[%d..%d]''
                     [AWrap (Sentinel ErrIncompatibleVersion), AInt (uint MinClientVersion),
                      AInt (uint MaxClientVersion), AInt (uint (vr_Min r)), AInt (uint (vr_Max r))]))"
  by (auto simp: NegotiateVersion_def Let_def max_def min_def not_le)

lemma common_versions_eq:
  "common_versions r = {max (vr_Min r) MinClientVersion .. min (vr_Max r) MaxClientVersion}"
  by (auto simp: common_versions_def)

lemma NegotiateVersion_max_iff:
  "NegotiateVersion r = Inr v \<longleftrightarrow> v \<in> common_versions r \<and> common_versions r \<subseteq> {..v}"
  unfolding NegotiateVersion_cases common_versions_eq
  by (auto intro!: antisym [OF _ min.boundedI])

text \<open>\<open>NegotiateVersion\<close> returns the greatest version both ranges contain, and the error
  \<open>ErrIncompatibleVersion\<close> exactly when they have none in common (an inverted range of the
  server included).\<close>

theorem NegotiateVersion_greatest:
  "(NegotiateVersion r = Inr v \<longleftrightarrow> v \<in> common_versions r \<and> common_versions r \<subseteq> {..v})
   \<and> ((\<exists>e. NegotiateVersion r = Inl e \<and> errors_is e ErrIncompatibleVersion) \<longleftrightarrow> common_versions r = {})"
  unfolding NegotiateVersion_max_iff by (auto simp: NegotiateVersion_cases common_versions_eq)

section \<open>The hello messages on the wire\<close>

definition client_hello_wire :: "smp_client_handshake \<Rightarrow> bytes" where
  "client_hello_wire hs = be16 (ch_Version hs) @ short_wire (ch_KeyHash hs)
     @ (case ch_AuthPubKeyRaw hs of
          Some k \<Rightarrow> if ch_Version hs \<ge> VersionV7 then short_wire k else []
        | None \<Rightarrow> [])"

definition client_hello_ok :: "smp_client_handshake \<Rightarrow> bool" where
  "client_hello_ok hs \<longleftrightarrow> ch_Version hs \<ge> MinClientVersion \<and> length (ch_KeyHash hs) \<le> 255
     \<and> (case ch_AuthPubKeyRaw hs of Some k \<Rightarrow> ch_Version hs < VersionV7 \<or> length k \<le> 255 | None \<Rightarrow> True)"

lemma emits_client_hello:
  assumes "client_hello_ok hs"
  shows "emits (encode_client_hello hs) (client_hello_wire hs)"
proof (cases "ch_Version hs \<ge> VersionV7 \<and> ch_AuthPubKeyRaw hs \<noteq> None")
  case True
  then obtain k where k: "ch_AuthPubKeyRaw hs = Some k" by auto
  have w: "client_hello_wire hs = be16 (ch_Version hs) @ short_wire (ch_KeyHash hs) @ short_wire k"
    using True k by (simp add: client_hello_wire_def)
  show ?thesis
    unfolding encode_client_hello_def if_P [OF True] w k option.sel
    using assms True k by (intro emits_rules) (auto simp: client_hello_ok_def intro!: emits_wrap emits_ShortString)
next
  case False
  then have w: "client_hello_wire hs = be16 (ch_Version hs) @ short_wire (ch_KeyHash hs) @ []"
    by (auto simp: client_hello_wire_def split: option.splits)
  show ?thesis
    unfolding encode_client_hello_def if_not_P [OF False] w
    using assms by (intro emits_rules) (auto simp: client_hello_ok_def)
qed

lemma EncodeSMPClientHandshake_ok:
  "client_hello_ok hs \<Longrightarrow> EncodeSMPClientHandshake hs = Inr (client_hello_wire hs)"
  using encode_with_emits [OF emits_client_hello]
  by (auto simp: EncodeSMPClientHandshake_def client_hello_ok_def not_le)

definition server_hello_reads :: "bytes \<Rightarrow> smp_server_handshake \<Rightarrow> bool" where
  "server_hello_reads raw hs \<longleftrightarrow>
     (\<exists>rest. raw = be16 (vr_Min (sh_VersionRange hs)) @ be16 (vr_Max (sh_VersionRange hs))
          @ short_wire (sh_SessionID hs) @ rest
        \<and> length (sh_SessionID hs) \<le> 255
        \<and> sh_AuthPubKeyRaw hs = (if vr_Max (sh_VersionRange hs) \<ge> VersionV7 then rest else []))"

lemma hello_key_eq:
  assumes "dec_wf d" "sh_AuthPubKeyRaw hs = []"
  shows "fst (hello_key maxV hs d)
    = Inr (hs\<lparr>sh_AuthPubKeyRaw := if maxV \<ge> VersionV7 then unread d else []\<rparr>)"
proof -
  have "Decoder_Remaining d \<le> 0 \<Longrightarrow> unread d = []"
    using assms(1) by (simp add: Decoder_Remaining_def unread_def dec_wf_def)
  moreover have "fst (Decoder_Tail d) = unread d"
    using assms(1) by (simp add: Decoder_Tail_def slice_def unread_def dec_wf_def)
  moreover have "hs\<lparr>sh_AuthPubKeyRaw := []\<rparr> = hs"
    using assms(2) by simp
  ultimately show ?thesis
    by (auto simp: hello_key_def split: prod.splits)
qed

lemma server_hello_reads_iff:
  "DecodeSMPServerHandshake raw = Inr hs \<longleftrightarrow> server_hello_reads raw hs"
proof
  have key: "reads_all (hello_key maxV h) (\<lambda>xs y. y = h\<lparr>sh_AuthPubKeyRaw := if maxV \<ge> VersionV7 then xs else []\<rparr>)"
    if "sh_AuthPubKeyRaw h = []" for maxV h
    unfolding reads_all_def using hello_key_eq [OF _ that] by (metis fst_conv sum.inject(2))
  have "reads_all decode_server_hello server_hello_reads"
    unfolding decode_server_hello_def
    by (rule reads_all_mono [OF reads_all_bind [OF reads_wrap [OF reads_Word16]
          reads_all_bind [OF reads_wrap [OF reads_Word16]
          reads_all_bind [OF reads_wrap [OF reads_ShortString] key]]]])
      (auto simp: server_hello_reads_def)
  then show "DecodeSMPServerHandshake raw = Inr hs \<Longrightarrow> server_hello_reads raw hs"
    unfolding DecodeSMPServerHandshake_def by (rule reads_all_decode_with)
next
  assume "server_hello_reads raw hs"
  then obtain rest where raw: "raw = be16 (vr_Min (sh_VersionRange hs)) @ be16 (vr_Max (sh_VersionRange hs))
      @ short_wire (sh_SessionID hs) @ rest"
    and len: "length (sh_SessionID hs) \<le> 255"
    and auth: "sh_AuthPubKeyRaw hs = (if vr_Max (sh_VersionRange hs) \<ge> VersionV7 then rest else [])"
    by (auto simp: server_hello_reads_def)
  let ?h = "\<lparr>sh_VersionRange = \<lparr>vr_Min = vr_Min (sh_VersionRange hs), vr_Max = vr_Max (sh_VersionRange hs)\<rparr>,
    sh_SessionID = sh_SessionID hs, sh_AuthPubKeyRaw = []\<rparr>"
  have h: "?h\<lparr>sh_AuthPubKeyRaw := if vr_Max (sh_VersionRange hs) \<ge> VersionV7 then rest else []\<rparr> = hs"
    using auth by simp
  have "parses_all (hello_key (vr_Max (sh_VersionRange hs)) ?h) rest hs"
    unfolding parses_all_def using hello_key_eq [of _ ?h "vr_Max (sh_VersionRange hs)"] h by auto
  then have "parses_all decode_server_hello raw hs"
    unfolding decode_server_hello_def raw
    by (rule parses_all_bind [OF parses_wrap [OF parses_Word16]
          parses_all_bind [OF parses_wrap [OF parses_Word16] parses_all_short_field [OF len]]])
  then show "DecodeSMPServerHandshake raw = Inr hs"
    unfolding DecodeSMPServerHandshake_def by (rule decode_with_all)
qed

lemma EncodeSMPClientHandshake_bad:
  assumes "\<not> client_hello_ok hs"
  shows "\<exists>e. EncodeSMPClientHandshake hs = Inl e"
proof (cases "ch_Version hs < MinClientVersion")
  case False
  have "rejects (encode_client_hello hs) ErrShortStringTooLong"
  proof (cases "length (ch_KeyHash hs) \<le> 255")
    case True
    with assms False obtain k where k: "ch_AuthPubKeyRaw hs = Some k" "ch_Version hs \<ge> VersionV7" "255 < length k"
      by (auto simp: client_hello_ok_def not_le not_less split: option.splits)
    then show ?thesis
      unfolding encode_client_hello_def using True
      by (auto intro!: rejects_later [OF emits_Word16] rejects_later [OF emits_wrap [OF emits_ShortString]]
          rejects_wrap rejects_ShortString)
  next
    case False
    then show ?thesis
      unfolding encode_client_hello_def
      by (intro rejects_later [OF emits_Word16] rejects_here rejects_wrap rejects_ShortString) simp
  qed
  from encode_with_rejects [OF this] False show ?thesis
    by (auto simp: EncodeSMPClientHandshake_def)
qed (simp add: EncodeSMPClientHandshake_def)

lemma EncodeSMPClientHandshake_iff:
  "EncodeSMPClientHandshake hs = Inr b \<longleftrightarrow> client_hello_ok hs \<and> b = client_hello_wire hs"
proof (cases "client_hello_ok hs")
  case False
  then show ?thesis using EncodeSMPClientHandshake_bad [OF False] by auto
qed (auto simp: EncodeSMPClientHandshake_ok)

text \<open>Both hello messages have exactly the layout of the comment in \<open>handshake.go\<close>: the
  client's is produced for every version from v6 on whose fields fit (the key from v7 on only)
  and nothing else is, and the server's is accepted exactly when it has that layout, whatever
  follows the session id being the key blob from v7 on and ignored below.\<close>

theorem hello_messages_exact:
  "(EncodeSMPClientHandshake ch = Inr b \<longleftrightarrow> client_hello_ok ch \<and> b = client_hello_wire ch)
   \<and> (DecodeSMPServerHandshake raw = Inr sh \<longleftrightarrow> server_hello_reads raw sh)"
  by (simp add: EncodeSMPClientHandshake_iff server_hello_reads_iff)

section \<open>The exchange\<close>

lemma ReadBlock_pair: "ReadBlock now ctx c = (fst (ReadBlock now ctx c), after_block c)"
  by (metis ReadBlock_after prod.collapse)

lemma WriteBlock_Inr:
  assumes "WriteBlock now ctx b c = (Inr (), c')"
  shows "c' = with_tls c ((conn_tls c)\<lparr>tls_out := tls_out (conn_tls c) @ pad_block b, tls_wdeadline := 0\<rparr>)
    \<and> length b \<le> 16382"
proof (cases "length b \<le> 16382")
  case True
  then show ?thesis
    using assms WriteBlock_ok [OF True, of c now ctx] WriteBlock_fault [OF True, of c _ _ now ctx]
    by (cases "tls_wfault (conn_tls c)") auto
next
  case False
  then show ?thesis using assms by (simp add: WriteBlock_large)
qed

lemma handshake_pub_Inr:
  "handshake_pub cr genkey v priv = Inr pub \<Longrightarrow> pub = None \<longleftrightarrow> v < VersionV7"
  by (auto simp: handshake_pub_def split: option.splits if_splits)

lemma op_lift_eq_Inr [simp]: "op_lift r s = (Inr x, s') \<longleftrightarrow> r = Inr x \<and> s' = s"
  by (auto simp: op_lift_def)

lemma handshake_Inr:
  assumes "runSMPClientHandshake cr genkey now ctx expected sessionID ownAuthPriv c = (Inr p, c')"
  shows "\<exists>raw srv pub.
     fst (ReadBlock now ctx c) = Inr raw \<and> server_hello_reads raw srv
   \<and> sh_SessionID srv = sessionID
   \<and> hp_Version p \<in> common_versions (sh_VersionRange srv)
   \<and> common_versions (sh_VersionRange srv) \<subseteq> {..hp_Version p}
   \<and> p = \<lparr>hp_Version = hp_Version p, hp_SessID = sessionID,
          hp_PeerAuthPubKey = (if hp_Version p \<ge> VersionV7 \<and> length (sh_AuthPubKeyRaw srv) = 32
                               then Some (sh_AuthPubKeyRaw srv) else None),
          hp_BlockSize = 16384\<rparr>
   \<and> tls_in (conn_tls c') = drop 16384 (tls_in (conn_tls c))
   \<and> tls_out (conn_tls c') = tls_out (conn_tls c) @ pad_block (client_hello_wire
        \<lparr>ch_Version = hp_Version p, ch_KeyHash = expected, ch_AuthPubKeyRaw = pub\<rparr>)
   \<and> (pub = None \<longleftrightarrow> hp_Version p < VersionV7)
   \<and> tls_rdeadline (conn_tls c') = 0 \<and> tls_wdeadline (conn_tls c') = 0"
proof -
  from assms obtain raw srv v pub cli u c1 where
    1: "ReadBlock now ctx c = (Inr raw, c1)" and 2: "DecodeSMPServerHandshake raw = Inr srv"
    and 3: "sh_SessionID srv = sessionID" and 4: "NegotiateVersion (sh_VersionRange srv) = Inr v"
    and 5: "handshake_pub cr genkey v ownAuthPriv = Inr pub"
    and 6: "EncodeSMPClientHandshake \<lparr>ch_Version = v, ch_KeyHash = expected, ch_AuthPubKeyRaw = pub\<rparr> = Inr cli"
    and 7: "WriteBlock now ctx cli c1 = (Inr u, c')"
    and p: "p = \<lparr>hp_Version = v, hp_SessID = sessionID,
          hp_PeerAuthPubKey = (if v \<ge> VersionV7 \<and> length (sh_AuthPubKeyRaw srv) = X25519KeySize
             then Some (sh_AuthPubKeyRaw srv) else None), hp_BlockSize = SMPBlockSize\<rparr>"
    unfolding runSMPClientHandshake_def
    by (auto simp: op_bind_eq_Inr op_wrap_eq_Inr split: if_splits)
  have c1: "c1 = after_block c" using 1 ReadBlock_pair [of now ctx c] by simp
  have c': "c' = with_tls c1 ((conn_tls c1)\<lparr>tls_out := tls_out (conn_tls c1) @ pad_block cli, tls_wdeadline := 0\<rparr>)"
    using WriteBlock_Inr [of now ctx cli c1 c'] 7 by simp
  show ?thesis
    using 1 2 3 4 6 handshake_pub_Inr [OF 5] p
    by (intro exI [of _ raw] exI [of _ srv] exI [of _ pub])
      (simp add: server_hello_reads_iff NegotiateVersion_max_iff EncodeSMPClientHandshake_iff
        c' c1 after_block_def X25519KeySize_def SMPBlockSize_def)
qed

text \<open>C7: A handshake that succeeds has read exactly one block and written exactly one: the
  server's hello names the session the caller expects, the version is the greatest both sides
  support, and the block written is the client's hello for that version with the pinned key
  hash and, from v7 on, a public key. The parameters returned are those.\<close>

theorem handshake_success:
  assumes "runSMPClientHandshake cr genkey now ctx expected sessionID ownAuthPriv c = (Inr p, c')"
  shows "\<exists>raw srv pub.
     fst (ReadBlock now ctx c) = Inr raw \<and> server_hello_reads raw srv
   \<and> sh_SessionID srv = sessionID
   \<and> hp_Version p \<in> common_versions (sh_VersionRange srv)
   \<and> common_versions (sh_VersionRange srv) \<subseteq> {..hp_Version p}
   \<and> p = \<lparr>hp_Version = hp_Version p, hp_SessID = sessionID,
          hp_PeerAuthPubKey = (if hp_Version p \<ge> VersionV7 \<and> length (sh_AuthPubKeyRaw srv) = 32
                               then Some (sh_AuthPubKeyRaw srv) else None),
          hp_BlockSize = 16384\<rparr>
   \<and> tls_in (conn_tls c') = drop 16384 (tls_in (conn_tls c))
   \<and> tls_out (conn_tls c') = tls_out (conn_tls c) @ pad_block (client_hello_wire
        \<lparr>ch_Version = hp_Version p, ch_KeyHash = expected, ch_AuthPubKeyRaw = pub\<rparr>)
   \<and> (pub = None \<longleftrightarrow> hp_Version p < VersionV7)
   \<and> tls_rdeadline (conn_tls c') = 0 \<and> tls_wdeadline (conn_tls c') = 0"
  using assms by (rule handshake_Inr)

lemma WriteBlock_chain: "PeerCertChain (snd (WriteBlock now ctx b c)) = PeerCertChain c"
  by (auto simp: WriteBlock_def Let_def PeerCertChain_def clearWriteDeadline_def applyWriteDeadline_def split: prod.split)

lemma handshake_chain:
  assumes "runSMPClientHandshake cr genkey now ctx expected sessionID ownAuthPriv c = (Inr p, c')"
  shows "PeerCertChain c' = PeerCertChain c"
proof -
  from assms obtain raw cli u c1 where
    1: "ReadBlock now ctx c = (Inr raw, c1)" and 2: "WriteBlock now ctx cli c1 = (Inr u, c')"
    unfolding runSMPClientHandshake_def
    by (auto simp: op_bind_eq_Inr op_wrap_eq_Inr split: if_splits)
  have "PeerCertChain c1 = PeerCertChain c"
    using 1 ReadBlock_pair [of now ctx c] by (simp add: PeerCertChain_def after_block_def)
  with 2 WriteBlock_chain [of now ctx cli c1] show ?thesis by simp
qed

text \<open>C34: A server that answers for another session, or has no version in common, is refused
  with the matching error after its hello was read and before anything is written to it.\<close>

theorem handshake_refusal_is_silent:
  assumes "fst (ReadBlock now ctx c) = Inr raw" and "server_hello_reads raw srv"
    and "sh_SessionID srv \<noteq> sessionID \<or> common_versions (sh_VersionRange srv) = {}"
  shows "\<exists>e c'. runSMPClientHandshake cr genkey now ctx expected sessionID ownAuthPriv c = (Inl e, c')
    \<and> errors_is e (if sh_SessionID srv \<noteq> sessionID then ErrBadSession else ErrIncompatibleVersion)
    \<and> tls_out (conn_tls c') = tls_out (conn_tls c)"
proof -
  have read: "ReadBlock now ctx c = (Inr raw, after_block c)"
    using assms(1) ReadBlock_pair [of now ctx c] by simp
  have dec: "DecodeSMPServerHandshake raw = Inr srv"
    using assms(2) by (simp add: server_hello_reads_iff)
  have out: "tls_out (conn_tls (after_block c)) = tls_out (conn_tls c)"
    by (simp add: after_block_def)
  show ?thesis
  proof (cases "sh_SessionID srv = sessionID")
    case True
    then have "\<exists>e. NegotiateVersion (sh_VersionRange srv) = Inl e \<and> errors_is e ErrIncompatibleVersion"
      using assms(3) by (auto simp: NegotiateVersion_cases common_versions_eq)
    with True out show ?thesis
      by (auto simp: runSMPClientHandshake_def op_bind_def op_wrap_def read dec op_lift_def)
  next
    case False
    with out show ?thesis
      by (auto simp: runSMPClientHandshake_def op_bind_def op_wrap_def read dec op_lift_def op_fail_def)
  qed
qed

text \<open>A run that succeeds, having sent the hello of a version with this key.\<close>

definition offers :: "(go_err + handshake_params) \<times> conn \<Rightarrow> conn \<Rightarrow> key_hash \<Rightarrow> version \<Rightarrow> bytes option \<Rightarrow> bool" where
  "offers run c expected v pub \<longleftrightarrow> (\<exists>p c'. run = (Inr p, c')
     \<and> tls_out (conn_tls c') = tls_out (conn_tls c) @ pad_block (client_hello_wire
          \<lparr>ch_Version = v, ch_KeyHash = expected, ch_AuthPubKeyRaw = pub\<rparr>))"

text \<open>The last two steps, once the key to offer is known.\<close>

lemma handshake_last_steps:
  assumes "tls_in (conn_tls c) = pad_block hello @ rest" and "length hello \<le> 16382"
    and "server_hello_reads hello srv" and "NegotiateVersion (sh_VersionRange srv) = Inr v"
    and "tls_wfault (conn_tls c) = None" and "wf_key_hash expected"
  shows "handshake_pub cr genkey v ownAuthPriv = Inl e
    \<Longrightarrow> fst (runSMPClientHandshake cr genkey now ctx expected (sh_SessionID srv) ownAuthPriv c) = Inl e"
    "handshake_pub cr genkey v ownAuthPriv = Inr pub \<Longrightarrow> (\<And>k. pub = Some k \<Longrightarrow> length k = 32)
    \<Longrightarrow> offers (runSMPClientHandshake cr genkey now ctx expected (sh_SessionID srv) ownAuthPriv c) c expected v pub"
proof -
  have read: "ReadBlock now ctx c = (Inr hello, after_block c)"
    using assms(1,2) by (intro ReadBlock_pad_block)
  have dec: "DecodeSMPServerHandshake hello = Inr srv"
    using assms(3) by (simp add: server_hello_reads_iff)
  note run = runSMPClientHandshake_def op_bind_def op_wrap_def read dec op_lift_def assms(4) op_return_def
  show "fst (runSMPClientHandshake cr genkey now ctx expected (sh_SessionID srv) ownAuthPriv c) = Inl e"
    if "handshake_pub cr genkey v ownAuthPriv = Inl e" using that by (simp add: run)
  let ?ch = "\<lparr>ch_Version = v, ch_KeyHash = expected, ch_AuthPubKeyRaw = pub\<rparr>"
  assume pub: "handshake_pub cr genkey v ownAuthPriv = Inr pub" "\<And>k. pub = Some k \<Longrightarrow> length k = 32"
  have "v \<in> common_versions (sh_VersionRange srv)"
    using assms(4) by (auto simp: NegotiateVersion_cases common_versions_eq split: if_splits)
  then have ok: "client_hello_ok ?ch"
    using assms(6) pub(2) by (auto simp: client_hello_ok_def common_versions_def wf_key_hash_def split: option.split)
  have "length (client_hello_wire ?ch) \<le> 16382"
    using assms(6) pub(2) by (auto simp: client_hello_wire_def wf_key_hash_def short_wire_def split: option.split)
  then show "offers (runSMPClientHandshake cr genkey now ctx expected (sh_SessionID srv) ownAuthPriv c) c expected v pub"
    using WriteBlock_ok [of "client_hello_wire ?ch" "after_block c" now ctx] assms(5) pub(1)
    by (simp add: offers_def run EncodeSMPClientHandshake_ok [OF ok] after_block_def)
qed

text \<open>C35: A handshake with a server that plays its part completes: if the stream holds a block
  with a well-formed hello for this session with a version in common and the session takes the
  bytes written, then \<open>runSMPClientHandshake\<close> returns parameters and has sent the hello of the
  negotiated version - below v7 without a key, from v7 on with the public key of the caller's
  private key or, if the caller has none, of a freshly generated one. The only errors left are the
  caller's own: a private key that has not 32 bytes, and a random source that fails.\<close>

theorem handshake_completes:
  assumes "tls_in (conn_tls c) = pad_block hello @ rest" and "length hello \<le> 16382"
    and "server_hello_reads hello srv" and "common_versions (sh_VersionRange srv) \<noteq> {}"
    and "tls_wfault (conn_tls c) = None" and "wf_key_hash expected"
    and "x25519_laws cr" and "\<And>k. genkey = Inr k \<Longrightarrow> length k = 32"
  shows "\<exists>v. NegotiateVersion (sh_VersionRange srv) = Inr v \<and>
    (let run = runSMPClientHandshake cr genkey now ctx expected (sh_SessionID srv) ownAuthPriv c
     in if v < VersionV7 then offers run c expected v None
        else case ownAuthPriv of
            Some priv \<Rightarrow>
              if length priv = 32 then offers run c expected v (Some (ecdh_PublicKey cr priv)) else \<exists>e. fst run = Inl e
          | None \<Rightarrow> (case genkey of
                Inr k \<Rightarrow> offers run c expected v (Some (ecdh_PublicKey cr k))
              | Inl e \<Rightarrow> fst run = Inl (wrapf ''smp: generate ephemeral X25519: %w'' e)))"
proof -
  obtain v where v: "NegotiateVersion (sh_VersionRange srv) = Inr v"
    using assms(4) by (auto simp: NegotiateVersion_cases common_versions_eq)
  note steps = handshake_last_steps [OF assms(1-3) v assms(5,6), of cr genkey ownAuthPriv]
  have key: "length priv = 32 \<Longrightarrow> ecdh_NewPrivateKey cr priv = Inr priv \<and> length (ecdh_PublicKey cr priv) = 32" for priv
    using assms(7) by (simp add: x25519_laws_def)
  note pub = handshake_pub_def X25519KeySize_def
  show ?thesis
  proof (cases "v < VersionV7")
    case True
    then have "\<not> VersionV7 \<le> v" by simp
    then have "handshake_pub cr genkey v ownAuthPriv = Inr None" by (simp add: handshake_pub_def)
    from steps(2) [OF this] v True show ?thesis by (simp add: Let_def)
  next
    case False
    show ?thesis
    proof (cases ownAuthPriv)
      case (Some priv)
      show ?thesis
      proof (cases "length priv = 32")
        case True
        with Some False key have "handshake_pub cr genkey v ownAuthPriv = Inr (Some (ecdh_PublicKey cr priv))"
          by (simp add: pub)
        from steps(2) [OF this] key [OF True] v False Some True show ?thesis by (simp add: Let_def)
      next
        case bad: False
        with Some False have "\<exists>e. handshake_pub cr genkey v ownAuthPriv = Inl e" by (simp add: pub)
        then obtain e where "handshake_pub cr genkey v ownAuthPriv = Inl e" ..
        from steps(1) [OF this] v False Some bad show ?thesis by (simp add: Let_def)
      qed
    next
      case None
      show ?thesis
      proof (cases genkey)
        case (Inr k)
        with None False have "handshake_pub cr genkey v ownAuthPriv = Inr (Some (ecdh_PublicKey cr k))" by (simp add: pub)
        from steps(2) [OF this] key [OF assms(8) [OF Inr]] v False None Inr show ?thesis by (simp add: Let_def)
      next
        case (Inl e)
        with None False have "handshake_pub cr genkey v ownAuthPriv = Inl (wrapf ''smp: generate ephemeral X25519: %w'' e)"
          by (simp add: pub)
        from steps(1) [OF this] v False None Inl show ?thesis by (simp add: Let_def)
      qed
    qed
  qed
qed

section \<open>A concrete exchange\<close>

definition example_hello :: bytes where
  "example_hello = be16 6 @ be16 18 @ short_wire [9] @ replicate 32 5"

definition example_srv :: smp_server_handshake where
  "example_srv = \<lparr>sh_VersionRange = \<lparr>vr_Min = 6, vr_Max = 18\<rparr>, sh_SessionID = [9],
     sh_AuthPubKeyRaw = replicate 32 5\<rparr>"

lemma example_hello_reads:
  "server_hello_reads example_hello example_srv" "length example_hello \<le> 16382"
  by (simp_all add: server_hello_reads_def example_hello_def example_srv_def VersionV7_def short_wire_def)

lemma example_common:
  "common_versions (sh_VersionRange example_srv) \<noteq> {}" "sh_SessionID example_srv = [9]"
  by (simp_all add: common_versions_eq example_srv_def version_defs)

theorem handshake_completes_witness:
  "\<exists>p. fst (runSMPClientHandshake example_crypto (Inr (replicate 32 3)) 0 None (replicate 32 1) [9] None
      (test_conn (pad_block example_hello))) = Inr p"
proof -
  have laws: "x25519_laws example_crypto" using example_crypto_laws by (simp add: crypto_laws_def)
  have v: "NegotiateVersion (sh_VersionRange example_srv) = Inr 7"
    by (simp add: NegotiateVersion_cases example_srv_def version_defs)
  have c: "tls_in (conn_tls (test_conn (pad_block example_hello))) = pad_block example_hello @ []"
    "tls_wfault (conn_tls (test_conn (pad_block example_hello))) = None" "wf_key_hash (replicate 32 1)"
    by (simp_all add: test_conn_def wf_key_hash_def)
  have k: "\<And>k. Inr (replicate 32 3) = (Inr k :: bytes result) \<Longrightarrow> length k = 32" by (metis length_replicate sum.inject(2))
  from handshake_completes [where genkey = "Inr (replicate 32 3)" and now = 0 and ctx = None and ownAuthPriv = None,
      OF c(1) example_hello_reads(2,1) example_common(1) c(2,3) laws k] v
  show ?thesis by (auto simp: Let_def version_defs example_common offers_def)
qed

theorem handshake_refusal_is_silent_witness:
  "\<exists>e c'. runSMPClientHandshake example_crypto (Inr []) 0 None (replicate 32 1) [8] None
      (test_conn (pad_block example_hello)) = (Inl e, c')
    \<and> errors_is e ErrBadSession \<and> tls_out (conn_tls c') = []"
proof -
  have "fst (ReadBlock 0 None (test_conn (pad_block example_hello))) = Inr example_hello"
    using ReadBlock_pad_block [of example_hello "test_conn (pad_block example_hello)" "[]" 0 None]
      example_hello_reads by (simp add: test_conn_def)
  from handshake_refusal_is_silent [OF this example_hello_reads(1), of "[8]" example_crypto "Inr []"
      "replicate 32 1" None]
  show ?thesis by (simp add: example_srv_def test_conn_def)
qed

lemma example_run:
  "\<exists>p c'. runSMPClientHandshake example_crypto (Inr (replicate 32 3)) 0 None (replicate 32 1) [9] None
      (test_conn (pad_block example_hello)) = (Inr p, c')"
proof -
  let ?c = "test_conn (pad_block example_hello)"
  let ?ch = "\<lparr>ch_Version = 7, ch_KeyHash = replicate 32 1, ch_AuthPubKeyRaw = Some (replicate 32 3)\<rparr>"
  have read: "ReadBlock 0 None ?c = (Inr example_hello, after_block ?c)"
    using example_hello_reads by (intro ReadBlock_pad_block [where rest = "[]"]) (simp_all add: test_conn_def)
  have dec: "DecodeSMPServerHandshake example_hello = Inr example_srv"
    using example_hello_reads by (simp add: server_hello_reads_iff)
  have neg: "NegotiateVersion (sh_VersionRange example_srv) = Inr 7"
    by (simp add: NegotiateVersion_cases example_srv_def version_defs)
  have sess: "sh_SessionID example_srv = [9]"
    by (simp add: example_srv_def)
  have pub: "handshake_pub example_crypto (Inr (replicate 32 3)) 7 None = Inr (Some (replicate 32 3))"
    by (simp add: handshake_pub_def version_defs example_crypto_def)
  have enc: "EncodeSMPClientHandshake ?ch = Inr (client_hello_wire ?ch)"
    by (rule EncodeSMPClientHandshake_ok) (simp add: client_hello_ok_def version_defs)
  have "length (client_hello_wire ?ch) \<le> 16382"
    by (simp add: client_hello_wire_def short_wire_def)
  then have "\<exists>c'. WriteBlock 0 None (client_hello_wire ?ch) (after_block ?c) = (Inr (), c')"
    using WriteBlock_ok [of "client_hello_wire ?ch" "after_block ?c" 0 None]
    by (simp add: after_block_def test_conn_def)
  then show ?thesis
    by (auto simp: runSMPClientHandshake_def op_bind_def op_wrap_def read dec op_lift_def neg sess pub enc op_return_def)
qed

theorem handshake_success_witness:
  "\<exists>p c'. runSMPClientHandshake example_crypto (Inr (replicate 32 3)) 0 None (replicate 32 1) [9] None
      (test_conn (pad_block example_hello)) = (Inr p, c') \<and> hp_SessID p = [9] \<and> hp_BlockSize p = 16384"
proof -
  obtain p c' where run: "runSMPClientHandshake example_crypto (Inr (replicate 32 3)) 0 None (replicate 32 1) [9] None
      (test_conn (pad_block example_hello)) = (Inr p, c')"
    using example_run by blast
  from handshake_success [OF run] have "hp_SessID p = [9] \<and> hp_BlockSize p = 16384"
    by (metis handshake_params.select_convs(2,4))
  with run show ?thesis by blast
qed

end
