(* ===== verification/Go_Channel.thy ===== *)
theory Go_Channel
  imports Prelude
begin

text \<open>
  Go's buffered channels, as the client of \<open>smp/client.go\<close> uses them: a channel is its buffer,
  capacity and closed flag, held in a store (a list) and named by its index, because a
  channel is shared by the map that registers it and the goroutine that waits on it. An
  operation that panics or would block is a value of \<open>outcome\<close>, never an error result.
\<close>

section \<open>Outcomes\<close>

datatype 'a outcome = Done 'a | Panics string | Blocks

fun obind :: "'a outcome \<Rightarrow> ('a \<Rightarrow> 'b outcome) \<Rightarrow> 'b outcome" where
  "obind (Done x) f = f x"
| "obind (Panics m) f = Panics m"
| "obind Blocks f = Blocks"

lemma obind_eq_Done [simp]: "obind m f = Done y \<longleftrightarrow> (\<exists>x. m = Done x \<and> f x = Done y)"
  by (cases m) auto

lemma obind_eq_Panics: "obind m f = Panics e \<longleftrightarrow> m = Panics e \<or> (\<exists>x. m = Done x \<and> f x = Panics e)"
  by (cases m) auto

section \<open>Channels\<close>

record 'a chan =
  ch_buf :: "'a list"
  ch_cap :: nat
  ch_closed :: bool

definition make_chan :: "nat \<Rightarrow> 'a chan" where
  "make_chan n = \<lparr>ch_buf = [], ch_cap = n, ch_closed = False\<rparr>"

text \<open>\<open>ch <- v\<close>, \<open>select { case ch <- v: default: }\<close>, \<open>close(ch)\<close> and \<open>v, ok := <-ch\<close>.\<close>

definition chan_send :: "'a \<Rightarrow> 'a chan \<Rightarrow> 'a chan outcome" where
  "chan_send v ch =
     (if ch_closed ch then Panics ''send on closed channel''
      else if length (ch_buf ch) < ch_cap ch then Done (ch\<lparr>ch_buf := ch_buf ch @ [v]\<rparr>)
      else Blocks)"

definition chan_try_send :: "'a \<Rightarrow> 'a chan \<Rightarrow> 'a chan outcome" where
  "chan_try_send v ch =
     (case chan_send v ch of Blocks \<Rightarrow> Done ch | r \<Rightarrow> r)"

definition chan_close :: "'a chan \<Rightarrow> 'a chan outcome" where
  "chan_close ch =
     (if ch_closed ch then Panics ''close of closed channel'' else Done (ch\<lparr>ch_closed := True\<rparr>))"

definition chan_recv :: "'a chan \<Rightarrow> ('a option \<times> 'a chan) outcome" where
  "chan_recv ch =
     (case ch_buf ch of
        x # xs \<Rightarrow> Done (Some x, ch\<lparr>ch_buf := xs\<rparr>)
      | [] \<Rightarrow> if ch_closed ch then Done (None, ch) else Blocks)"

text \<open>An operation on the channel with index \<open>i\<close> of a store.\<close>

definition at_chan :: "nat \<Rightarrow> ('a chan \<Rightarrow> 'a chan outcome) \<Rightarrow> 'a chan list \<Rightarrow> 'a chan list outcome" where
  "at_chan i f s = obind (f (s ! i)) (\<lambda>ch. Done (s[i := ch]))"

lemma chan_send_Done [simp]:
  "chan_send v ch = Done ch' \<longleftrightarrow> \<not> ch_closed ch \<and> length (ch_buf ch) < ch_cap ch \<and> ch' = ch\<lparr>ch_buf := ch_buf ch @ [v]\<rparr>"
  by (auto simp: chan_send_def)

lemma chan_close_Done [simp]: "chan_close ch = Done ch' \<longleftrightarrow> \<not> ch_closed ch \<and> ch' = ch\<lparr>ch_closed := True\<rparr>"
  by (auto simp: chan_close_def)

lemma chan_try_send_open:
  "\<not> ch_closed ch \<Longrightarrow> chan_try_send v ch =
     Done (if length (ch_buf ch) < ch_cap ch then ch\<lparr>ch_buf := ch_buf ch @ [v]\<rparr> else ch)"
  by (simp add: chan_try_send_def chan_send_def)

lemma chan_panics_iff:
  "chan_send v ch = Panics m \<longleftrightarrow> ch_closed ch \<and> m = ''send on closed channel''"
  "chan_try_send v ch = Panics m \<longleftrightarrow> ch_closed ch \<and> m = ''send on closed channel''"
  "chan_close ch = Panics m \<longleftrightarrow> ch_closed ch \<and> m = ''close of closed channel''"
  by (auto simp: chan_send_def chan_try_send_def chan_close_def)

lemma chan_recv_blocks_iff: "chan_recv ch = Blocks \<longleftrightarrow> ch_buf ch = [] \<and> \<not> ch_closed ch"
  by (simp add: chan_recv_def split: list.split)

end
