(* ===== verification/Client.thy ===== *)
theory Client
  imports Handshake Go_Channel "HOL-Library.AList"
begin

text \<open>
  The client of \<open>smp/client.go\<close>, sequentially: its state, every critical section it runs under
  \<open>mu\<close>, the parts of \<open>send\<close> before and after the wait, and what the exported methods make of a
  reply. A critical section is one function on the state, because the mutex makes it atomic;
  that none of them blocks while it holds the mutex is a theorem. \<open>Client_System\<close> interleaves
  them.
\<close>

section \<open>State\<close>

datatype broker_result = Reply broker_msg | Failed go_err

text \<open>
  The two maps are association lists from the correlation id or queue id to the index of a
  channel in \<open>cl_results\<close> or \<open>cl_messages\<close>; Go's iteration order is an argument of the
  operations that range over a map. \<open>cl_readerDone\<close> says that the channel is closed.
\<close>

record client =
  cl_params :: handshake_params
  cl_closed :: bool
  cl_sentCmds :: "(corr_id \<times> nat) list"
  cl_subs :: "(bytes \<times> nat) list"
  cl_readerDone :: bool
  cl_results :: "broker_result chan list"
  cl_messages :: "message chan list"

definition NewClient :: "handshake_params \<Rightarrow> client" where
  "NewClient params = \<lparr>cl_params = params, cl_closed = False, cl_sentCmds = [], cl_subs = [],
     cl_readerDone = False, cl_results = [], cl_messages = []\<rparr>"

definition on_result :: "nat \<Rightarrow> (broker_result chan \<Rightarrow> broker_result chan outcome) \<Rightarrow> client \<Rightarrow> client outcome" where
  "on_result i f c = obind (at_chan i f (cl_results c)) (\<lambda>s. Done (c\<lparr>cl_results := s\<rparr>))"

definition on_messages :: "nat \<Rightarrow> (message chan \<Rightarrow> message chan outcome) \<Rightarrow> client \<Rightarrow> client outcome" where
  "on_messages i f c = obind (at_chan i f (cl_messages c)) (\<lambda>s. Done (c\<lparr>cl_messages := s\<rparr>))"

definition delete_cmd :: "corr_id \<Rightarrow> client \<Rightarrow> client" where
  "delete_cmd cid c = c\<lparr>cl_sentCmds := AList.delete cid (cl_sentCmds c)\<rparr>"

definition delete_sub :: "bytes \<Rightarrow> client \<Rightarrow> client" where
  "delete_sub key c = c\<lparr>cl_subs := AList.delete key (cl_subs c)\<rparr>"

section \<open>The reader\<close>

text \<open>\<open>ch <- r; close(ch); delete(c.sentCmds, cid)\<close>, the common step of a reply and a drain.\<close>

definition answer_cmd :: "broker_result \<Rightarrow> corr_id \<Rightarrow> nat \<Rightarrow> client \<Rightarrow> client outcome" where
  "answer_cmd r cid i c =
     obind (on_result i (chan_send r) c) (\<lambda>c1.
     obind (on_result i chan_close c1) (\<lambda>c2. Done (delete_cmd cid c2)))"

definition close_sub :: "bytes \<Rightarrow> nat \<Rightarrow> client \<Rightarrow> client outcome" where
  "close_sub key i c = obind (on_messages i chan_close c) (\<lambda>c1. Done (delete_sub key c1))"

definition dispatch :: "transmission \<Rightarrow> client \<Rightarrow> client outcome" where
  "dispatch tx c =
     (case DecodeBrokerMsg (hp_Version (cl_params c)) (tx_Command tx) of
        Inl err \<Rightarrow> Done c
      | Inr msg \<Rightarrow>
          if tx_CorrID tx = NoCorrID then
            (case map_of (cl_subs c) (tx_EntityID tx) of
               None \<Rightarrow> Done c
             | Some i \<Rightarrow>
                 (case msg of
                    MsgMsg m \<Rightarrow> on_messages i (chan_try_send m) c
                  | EndMsg \<Rightarrow> close_sub (tx_EntityID tx) i c
                  | _ \<Rightarrow> Done c))
          else
            (case map_of (cl_sentCmds c) (tx_CorrID tx) of
               Some i \<Rightarrow> answer_cmd (Reply msg) (tx_CorrID tx) i c
             | None \<Rightarrow> Done c))"

fun dispatch_all :: "transmission list \<Rightarrow> client \<Rightarrow> client outcome" where
  "dispatch_all [] c = Done c"
| "dispatch_all (tx # txs) c = obind (dispatch tx c) (dispatch_all txs)"

text \<open>One turn of \<open>readLoop\<close> with a block that was read.\<close>

definition handle_block :: "bytes \<Rightarrow> client \<Rightarrow> client outcome" where
  "handle_block block c =
     (case DecodeBlock (hp_Version (cl_params c)) (hp_SessID (cl_params c)) block of
        Inl err \<Rightarrow> Done c
      | Inr txs \<Rightarrow> dispatch_all txs c)"

text \<open>The loops over the two maps; the list of keys is the iteration order.\<close>

fun drain_cmds :: "broker_result \<Rightarrow> corr_id list \<Rightarrow> client \<Rightarrow> client outcome" where
  "drain_cmds r [] c = Done c"
| "drain_cmds r (cid # cids) c =
     (case map_of (cl_sentCmds c) cid of
        None \<Rightarrow> drain_cmds r cids c
      | Some i \<Rightarrow> obind (answer_cmd r cid i c) (drain_cmds r cids))"

fun drain_subs :: "bytes list \<Rightarrow> client \<Rightarrow> client outcome" where
  "drain_subs [] c = Done c"
| "drain_subs (key # keys) c =
     (case map_of (cl_subs c) key of
        None \<Rightarrow> drain_subs keys c
      | Some i \<Rightarrow> obind (close_sub key i c) (drain_subs keys))"

definition handleReadError :: "go_err \<Rightarrow> corr_id list \<Rightarrow> bytes list \<Rightarrow> client \<Rightarrow> client outcome" where
  "handleReadError err cids keys c =
     (if cl_closed c then Done c
      else obind (drain_cmds (Failed (wrapf ''smp: read: %w'' err)) cids (c\<lparr>cl_closed := True\<rparr>))
             (drain_subs keys))"

text \<open>\<open>Close\<close> up to the unlock; the flag says that this call goes on to close the transport and
  join the reader, and is false for a second call.\<close>

definition Close_locked :: "corr_id list \<Rightarrow> bytes list \<Rightarrow> client \<Rightarrow> (bool \<times> client) outcome" where
  "Close_locked cids keys c =
     (if cl_closed c then Done (False, c)
      else obind (obind (drain_cmds (Failed (Sentinel ErrClientClosed)) cids (c\<lparr>cl_closed := True\<rparr>))
                   (drain_subs keys)) (\<lambda>c'. Done (True, c')))"

section \<open>Sending\<close>

text \<open>
  \<open>send\<close> up to \<open>EncodeBlock\<close>: no shared state is touched. \<open>rnd\<close> is what \<open>io.ReadFull(rand.Reader)\<close>
  gives for the correlation id.
\<close>

definition newCorrID :: "corr_id result \<Rightarrow> corr_id result" where
  "newCorrID rnd = rnd"

definition sign_tx :: "rcv_auth_key option \<Rightarrow> bytes \<Rightarrow> corr_id \<Rightarrow> transmission \<Rightarrow> transmission result" where
  "sign_tx signKey authBytes cid tx =
     (case signKey of
        None \<Rightarrow> Inr tx
      | Some authorize \<Rightarrow>
          rbind (rwrap ''smp: authorize: %w'' (authorize authBytes cid))
            (\<lambda>sig. Inr (tx\<lparr>tx_Authorization := sig\<rparr>)))"

definition send_prepare ::
  "handshake_params \<Rightarrow> corr_id result \<Rightarrow> rcv_auth_key option \<Rightarrow> entity_id \<Rightarrow> command \<Rightarrow> (corr_id \<times> bytes) result" where
  "send_prepare params rnd signKey entityID cmd =
     rbind (EncodeCommand (hp_Version params) cmd) (\<lambda>cmdBytes.
     rbind (rwrap ''smp: corrId: %w'' (newCorrID rnd)) (\<lambda>cid.
     let tx = \<lparr>tx_CorrID = cid, tx_EntityID = entityID, tx_Command = cmdBytes, tx_Authorization = []\<rparr> in
     rbind (EncodeTransmission (hp_Version params) (hp_SessID params) tx) (\<lambda>(_, authBytes).
     rbind (sign_tx signKey authBytes cid tx) (\<lambda>tx.
     rbind (EncodeTransmission (hp_Version params) (hp_SessID params) tx) (\<lambda>(wireBytes, _).
     rbind (EncodeBlock [wireBytes]) (\<lambda>block. Inr (cid, block)))))))"

text \<open>The critical section that registers the reply channel; it returns the channel's index.\<close>

definition send_register :: "corr_id \<Rightarrow> (client, nat) op" where
  "send_register cid c =
     (let i = length (cl_results c);
          c1 = c\<lparr>cl_results := cl_results c @ [make_chan 1]\<rparr>
      in if cl_closed c1 then (Inl (Sentinel ErrClientClosed), c1)
         else (Inr i, c1\<lparr>cl_sentCmds := AList.update cid i (cl_sentCmds c1)\<rparr>))"

text \<open>What \<open>send\<close> returns for the value received from the channel (\<open>None\<close>: closed and empty,
  the zero \<open>brokerResult\<close>, whose message is nil).\<close>

definition send_reply :: "broker_result option \<Rightarrow> broker_msg option result" where
  "send_reply r =
     (case r of
        None \<Rightarrow> Inr None
      | Some (Failed err) \<Rightarrow> Inl err
      | Some (Reply (ErrMsg a b)) \<Rightarrow> Inl (BrokerErr a b)
      | Some (Reply msg) \<Rightarrow> Inr (Some msg))"

section \<open>The exported methods\<close>

text \<open>The name \<open>%T\<close> prints.\<close>

fun msg_type :: "broker_msg option \<Rightarrow> string" where
  "msg_type None = ''<nil>''"
| "msg_type (Some (IDSMsg i)) = ''smp.IDSMsg''"
| "msg_type (Some (MsgMsg m)) = ''smp.MsgMsg''"
| "msg_type (Some OKMsg) = ''smp.OKMsg''"
| "msg_type (Some PongMsg) = ''smp.PongMsg''"
| "msg_type (Some EndMsg) = ''smp.EndMsg''"
| "msg_type (Some (ErrMsg a b)) = ''smp.ErrMsg''"

definition unexpected :: "string \<Rightarrow> broker_msg option \<Rightarrow> go_err" where
  "unexpected f msg = Errorf f [AStr (msg_type msg)]"

definition Ping_finish :: "broker_msg option result \<Rightarrow> unit result" where
  "Ping_finish r = rbind r (\<lambda>msg. if msg = Some PongMsg then Inr ()
     else Inl (unexpected ''smp: PING expected PONG, got %T'' msg))"

definition Send_finish :: "broker_msg option result \<Rightarrow> unit result" where
  "Send_finish r = rbind r (\<lambda>msg. if msg = Some OKMsg then Inr ()
     else Inl (unexpected ''smp: SEND expected OK, got %T'' msg))"

definition Ack_finish :: "broker_msg option result \<Rightarrow> unit result" where
  "Ack_finish r = rbind r (\<lambda>msg. if msg = Some OKMsg then Inr ()
     else Inl (unexpected ''smp: ACK expected OK, got %T'' msg))"

definition NewQueue_request :: "new_queue_req \<Rightarrow> new_queue_req result" where
  "NewQueue_request req =
     (if SubscribeMode req = 0 then Inr (req\<lparr>SubscribeMode := SubscribeManual\<rparr>)
      else if SubscribeMode req = SubscribeManual then Inr req
      else if SubscribeMode req = SubscribeOnCreate
        then Inl (ErrNew ''smp: NewQueue with SubscribeMode=SubscribeOnCreate not yet supported (sub-buffering race); use SubscribeManual and call Subscribe(rcvID) afterward'')
      else Inl (Errorf ''smp: invalid SubscribeMode %#x'' [AInt (uint (SubscribeMode req))]))"

definition NewQueue_finish :: "broker_msg option result \<Rightarrow> ids_response result" where
  "NewQueue_finish r = rbind r (\<lambda>msg. case msg of Some (IDSMsg ids) \<Rightarrow> Inr ids
     | _ \<Rightarrow> Inl (unexpected ''smp: NEW expected IDS, got %T'' msg))"

definition Subscribe_register :: "queue_id \<Rightarrow> (client, nat) op" where
  "Subscribe_register rcvID c =
     (let ch = length (cl_messages c);
          c1 = c\<lparr>cl_messages := cl_messages c @ [make_chan 32]\<rparr>
      in if cl_closed c1 then (Inl (Sentinel ErrClientClosed), c1)
         else if map_of (cl_subs c1) rcvID \<noteq> None
           then (Inl (Errorf ''smp: already subscribed to queue %x'' [ABytes rcvID]), c1)
         else (Inr ch, c1\<lparr>cl_subs := AList.update rcvID ch (cl_subs c1)\<rparr>))"

text \<open>After \<open>send\<close> returned: keep the channel, push the inline message, or give up.\<close>

datatype sub_action = SubKeep | SubPush message | SubAbort go_err

definition Subscribe_finish :: "broker_msg option result \<Rightarrow> sub_action" where
  "Subscribe_finish r =
     (case r of
        Inl err \<Rightarrow> SubAbort err
      | Inr (Some OKMsg) \<Rightarrow> SubKeep
      | Inr (Some (MsgMsg m)) \<Rightarrow> SubPush m
      | Inr msg \<Rightarrow> SubAbort (unexpected ''smp: SUB expected OK or MSG, got %T'' msg))"

section \<open>The invariant\<close>

text \<open>
  What both maps promise: every key names a channel of the store in the state \<open>P\<close>, and no two
  keys name the same one.
\<close>

definition registry_ok :: "('k \<times> nat) list \<Rightarrow> 'a list \<Rightarrow> ('a \<Rightarrow> bool) \<Rightarrow> bool" where
  "registry_ok m s P \<longleftrightarrow>
     distinct (map fst m)
   \<and> (\<forall>k i. map_of m k = Some i \<longrightarrow> i < length s \<and> P (s ! i))
   \<and> (\<forall>k k' i. map_of m k = Some i \<longrightarrow> map_of m k' = Some i \<longrightarrow> k = k')"

lemma registry_lookup:
  "registry_ok m s P \<Longrightarrow> map_of m k = Some i \<Longrightarrow> i < length s \<and> P (s ! i)"
  by (simp add: registry_ok_def)

lemma registry_inj:
  "registry_ok m s P \<Longrightarrow> map_of m k = Some i \<Longrightarrow> map_of m k' = Some i \<Longrightarrow> k' = k"
  unfolding registry_ok_def by blast

lemma registry_delete: "registry_ok m s P \<Longrightarrow> registry_ok (AList.delete k m) s P"
  by (auto simp: registry_ok_def AList.delete_conv' AList.distinct_delete split: if_splits)

lemma registry_change:
  assumes "registry_ok m s P" "\<And>k. map_of m k = Some i \<Longrightarrow> P x"
  shows "registry_ok m (s[i := x]) P"
  unfolding registry_ok_def
proof (intro conjI allI impI)
  fix k j assume "map_of m k = Some j"
  with assms registry_lookup [OF assms(1), of k j] show "P (s[i := x] ! j)"
    by (cases "i = j") auto
qed (use assms(1) in \<open>auto simp: registry_ok_def\<close>)

lemma registry_take:
  assumes "registry_ok m s P" "map_of m k = Some i"
  shows "registry_ok (AList.delete k m) (s[i := x]) P"
proof (rule registry_change [OF registry_delete [OF assms(1)]])
  fix k' assume "map_of (AList.delete k m) k' = Some i"
  then have "map_of m k' = Some i \<and> k' \<noteq> k" by (auto simp: AList.delete_conv' split: if_splits)
  with registry_inj [OF assms] show "P x" by blast
qed

lemma registry_extend:
  assumes "registry_ok m s P"
  shows "registry_ok m (s @ [x]) P"
  using assms registry_lookup [OF assms] unfolding registry_ok_def
  by (auto simp: nth_append intro: less_SucI)

lemma registry_put:
  assumes "registry_ok m s P" "P x"
  shows "registry_ok (AList.update k (length s) m) (s @ [x]) P"
proof -
  have lt: "\<And>k i. map_of m k = Some i \<Longrightarrow> i < length s" using registry_lookup [OF assms(1)] by blast
  show ?thesis
    unfolding registry_ok_def
  proof (intro conjI allI impI)
    show "distinct (map fst (AList.update k (length s) m))"
      using assms(1) by (simp add: registry_ok_def AList.distinct_update)
  next
    fix k' i assume "map_of (AList.update k (length s) m) k' = Some i"
    then have "i = length s \<or> map_of m k' = Some i"
      by (auto simp: AList.update_conv' split: if_splits)
    then show "i < length (s @ [x])" "P ((s @ [x]) ! i)"
      using registry_lookup [OF assms(1)] assms(2) by (auto simp: nth_append intro: less_SucI)
  next
    fix k1 k2 i
    assume "map_of (AList.update k (length s) m) k1 = Some i" "map_of (AList.update k (length s) m) k2 = Some i"
    then show "k1 = k2"
      using lt registry_inj [OF assms(1)] by (auto simp: AList.update_conv' split: if_splits)
  qed
qed

text \<open>
  A registered reply channel is as \<open>send\<close> made it, open and empty; a registered subscriber
  channel is open; a closed client has registered nothing.
\<close>

definition maps_ok :: "client \<Rightarrow> bool" where
  "maps_ok c \<longleftrightarrow> registry_ok (cl_sentCmds c) (cl_results c) (\<lambda>ch. ch = make_chan 1)
     \<and> registry_ok (cl_subs c) (cl_messages c) (\<lambda>ch. \<not> ch_closed ch)"

definition client_inv :: "client \<Rightarrow> bool" where
  "client_inv c \<longleftrightarrow> maps_ok c \<and> (cl_closed c \<longrightarrow> cl_sentCmds c = [] \<and> cl_subs c = [])"

lemma maps_okD:
  assumes "maps_ok c"
  shows "registry_ok (cl_sentCmds c) (cl_results c) (\<lambda>ch. ch = make_chan 1)"
    "registry_ok (cl_subs c) (cl_messages c) (\<lambda>ch. \<not> ch_closed ch)"
  using assms by (simp_all add: maps_ok_def)

lemma maps_ok_closed [simp]: "maps_ok (c\<lparr>cl_closed := b\<rparr>) = maps_ok c"
  "maps_ok (c\<lparr>cl_readerDone := b\<rparr>) = maps_ok c"
  by (simp_all add: maps_ok_def)

section \<open>The critical sections one by one\<close>

definition answered :: "broker_result \<Rightarrow> broker_result chan" where
  "answered r = \<lparr>ch_buf = [r], ch_cap = 1, ch_closed = True\<rparr>"

definition closed_chan :: "'a chan \<Rightarrow> 'a chan" where
  "closed_chan ch = ch\<lparr>ch_closed := True\<rparr>"

definition pushed :: "message \<Rightarrow> message chan \<Rightarrow> message chan" where
  "pushed m ch = (if length (ch_buf ch) < ch_cap ch then ch\<lparr>ch_buf := ch_buf ch @ [m]\<rparr> else ch)"

lemma pushed_closed [simp]: "ch_closed (pushed m ch) = ch_closed ch"
  by (simp add: pushed_def)

lemma answer_cmd_ok:
  assumes "maps_ok c" "map_of (cl_sentCmds c) cid = Some i"
  shows "answer_cmd r cid i c =
    Done (c\<lparr>cl_results := (cl_results c)[i := answered r], cl_sentCmds := AList.delete cid (cl_sentCmds c)\<rparr>)"
  using registry_lookup [OF maps_okD(1) [OF assms(1)] assms(2)]
  by (simp add: answer_cmd_def on_result_def at_chan_def chan_send_def chan_close_def make_chan_def
      answered_def delete_cmd_def)

lemma close_sub_ok:
  assumes "maps_ok c" "map_of (cl_subs c) key = Some i"
  shows "close_sub key i c =
    Done (c\<lparr>cl_messages := (cl_messages c)[i := closed_chan (cl_messages c ! i)],
            cl_subs := AList.delete key (cl_subs c)\<rparr>)"
  using registry_lookup [OF maps_okD(2) [OF assms(1)] assms(2)]
  by (simp add: close_sub_def on_messages_def at_chan_def chan_close_def delete_sub_def closed_chan_def)

lemma push_ok:
  assumes "maps_ok c" "map_of (cl_subs c) key = Some i"
  shows "on_messages i (chan_try_send m) c =
    Done (c\<lparr>cl_messages := (cl_messages c)[i := pushed m (cl_messages c ! i)]\<rparr>)"
  using registry_lookup [OF maps_okD(2) [OF assms(1)] assms(2)]
  by (simp add: on_messages_def at_chan_def chan_try_send_open pushed_def)

lemma maps_ok_answer:
  assumes "maps_ok c" "map_of (cl_sentCmds c) cid = Some i"
  shows "maps_ok (c\<lparr>cl_results := (cl_results c)[i := ch], cl_sentCmds := AList.delete cid (cl_sentCmds c)\<rparr>)"
  using registry_take [OF maps_okD(1) [OF assms(1)] assms(2)] maps_okD(2) [OF assms(1)]
  by (simp add: maps_ok_def)

lemma maps_ok_close_sub:
  assumes "maps_ok c" "map_of (cl_subs c) key = Some i"
  shows "maps_ok (c\<lparr>cl_messages := (cl_messages c)[i := ch], cl_subs := AList.delete key (cl_subs c)\<rparr>)"
  using registry_take [OF maps_okD(2) [OF assms(1)] assms(2)] maps_okD(1) [OF assms(1)]
  by (simp add: maps_ok_def)

lemma maps_ok_push:
  assumes "maps_ok c" "map_of (cl_subs c) key = Some i"
  shows "maps_ok (c\<lparr>cl_messages := (cl_messages c)[i := pushed m (cl_messages c ! i)]\<rparr>)"
proof -
  have "\<not> ch_closed (cl_messages c ! i)"
    using registry_lookup [OF maps_okD(2) [OF assms(1)] assms(2)] by simp
  then show ?thesis
    using registry_change [OF maps_okD(2) [OF assms(1)], of i "pushed m (cl_messages c ! i)"]
      maps_okD(1) [OF assms(1)] by (simp add: maps_ok_def)
qed

lemma maps_ok_delete_cmd: "maps_ok c \<Longrightarrow> maps_ok (delete_cmd cid c)"
  by (simp add: maps_ok_def delete_cmd_def registry_delete)

lemma maps_ok_delete_sub: "maps_ok c \<Longrightarrow> maps_ok (delete_sub key c)"
  by (simp add: maps_ok_def delete_sub_def registry_delete)

section \<open>Draining the maps\<close>

definition mark :: "nat set \<Rightarrow> ('a \<Rightarrow> 'a) \<Rightarrow> 'a list \<Rightarrow> 'a list" where
  "mark I f s = map (\<lambda>i. if i \<in> I then f (s ! i) else s ! i) [0..<length s]"

definition named :: "'k set \<Rightarrow> ('k \<times> nat) list \<Rightarrow> nat set" where
  "named K m = {i. \<exists>k\<in>K. map_of m k = Some i}"

lemma length_mark [simp]: "length (mark I f s) = length s"
  by (simp add: mark_def)

lemma nth_mark [simp]: "i < length s \<Longrightarrow> mark I f s ! i = (if i \<in> I then f (s ! i) else s ! i)"
  by (simp add: mark_def)

lemma mark_empty [simp]: "mark {} f s = s"
  by (simp add: mark_def map_nth)

lemma mark_insert: "i \<notin> I \<Longrightarrow> mark (insert i I) f s = mark I f (s[i := f (s ! i)])"
  by (auto simp: mark_def nth_list_update intro!: map_cong)

lemma named_empty [simp]: "named {} m = {}" "named K [] = {}"
  by (simp_all add: named_def)

lemma named_insert_None: "map_of m k = None \<Longrightarrow> named (insert k K) m = named K m"
  by (auto simp: named_def)

lemma named_insert_Some:
  assumes "registry_ok m s P" "map_of m k = Some i"
  shows "named (insert k K) m = insert i (named K (AList.delete k m))"
    "i \<notin> named K (AList.delete k m)"
proof -
  show "named (insert k K) m = insert i (named K (AList.delete k m))"
    using assms(2) by (auto simp: named_def AList.delete_conv') (metis option.inject)
  show "i \<notin> named K (AList.delete k m)"
  proof
    assume "i \<in> named K (AList.delete k m)"
    then obtain k' where "map_of m k' = Some i" "k' \<noteq> k"
      by (auto simp: named_def AList.delete_conv' split: if_splits)
    with registry_inj [OF assms] show False by blast
  qed
qed

lemma filter_keys_insert:
  "filter (\<lambda>p. fst p \<notin> insert k K) m = filter (\<lambda>p. fst p \<notin> K) (AList.delete k m)"
  by (induction m) auto

lemma filter_keys_None:
  "map_of m k = None \<Longrightarrow> filter (\<lambda>p. fst p \<notin> insert k K) m = filter (\<lambda>p. fst p \<notin> K) m"
  unfolding filter_keys_insert by (simp add: map_of_eq_None_iff)

lemma drain_cmds_result:
  assumes "maps_ok c"
  shows "drain_cmds r cids c = Done (c\<lparr>
      cl_sentCmds := filter (\<lambda>p. fst p \<notin> set cids) (cl_sentCmds c),
      cl_results := mark (named (set cids) (cl_sentCmds c)) (\<lambda>_. answered r) (cl_results c)\<rparr>)"
  using assms
proof (induction cids arbitrary: c)
  case (Cons cid cids)
  show ?case
  proof (cases "map_of (cl_sentCmds c) cid")
    case None
    then show ?thesis
      using Cons by (simp add: named_insert_None filter_keys_None del: insert_iff)
  next
    case (Some i)
    note sets = named_insert_Some [OF maps_okD(1) [OF Cons.prems] Some, of "set cids"]
    show ?thesis
      using Some Cons.IH [OF maps_ok_answer [OF Cons.prems Some]]
      by (simp add: answer_cmd_ok [OF Cons.prems Some] sets(1) mark_insert [OF sets(2)]
          filter_keys_insert del: insert_iff)
  qed
qed simp

lemma drain_subs_result:
  assumes "maps_ok c"
  shows "drain_subs keys c = Done (c\<lparr>
      cl_subs := filter (\<lambda>p. fst p \<notin> set keys) (cl_subs c),
      cl_messages := mark (named (set keys) (cl_subs c)) closed_chan (cl_messages c)\<rparr>)"
  using assms
proof (induction keys arbitrary: c)
  case (Cons key keys)
  show ?case
  proof (cases "map_of (cl_subs c) key")
    case None
    then show ?thesis
      using Cons by (simp add: named_insert_None filter_keys_None del: insert_iff)
  next
    case (Some i)
    note sets = named_insert_Some [OF maps_okD(2) [OF Cons.prems] Some, of "set keys"]
    show ?thesis
      using Some Cons.IH [OF maps_ok_close_sub [OF Cons.prems Some]]
      by (simp add: close_sub_ok [OF Cons.prems Some] sets(1) mark_insert [OF sets(2)]
          filter_keys_insert del: insert_iff)
  qed
qed simp

text \<open>The iteration orders \<open>range\<close> can take: the keys of the map, each once.\<close>

definition iterates :: "'k list \<Rightarrow> ('k \<times> nat) list \<Rightarrow> bool" where
  "iterates ks m \<longleftrightarrow> distinct ks \<and> set ks = fst ` set m"

text \<open>The state after a drain with error \<open>r\<close>.\<close>

definition drained :: "broker_result \<Rightarrow> client \<Rightarrow> client" where
  "drained r c = c\<lparr>cl_closed := True, cl_sentCmds := [], cl_subs := [],
     cl_results := mark (snd ` set (cl_sentCmds c)) (\<lambda>_. answered r) (cl_results c),
     cl_messages := mark (snd ` set (cl_subs c)) closed_chan (cl_messages c)\<rparr>"

lemma iterates_named:
  assumes "registry_ok m s P" "iterates ks m"
  shows "named (set ks) m = snd ` set m" "filter (\<lambda>p. fst p \<notin> set ks) m = []"
proof -
  have d: "distinct (map fst m)" using assms(1) by (simp add: registry_ok_def)
  show "named (set ks) m = snd ` set m"
    using assms(2) d by (auto simp: named_def iterates_def image_iff) (metis fst_conv snd_conv)+
  show "filter (\<lambda>p. fst p \<notin> set ks) m = []"
    using assms(2) by (auto simp: iterates_def filter_empty_conv)
qed

lemma drain_both:
  assumes "maps_ok c" "iterates cids (cl_sentCmds c)" "iterates keys (cl_subs c)"
  shows "obind (drain_cmds r cids (c\<lparr>cl_closed := True\<rparr>)) (drain_subs keys) = Done (drained r c)"
proof -
  let ?c0 = "c\<lparr>cl_closed := True\<rparr>"
  have m0: "maps_ok ?c0" using assms(1) by simp
  note d1 = drain_cmds_result [OF m0, of r cids]
  note n1 = iterates_named [OF maps_okD(1) [OF assms(1)] assms(2)]
  note n2 = iterates_named [OF maps_okD(2) [OF assms(1)] assms(3)]
  let ?c1 = "?c0\<lparr>cl_sentCmds := [], cl_results := mark (snd ` set (cl_sentCmds c)) (\<lambda>_. answered r) (cl_results c)\<rparr>"
  have "maps_ok ?c1"
    using maps_okD(2) [OF assms(1)] by (simp add: maps_ok_def registry_ok_def)
  from drain_subs_result [OF this, of keys] d1 n1 n2 show ?thesis
    by (simp add: drained_def)
qed

lemma drained_inv: "maps_ok (drained r c)" "client_inv (drained r c)" "cl_closed (drained r c)"
  by (simp_all add: client_inv_def maps_ok_def drained_def registry_ok_def)

lemma handleReadError_eq:
  assumes "maps_ok c" "iterates cids (cl_sentCmds c)" "iterates keys (cl_subs c)"
  shows "handleReadError err cids keys c =
    Done (if cl_closed c then c else drained (Failed (wrapf ''smp: read: %w'' err)) c)"
  by (simp add: handleReadError_def drain_both [OF assms])

lemma Close_locked_eq:
  assumes "maps_ok c" "iterates cids (cl_sentCmds c)" "iterates keys (cl_subs c)"
  shows "Close_locked cids keys c =
    Done (if cl_closed c then (False, c) else (True, drained (Failed (Sentinel ErrClientClosed)) c))"
  by (simp add: Close_locked_def drain_both [OF assms])

section \<open>What the reader does to the state\<close>

text \<open>The server's message in a transmission, if it can be decoded.\<close>

definition msg_of :: "client \<Rightarrow> transmission \<Rightarrow> broker_msg option" where
  "msg_of c tx = (case DecodeBrokerMsg (hp_Version (cl_params c)) (tx_Command tx) of
     Inl _ \<Rightarrow> None | Inr msg \<Rightarrow> Some msg)"

definition dispatched :: "transmission \<Rightarrow> client \<Rightarrow> client" where
  "dispatched tx c =
     (case msg_of c tx of
        None \<Rightarrow> c
      | Some msg \<Rightarrow>
          if tx_CorrID tx = NoCorrID then
            (case map_of (cl_subs c) (tx_EntityID tx) of
               None \<Rightarrow> c
             | Some i \<Rightarrow>
                 (case msg of
                    MsgMsg m \<Rightarrow> c\<lparr>cl_messages := (cl_messages c)[i := pushed m (cl_messages c ! i)]\<rparr>
                  | EndMsg \<Rightarrow> c\<lparr>cl_messages := (cl_messages c)[i := closed_chan (cl_messages c ! i)],
                       cl_subs := AList.delete (tx_EntityID tx) (cl_subs c)\<rparr>
                  | _ \<Rightarrow> c))
          else
            (case map_of (cl_sentCmds c) (tx_CorrID tx) of
               Some i \<Rightarrow> c\<lparr>cl_results := (cl_results c)[i := answered (Reply msg)],
                  cl_sentCmds := AList.delete (tx_CorrID tx) (cl_sentCmds c)\<rparr>
             | None \<Rightarrow> c))"

lemma dispatch_eq: "maps_ok c \<Longrightarrow> dispatch tx c = Done (dispatched tx c)"
  by (auto simp: dispatch_def dispatched_def msg_of_def answer_cmd_ok close_sub_ok push_ok
      split: sum.split option.split broker_msg.split)

lemma maps_ok_dispatched: "maps_ok c \<Longrightarrow> maps_ok (dispatched tx c)"
  by (auto simp: dispatched_def maps_ok_answer maps_ok_close_sub maps_ok_push
      split: option.split broker_msg.split)

lemma dispatched_same [simp]:
  "cl_params (dispatched tx c) = cl_params c" "cl_closed (dispatched tx c) = cl_closed c"
  "cl_readerDone (dispatched tx c) = cl_readerDone c"
  "length (cl_results (dispatched tx c)) = length (cl_results c)"
  "length (cl_messages (dispatched tx c)) = length (cl_messages c)"
  by (simp_all add: dispatched_def split: option.split broker_msg.split)

lemma msg_of_dispatched [simp]: "msg_of (dispatched tx c) t = msg_of c t"
  by (simp add: msg_of_def)

lemma dispatched_shrinks:
  "map_of (cl_sentCmds (dispatched tx c)) k = Some i \<Longrightarrow> map_of (cl_sentCmds c) k = Some i"
  "map_of (cl_subs (dispatched tx c)) q = Some j \<Longrightarrow> map_of (cl_subs c) q = Some j"
  by (auto simp: dispatched_def AList.delete_conv' split: option.splits broker_msg.splits if_splits)

lemma client_inv_dispatched: "client_inv c \<Longrightarrow> client_inv (dispatched tx c)"
  using maps_ok_dispatched [of c tx]
  by (auto simp: client_inv_def dispatched_def split: option.splits broker_msg.splits)

text \<open>A channel that is not registered is never touched.\<close>

lemma dispatched_unregistered:
  assumes "maps_ok c"
  shows "(\<And>k. map_of (cl_sentCmds c) k \<noteq> Some i) \<Longrightarrow> cl_results (dispatched tx c) ! i = cl_results c ! i"
    "(\<And>k. map_of (cl_subs c) k \<noteq> Some j) \<Longrightarrow> cl_messages (dispatched tx c) ! j = cl_messages c ! j"
proof -
  assume a: "\<And>k. map_of (cl_sentCmds c) k \<noteq> Some i"
  show "cl_results (dispatched tx c) ! i = cl_results c ! i"
    using a by (auto simp: dispatched_def split: option.split broker_msg.split) (metis nth_list_update_neq)+
next
  assume a: "\<And>k. map_of (cl_subs c) k \<noteq> Some j"
  show "cl_messages (dispatched tx c) ! j = cl_messages c ! j"
    using a by (auto simp: dispatched_def split: option.split broker_msg.split) (metis nth_list_update_neq)+
qed

text \<open>One transmission, seen from one registered reply channel and one registered queue.\<close>

lemma dispatched_reply:
  assumes "maps_ok c" "map_of (cl_sentCmds c) cid = Some i" "cid \<noteq> NoCorrID"
  shows "(case msg_of c tx of
      Some msg \<Rightarrow> if tx_CorrID tx = cid
        then map_of (cl_sentCmds (dispatched tx c)) cid = None
          \<and> cl_results (dispatched tx c) ! i = answered (Reply msg)
        else map_of (cl_sentCmds (dispatched tx c)) cid = Some i
    | None \<Rightarrow> map_of (cl_sentCmds (dispatched tx c)) cid = Some i)"
  using assms registry_lookup [OF maps_okD(1) [OF assms(1)] assms(2)]
  by (auto simp: dispatched_def AList.delete_conv' split: option.split broker_msg.split)

definition sub_event :: "client \<Rightarrow> bytes \<Rightarrow> transmission \<Rightarrow> broker_msg option" where
  "sub_event c key tx =
     (if tx_CorrID tx = NoCorrID \<and> tx_EntityID tx = key
      then (case msg_of c tx of Some (MsgMsg m) \<Rightarrow> Some (MsgMsg m) | Some EndMsg \<Rightarrow> Some EndMsg | _ \<Rightarrow> None)
      else None)"

lemma dispatched_sub:
  assumes "maps_ok c" "map_of (cl_subs c) key = Some i"
  shows "(case sub_event c key tx of
      Some (MsgMsg m) \<Rightarrow> map_of (cl_subs (dispatched tx c)) key = Some i
        \<and> cl_messages (dispatched tx c) ! i = pushed m (cl_messages c ! i)
    | Some _ \<Rightarrow> (\<forall>k. map_of (cl_subs (dispatched tx c)) k \<noteq> Some i)
        \<and> cl_messages (dispatched tx c) ! i = closed_chan (cl_messages c ! i)
    | None \<Rightarrow> map_of (cl_subs (dispatched tx c)) key = Some i
        \<and> cl_messages (dispatched tx c) ! i = cl_messages c ! i)"
proof -
  note look = registry_lookup [OF maps_okD(2) [OF assms(1)] assms(2)]
  have inj: "map_of (cl_subs c) k = Some i \<Longrightarrow> k = key" for k
    using registry_inj [OF maps_okD(2) [OF assms(1)] assms(2)] by blast
  have other: "map_of (cl_subs c) q = Some j \<Longrightarrow> q \<noteq> key \<Longrightarrow> j \<noteq> i" for q j
    using inj by blast
  have gone: "\<forall>k. map_of (AList.delete key (cl_subs c)) k \<noteq> Some i"
  proof
    fix k show "map_of (AList.delete key (cl_subs c)) k \<noteq> Some i"
      using inj [of k] by (cases "k = key") (auto simp: AList.delete_conv')
  qed
  show ?thesis
  proof (cases "msg_of c tx")
    case None
    then show ?thesis using assms(2) by (simp add: sub_event_def dispatched_def)
  next
    case (Some msg)
    consider "tx_CorrID tx \<noteq> NoCorrID" | "tx_CorrID tx = NoCorrID" "tx_EntityID tx = key"
      | "tx_CorrID tx = NoCorrID" "tx_EntityID tx \<noteq> key" by blast
    then show ?thesis
    proof cases
      case 1
      with Some assms(2) show ?thesis by (simp add: sub_event_def dispatched_def split: option.split)
    next
      case 2
      then show ?thesis
        using Some assms(2) look gone
        by (cases msg) (simp_all add: sub_event_def dispatched_def)
    next
      case 3
      show ?thesis
      proof (cases "map_of (cl_subs c) (tx_EntityID tx)")
        case None
        with 3 Some assms(2) show ?thesis by (simp add: sub_event_def dispatched_def)
      next
        case j: (Some j)
        with other 3 have "j \<noteq> i" by blast
        with 3 Some j assms(2) show ?thesis
          by (cases msg) (simp_all add: sub_event_def dispatched_def AList.delete_conv')
      qed
    qed
  qed
qed

section \<open>A whole block\<close>

fun dispatched_all :: "transmission list \<Rightarrow> client \<Rightarrow> client" where
  "dispatched_all [] c = c"
| "dispatched_all (tx # txs) c = dispatched_all txs (dispatched tx c)"

lemma dispatch_all_eq: "maps_ok c \<Longrightarrow> dispatch_all txs c = Done (dispatched_all txs c)"
  by (induction txs arbitrary: c) (simp_all add: dispatch_eq maps_ok_dispatched)

lemma dispatched_all_facts:
  "client_inv c \<Longrightarrow> client_inv (dispatched_all txs c) \<and> cl_params (dispatched_all txs c) = cl_params c
    \<and> cl_closed (dispatched_all txs c) = cl_closed c
    \<and> cl_readerDone (dispatched_all txs c) = cl_readerDone c
    \<and> length (cl_results (dispatched_all txs c)) = length (cl_results c)
    \<and> length (cl_messages (dispatched_all txs c)) = length (cl_messages c)"
  by (induction txs arbitrary: c) (simp_all add: client_inv_dispatched)

definition block_txs :: "client \<Rightarrow> bytes \<Rightarrow> transmission list" where
  "block_txs c block = (case DecodeBlock (hp_Version (cl_params c)) (hp_SessID (cl_params c)) block of
     Inl _ \<Rightarrow> [] | Inr txs \<Rightarrow> txs)"

lemma handle_block_eq: "maps_ok c \<Longrightarrow> handle_block block c = Done (dispatched_all (block_txs c block) c)"
  by (simp add: handle_block_def block_txs_def dispatch_all_eq split: sum.split)

lemma dispatched_all_unregistered:
  assumes "maps_ok c"
  shows "(\<And>k. map_of (cl_sentCmds c) k \<noteq> Some i) \<Longrightarrow> cl_results (dispatched_all txs c) ! i = cl_results c ! i"
    "(\<And>k. map_of (cl_subs c) k \<noteq> Some j) \<Longrightarrow> cl_messages (dispatched_all txs c) ! j = cl_messages c ! j"
proof -
  show "(\<And>k. map_of (cl_sentCmds c) k \<noteq> Some i) \<Longrightarrow> cl_results (dispatched_all txs c) ! i = cl_results c ! i"
    using assms
  proof (induction txs arbitrary: c)
    case (Cons tx txs)
    have "cl_results (dispatched tx c) ! i = cl_results c ! i"
      using Cons.prems by (intro dispatched_unregistered)
    with Cons.IH [of "dispatched tx c"] Cons.prems maps_ok_dispatched dispatched_shrinks(1) show ?case
      by (metis dispatched_all.simps(2))
  qed simp
  show "(\<And>k. map_of (cl_subs c) k \<noteq> Some j) \<Longrightarrow> cl_messages (dispatched_all txs c) ! j = cl_messages c ! j"
    using assms
  proof (induction txs arbitrary: c)
    case (Cons tx txs)
    have "cl_messages (dispatched tx c) ! j = cl_messages c ! j"
      using Cons.prems by (intro dispatched_unregistered)
    with Cons.IH [of "dispatched tx c"] Cons.prems maps_ok_dispatched dispatched_shrinks(2) show ?case
      by (metis dispatched_all.simps(2))
  qed simp
qed

text \<open>Whatever bytes a block holds, the reader gets through it without panicking and without
  blocking while it holds the mutex: \<open>handle_block\<close> completes on every block, keeps the
  invariant, adds no channel and touches none that is not registered, so a channel handed back
  to its caller never changes again.\<close>

lemma reader_never_stuck:
  assumes "client_inv c"
  shows "\<exists>c'. handle_block block c = Done c' \<and> client_inv c'
    \<and> cl_closed c' = cl_closed c \<and> cl_params c' = cl_params c
    \<and> length (cl_results c') = length (cl_results c) \<and> length (cl_messages c') = length (cl_messages c)
    \<and> (\<forall>i. (\<forall>k. map_of (cl_sentCmds c) k \<noteq> Some i) \<longrightarrow> cl_results c' ! i = cl_results c ! i)
    \<and> (\<forall>i. (\<forall>k. map_of (cl_subs c) k \<noteq> Some i) \<longrightarrow> cl_messages c' ! i = cl_messages c ! i)"
proof -
  have m: "maps_ok c" using assms by (simp add: client_inv_def)
  show ?thesis
    using dispatched_all_facts [OF assms, of "block_txs c block"]
      dispatched_all_unregistered [OF m, of _ "block_txs c block"]
    by (intro exI [of _ "dispatched_all (block_txs c block) c"])
      (simp add: handle_block_eq [OF m])
qed

text \<open>The first decodable message of a list of transmissions for a correlation id.\<close>

fun first_reply :: "client \<Rightarrow> corr_id \<Rightarrow> transmission list \<Rightarrow> broker_msg option" where
  "first_reply c cid [] = None"
| "first_reply c cid (tx # txs) =
     (if tx_CorrID tx = cid \<and> msg_of c tx \<noteq> None then msg_of c tx else first_reply c cid txs)"

lemma first_reply_dispatched [simp]: "first_reply (dispatched tx c) cid txs = first_reply c cid txs"
  by (induction txs) auto

lemma reply_delivered:
  assumes "maps_ok c" "map_of (cl_sentCmds c) cid = Some i" "cid \<noteq> NoCorrID"
  shows "(case first_reply c cid txs of
      Some msg \<Rightarrow> map_of (cl_sentCmds (dispatched_all txs c)) cid = None
        \<and> cl_results (dispatched_all txs c) ! i = answered (Reply msg)
    | None \<Rightarrow> map_of (cl_sentCmds (dispatched_all txs c)) cid = Some i
        \<and> cl_results (dispatched_all txs c) ! i = make_chan 1)"
  using assms(1,2)
proof (induction txs arbitrary: c)
  case Nil
  then show ?case using registry_lookup [OF maps_okD(1) [OF Nil(1)] Nil(2)] by simp
next
  case (Cons tx txs)
  note one = dispatched_reply [OF Cons.prems assms(3), of tx]
  have m: "maps_ok (dispatched tx c)" using Cons.prems(1) by (rule maps_ok_dispatched)
  show ?case
  proof (cases "tx_CorrID tx = cid \<and> msg_of c tx \<noteq> None")
    case True
    then obtain msg where msg: "msg_of c tx = Some msg" by auto
    have gone: "map_of (cl_sentCmds (dispatched tx c)) cid = None"
      and res: "cl_results (dispatched tx c) ! i = answered (Reply msg)"
      using one True msg by simp_all
    have un: "map_of (cl_sentCmds (dispatched tx c)) k \<noteq> Some i" for k
      using dispatched_shrinks(1) [of tx c k i] registry_inj [OF maps_okD(1) [OF Cons.prems(1)] Cons.prems(2)] gone
      by (metis option.distinct(1))
    have keep: "map_of (cl_sentCmds (dispatched_all txs (dispatched tx c))) cid = None" for txs
    proof -
      have "map_of (cl_sentCmds d) cid = None \<Longrightarrow> map_of (cl_sentCmds (dispatched_all txs d)) cid = None" for d
      proof (induction txs arbitrary: d)
        case (Cons t ts)
        then have "map_of (cl_sentCmds (dispatched t d)) cid = None"
          using dispatched_shrinks(1) [of t d cid] by (metis not_Some_eq)
        from Cons.IH [OF this] show ?case by simp
      qed simp
      with gone show ?thesis by blast
    qed
    show ?thesis
      using True msg res keep dispatched_all_unregistered(1) [OF m un, of txs] by simp
  next
    case False
    then have "map_of (cl_sentCmds (dispatched tx c)) cid = Some i"
      using one by (cases "msg_of c tx") auto
    note rest = Cons.IH [OF m this]
    have "first_reply c cid (tx # txs) = first_reply c cid txs" using False by auto
    with rest show ?thesis by (cases "first_reply c cid txs") simp_all
  qed
qed

text \<open>C1: A reply goes to the call that waits for it and to nobody else: after a block, the
  channel registered for a correlation id holds exactly the first message of the block with
  that id, closed and unregistered, so a later reply with the same id is dropped; without such
  a message it is still registered and empty.\<close>

theorem reply_reaches_its_caller:
  assumes "client_inv c" and "map_of (cl_sentCmds c) cid = Some i" and "cid \<noteq> NoCorrID"
    and "DecodeBlock (hp_Version (cl_params c)) (hp_SessID (cl_params c)) block = Inr txs"
  shows "\<exists>c'. handle_block block c = Done c'
    \<and> map_of (cl_sentCmds c') cid = (if first_reply c cid txs = None then Some i else None)
    \<and> cl_results c' ! i = (case first_reply c cid txs of
        None \<Rightarrow> make_chan 1 | Some msg \<Rightarrow> answered (Reply msg))"
proof -
  have m: "maps_ok c" using assms(1) by (simp add: client_inv_def)
  have "block_txs c block = txs" using assms(4) by (simp add: block_txs_def)
  with reply_delivered [OF m assms(2,3), of txs] handle_block_eq [OF m, of block] show ?thesis
    by (cases "first_reply c cid txs") simp_all
qed

section \<open>Delivery to a subscriber\<close>

text \<open>The messages pushed for a queue up to the first END, and whether there is one.\<close>

fun sub_events :: "client \<Rightarrow> bytes \<Rightarrow> transmission list \<Rightarrow> message list \<times> bool" where
  "sub_events c key [] = ([], False)"
| "sub_events c key (tx # txs) =
     (case sub_event c key tx of
        Some (MsgMsg m) \<Rightarrow> (m # fst (sub_events c key txs), snd (sub_events c key txs))
      | Some _ \<Rightarrow> ([], True)
      | None \<Rightarrow> sub_events c key txs)"

lemma sub_event_dispatched [simp]: "sub_event (dispatched tx c) key t = sub_event c key t"
  by (simp add: sub_event_def)

lemma sub_events_dispatched [simp]: "sub_events (dispatched tx c) key txs = sub_events c key txs"
  by (induction txs) (simp_all split: option.split broker_msg.split)

definition delivered :: "message list \<Rightarrow> bool \<Rightarrow> message chan \<Rightarrow> message chan" where
  "delivered ms fin ch = ch\<lparr>ch_buf := take (ch_cap ch) (ch_buf ch @ ms), ch_closed := fin\<rparr>"

lemma delivered_pushed:
  "length (ch_buf ch) \<le> ch_cap ch \<Longrightarrow> \<not> ch_closed ch \<Longrightarrow> delivered ms fin (pushed m ch) = delivered (m # ms) fin ch"
  by (simp add: delivered_def pushed_def take_Cons')

lemma sub_event_cases:
  "sub_event c key tx = None \<or> (\<exists>p. sub_event c key tx = Some (MsgMsg p)) \<or> sub_event c key tx = Some EndMsg"
  by (simp add: sub_event_def split: option.split broker_msg.split)

lemma pushed_cap: "length (ch_buf ch) \<le> ch_cap ch \<Longrightarrow> length (ch_buf (pushed m ch)) \<le> ch_cap (pushed m ch)"
  by (simp add: pushed_def)

lemma messages_delivered:
  assumes "maps_ok c" "map_of (cl_subs c) key = Some i"
    "length (ch_buf (cl_messages c ! i)) \<le> ch_cap (cl_messages c ! i)"
  shows "cl_messages (dispatched_all txs c) ! i
    = delivered (fst (sub_events c key txs)) (snd (sub_events c key txs)) (cl_messages c ! i)"
  using assms
proof (induction txs arbitrary: c)
  case Nil
  with registry_lookup [OF maps_okD(2) [OF Nil(1)] Nil(2)] show ?case by (simp add: delivered_def)
next
  case (Cons tx txs)
  note one = dispatched_sub [OF Cons.prems(1,2), of tx]
  have m: "maps_ok (dispatched tx c)" using Cons.prems(1) by (rule maps_ok_dispatched)
  have open': "\<not> ch_closed (cl_messages c ! i)"
    using registry_lookup [OF maps_okD(2) [OF Cons.prems(1)] Cons.prems(2)] by simp
  consider "sub_event c key tx = None" | p where "sub_event c key tx = Some (MsgMsg p)"
    | "sub_event c key tx = Some EndMsg"
    using sub_event_cases [of c key tx] by (elim disjE exE)
  then show ?case
  proof cases
    case 1
    with one Cons.IH [OF m] Cons.prems(3) show ?thesis by simp
  next
    case (2 p)
    with one have "map_of (cl_subs (dispatched tx c)) key = Some i"
      "cl_messages (dispatched tx c) ! i = pushed p (cl_messages c ! i)" by simp_all
    with Cons.IH [OF m] 2 pushed_cap [OF Cons.prems(3)] delivered_pushed [OF Cons.prems(3) open']
    show ?thesis by simp
  next
    case 3
    with one have "\<And>k. map_of (cl_subs (dispatched tx c)) k \<noteq> Some i"
      "cl_messages (dispatched tx c) ! i = closed_chan (cl_messages c ! i)" by simp_all
    with dispatched_all_unregistered(2) [OF m, of i txs] 3 Cons.prems(3) show ?thesis
      by (simp add: delivered_def closed_chan_def)
  qed
qed

text \<open>C21: A subscriber's channel receives exactly the messages the server pushes for its queue,
  in order, up to the first END, which closes it; the only loss is what does not fit behind the
  messages still in the buffer. Pushes for other queues and replies never reach it.\<close>

theorem subscriber_receives_in_order:
  assumes "client_inv c" and "map_of (cl_subs c) key = Some i"
    and "length (ch_buf (cl_messages c ! i)) \<le> ch_cap (cl_messages c ! i)"
    and "DecodeBlock (hp_Version (cl_params c)) (hp_SessID (cl_params c)) block = Inr txs"
  shows "\<exists>c'. handle_block block c = Done c'
    \<and> cl_messages c' ! i = (cl_messages c ! i)\<lparr>
        ch_buf := take (ch_cap (cl_messages c ! i)) (ch_buf (cl_messages c ! i) @ fst (sub_events c key txs)),
        ch_closed := snd (sub_events c key txs)\<rparr>"
proof -
  have m: "maps_ok c" using assms(1) by (simp add: client_inv_def)
  have "block_txs c block = txs" using assms(4) by (simp add: block_txs_def)
  with messages_delivered [OF m assms(2,3), of txs] handle_block_eq [OF m, of block] show ?thesis
    by (simp add: delivered_def)
qed

section \<open>Closing\<close>

text \<open>C20: \<open>Close\<close> and a read error settle everything at once, in whatever order Go ranges over
  the maps: every waiting call's channel holds exactly one error and is closed, every
  subscriber's channel is closed with the messages it holds, both maps are empty, no other
  channel changes, and no step of it panics or blocks; on a closed client both do nothing.\<close>

theorem closing_settles_everything:
  assumes "client_inv c" and "iterates cids (cl_sentCmds c)" and "iterates keys (cl_subs c)"
  shows "Close_locked cids keys c =
      Done (if cl_closed c then (False, c) else (True, drained (Failed (Sentinel ErrClientClosed)) c))
    \<and> handleReadError err cids keys c =
      Done (if cl_closed c then c else drained (Failed (wrapf ''smp: read: %w'' err)) c)
    \<and> client_inv (drained r c)"
proof -
  have m: "maps_ok c" using assms(1) by (simp add: client_inv_def)
  show ?thesis
    by (simp add: Close_locked_eq [OF m assms(2,3)] handleReadError_eq [OF m assms(2,3)] drained_inv)
qed

section \<open>The senders' critical sections\<close>

lemma send_register_open:
  "\<not> cl_closed c \<Longrightarrow> send_register cid c = (Inr (length (cl_results c)),
     c\<lparr>cl_results := cl_results c @ [make_chan 1],
       cl_sentCmds := AList.update cid (length (cl_results c)) (cl_sentCmds c)\<rparr>)"
  by (simp add: send_register_def Let_def)

lemma send_register_closed:
  "cl_closed c \<Longrightarrow> send_register cid c =
     (Inl (Sentinel ErrClientClosed), c\<lparr>cl_results := cl_results c @ [make_chan 1]\<rparr>)"
  by (simp add: send_register_def Let_def)

lemma maps_ok_add_result:
  "maps_ok c \<Longrightarrow> maps_ok (c\<lparr>cl_results := cl_results c @ [ch]\<rparr>)"
  by (simp add: maps_ok_def registry_extend)

lemma maps_ok_add_messages:
  "maps_ok c \<Longrightarrow> maps_ok (c\<lparr>cl_messages := cl_messages c @ [ch]\<rparr>)"
  by (simp add: maps_ok_def registry_extend)

lemma send_register_inv:
  assumes "client_inv c"
  shows "client_inv (snd (send_register cid c))"
proof (cases "cl_closed c")
  case True
  with assms show ?thesis
    by (simp add: send_register_closed client_inv_def maps_ok_add_result)
next
  case False
  with assms show ?thesis
    by (simp add: send_register_open client_inv_def maps_ok_def registry_put)
qed

lemma Subscribe_register_inv:
  assumes "client_inv c"
  shows "client_inv (snd (Subscribe_register key c))"
proof (cases "cl_closed c \<or> map_of (cl_subs c) key \<noteq> None")
  case True
  with assms show ?thesis
    by (auto simp: Subscribe_register_def Let_def client_inv_def maps_ok_add_messages)
next
  case False
  with assms show ?thesis
    by (simp add: Subscribe_register_def Let_def client_inv_def maps_ok_def registry_put make_chan_def)
qed

lemma delete_inv:
  "client_inv c \<Longrightarrow> client_inv (delete_cmd cid c)" "client_inv c \<Longrightarrow> client_inv (delete_sub key c)"
  using maps_ok_delete_cmd [of c cid] maps_ok_delete_sub [of c key]
  by (auto simp: client_inv_def delete_cmd_def delete_sub_def)

lemma NewClient_inv [simp]: "client_inv (NewClient params)"
  by (simp add: client_inv_def maps_ok_def NewClient_def registry_ok_def)

section \<open>A request\<close>

lemma EncodeTransmission_Inr:
  "EncodeTransmission v s t = Inr (w, a) \<Longrightarrow> tx_fits s t \<and> w = tx_wire v s t \<and> a = auth_wire s t"
  using EncodeTransmission_fits [of s t v] EncodeTransmission_too_long [of s t v] by auto

lemma EncodeCommand_Inr: "EncodeCommand v cmd = Inr b \<Longrightarrow> command_ok cmd \<and> b = command_wire v cmd"
  using EncodeCommand_ok [of cmd v] EncodeCommand_bad [of cmd v] by auto

definition request_tx :: "handshake_params \<Rightarrow> corr_id \<Rightarrow> entity_id \<Rightarrow> command \<Rightarrow> bytes \<Rightarrow> transmission" where
  "request_tx params cid ent cmd sig = \<lparr>tx_CorrID = cid, tx_EntityID = ent,
     tx_Command = command_wire (hp_Version params) cmd, tx_Authorization = sig\<rparr>"

lemma auth_wire_request:
  "auth_wire s (request_tx params cid ent cmd sig) = auth_wire s (request_tx params cid ent cmd [])"
  by (simp add: auth_wire_def request_tx_def)

definition signed_with :: "rcv_auth_key option \<Rightarrow> bytes \<Rightarrow> corr_id \<Rightarrow> bytes \<Rightarrow> bool" where
  "signed_with key a cid sig = (case key of None \<Rightarrow> sig = [] | Some authorize \<Rightarrow> authorize a cid = Inr sig)"

lemma send_prepare_Inr:
  assumes "send_prepare params rnd key ent cmd = Inr (cid, block)"
  obtains sig where "rnd = Inr cid" "command_ok cmd"
    "signed_with key (auth_wire (hp_SessID params) (request_tx params cid ent cmd [])) cid sig"
    "tx_fits (hp_SessID params) (request_tx params cid ent cmd sig)"
    "block_fits [tx_wire (hp_Version params) (hp_SessID params) (request_tx params cid ent cmd sig)]"
    "block = block_wire [tx_wire (hp_Version params) (hp_SessID params) (request_tx params cid ent cmd sig)]"
proof -
  let ?v = "hp_Version params" and ?s = "hp_SessID params"
  from assms obtain cmdBytes w0 a tx w a' where
    1: "EncodeCommand ?v cmd = Inr cmdBytes" "rnd = Inr cid"
    and 2: "EncodeTransmission ?v ?s \<lparr>tx_CorrID = cid, tx_EntityID = ent, tx_Command = cmdBytes, tx_Authorization = []\<rparr> = Inr (w0, a)"
    and 3: "sign_tx key a cid \<lparr>tx_CorrID = cid, tx_EntityID = ent, tx_Command = cmdBytes, tx_Authorization = []\<rparr> = Inr tx"
    and 4: "EncodeTransmission ?v ?s tx = Inr (w, a')" "EncodeBlock [w] = Inr block"
    by (auto simp: send_prepare_def newCorrID_def Let_def)
  have cmd: "command_ok cmd" "cmdBytes = command_wire ?v cmd"
    using EncodeCommand_Inr [OF 1(1)] by simp_all
  have a: "a = auth_wire ?s (request_tx params cid ent cmd [])"
    using EncodeTransmission_Inr [OF 2] by (simp add: request_tx_def cmd)
  obtain sig where tx: "tx = request_tx params cid ent cmd sig" and sig: "signed_with key a cid sig"
    using 3 by (cases key) (auto simp: request_tx_def cmd signed_with_def sign_tx_def)
  note w = EncodeTransmission_Inr [OF 4(1)] and b = EncodeBlock_Inr [OF 4(2)]
  show thesis
    using that [of sig] 1(2) cmd(1) sig w b unfolding a tx by simp
qed

lemma request_decodes:
  assumes "send_prepare params rnd key ent cmd = Inr (cid, block)" and "wf_corr_id cid"
  shows "\<exists>t. DecodeBlock (hp_Version params) (hp_SessID params) (block @ pad) = Inr [t]
    \<and> rnd = Inr cid \<and> tx_CorrID t = cid \<and> tx_EntityID t = ent
    \<and> tx_Command t = command_wire (hp_Version params) cmd
    \<and> (case key of None \<Rightarrow> tx_Authorization t = []
       | Some authorize \<Rightarrow> authorize (short_wire (hp_SessID params) @ corr_wire cid @ short_wire ent
             @ command_wire (hp_Version params) cmd) cid = Inr (tx_Authorization t))"
proof -
  from assms(1) obtain sig where
    1: "rnd = Inr cid" and 2: "signed_with key (auth_wire (hp_SessID params) (request_tx params cid ent cmd [])) cid sig"
    and 3: "tx_fits (hp_SessID params) (request_tx params cid ent cmd sig)"
    and 4: "block_fits [tx_wire (hp_Version params) (hp_SessID params) (request_tx params cid ent cmd sig)]"
    and 5: "block = block_wire [tx_wire (hp_Version params) (hp_SessID params) (request_tx params cid ent cmd sig)]"
    by (rule send_prepare_Inr)
  have "decodeTransmission (hp_Version params) (hp_SessID params)
      (tx_wire (hp_Version params) (hp_SessID params) (request_tx params cid ent cmd sig))
      = Inr (request_tx params cid ent cmd sig)"
    using 3 assms(2) by (intro decodeTransmission_wire) (simp_all add: request_tx_def)
  then have "DecodeBlock (hp_Version params) (hp_SessID params) (block @ pad) = Inr [request_tx params cid ent cmd sig]"
    unfolding 5 by (intro DecodeBlock_wire [OF 4]) simp
  then show ?thesis
    using 1 2 by (intro exI [of _ "request_tx params cid ent cmd sig"])
      (auto simp: request_tx_def signed_with_def auth_wire_def split: option.splits)
qed

text \<open>C5: The block \<open>send\<close> writes is read by the server as exactly one transmission: the random
  correlation id, the entity, the command's encoding and the authorization the key made over
  the session, correlation id, entity and command (none without a key).\<close>

theorem request_on_the_wire:
  assumes "send_prepare params rnd key ent cmd = Inr (cid, block)" and "wf_corr_id cid"
  shows "\<exists>t. DecodeBlock (hp_Version params) (hp_SessID params) (block @ pad) = Inr [t]
    \<and> rnd = Inr cid \<and> tx_CorrID t = cid \<and> tx_EntityID t = ent
    \<and> tx_Command t = command_wire (hp_Version params) cmd
    \<and> (case key of None \<Rightarrow> tx_Authorization t = []
       | Some authorize \<Rightarrow> authorize (short_wire (hp_SessID params) @ corr_wire cid @ short_wire ent
             @ command_wire (hp_Version params) cmd) cid = Inr (tx_Authorization t))"
  by (rule request_decodes [OF assms])

text \<open>
  The interface \<open>RcvAuthKey\<close> promises nothing but an \<open>Authorize\<close> method; \<open>send\<close> relies on more:
  an authorization longer than 255 bytes does not fit its field.
\<close>

locale rcv_auth =
  fixes authorize :: rcv_auth_key
  assumes sig_size: "authorize a n = Inr sig \<Longrightarrow> length sig \<le> 255"
begin

lemma prepare_ok:
  assumes "command_ok cmd" "length (command_wire (hp_Version params) cmd) \<le> 60000"
    "length (hp_SessID params) \<le> 255" "length ent \<le> 255" "wf_corr_id cid"
    "authorize (auth_wire (hp_SessID params) (request_tx params cid ent cmd [])) cid = Inr sig"
  shows "\<exists>block. send_prepare params (Inr cid) (Some authorize) ent cmd = Inr (cid, block)"
proof -
  let ?t = "request_tx params cid ent cmd"
  have fits: "tx_fits (hp_SessID params) (?t [])" "tx_fits (hp_SessID params) (?t sig)"
    using assms(3,4) sig_size [OF assms(6)] by (simp_all add: tx_fits_def request_tx_def)
  have "length (corr_wire cid) \<le> 25"
    using assms(5) by (simp add: corr_wire_def wf_corr_id_def)
  then have small: "block_fits [tx_wire (hp_Version params) (hp_SessID params) (?t sig)]"
    using assms(2-4) sig_size [OF assms(6)]
    by (simp add: block_fits_def tx_wire_def request_tx_def short_wire_def sess_wire_def)
  show ?thesis
    using assms(6) EncodeTransmission_fits [OF fits(1)] EncodeTransmission_fits [OF fits(2)]
      EncodeBlock_fits [OF small] EncodeCommand_ok [OF assms(1)]
    by (simp add: send_prepare_def newCorrID_def Let_def sign_tx_def request_tx_def)
qed

end

interpretation x25519_key: rcv_auth "X25519AuthSigner_Authorize cr s" for cr s
  by unfold_locales
    (auto simp: X25519AuthSigner_Authorize_def key_sizes Let_def split: if_splits)

text \<open>With a deniable-authenticator key whose key agreement works, every command that the
  grammar allows and that fits a transport block is turned into a block: the tag always fits
  the authorization field and the request is never lost on the way to the wire.\<close>

theorem deniable_request_prepared:
  assumes "X25519DeriveShared cr (xs_Priv s) (xs_PeerPub s) = Inr shared" and "secretbox_laws cr"
    and "command_ok cmd" and "length (command_wire (hp_Version params) cmd) \<le> 60000"
    and "length (hp_SessID params) \<le> 255" and "length ent \<le> 255" and "wf_corr_id cid"
  shows "\<exists>block. send_prepare params (Inr cid) (Some (X25519AuthSigner_Authorize cr s)) ent cmd = Inr (cid, block)"
proof (rule x25519_key.prepare_ok [OF assms(3-7)])
  show "X25519AuthSigner_Authorize cr s (auth_wire (hp_SessID params) (request_tx params cid ent cmd [])) cid
      = Inr (cb_tag cr shared cid (auth_wire (hp_SessID params) (request_tx params cid ent cmd [])))"
    using assms(1) by (auto simp: Authorize_ok_iff [OF assms(2)])
qed

text \<open>C2: A command gets its answer: once \<open>send\<close> has registered its channel under a fresh
  non-zero correlation id, a block in which the server answers this id with any message of the
  grammar puts exactly that message in the channel, \<open>send\<close> returns it (an ERR as its error),
  and the id is unregistered again.\<close>

theorem request_is_answered:
  assumes "client_inv c" and "\<not> cl_closed c" and "wf_corr_id cid" and "cid \<noteq> NoCorrID"
    and "send_register cid c = (Inr i, c1)"
    and "broker_ok (hp_Version (cl_params c)) msg"
    and "EncodeTransmission (hp_Version (cl_params c)) (hp_SessID (cl_params c))
      \<lparr>tx_CorrID = cid, tx_EntityID = ent,
       tx_Command = broker_wire (hp_Version (cl_params c)) msg, tx_Authorization = auth\<rparr> = Inr (w, a)"
    and "EncodeBlock [w] = Inr block"
  shows "\<exists>c2 ch. handle_block (block @ pad) c1 = Done c2 \<and> client_inv c2
    \<and> chan_recv (cl_results c2 ! i) = Done (Some (Reply msg), ch)
    \<and> send_reply (Some (Reply msg)) = (case msg of ErrMsg t d \<Rightarrow> Inl (BrokerErr t d) | _ \<Rightarrow> Inr (Some msg))
    \<and> map_of (cl_sentCmds c2) = (map_of (cl_sentCmds c))(cid := None)"
proof -
  let ?t = "\<lparr>tx_CorrID = cid, tx_EntityID = ent,
       tx_Command = broker_wire (hp_Version (cl_params c)) msg, tx_Authorization = auth\<rparr>"
  have i: "i = length (cl_results c)" and c1: "c1 = c\<lparr>cl_results := cl_results c @ [make_chan 1],
       cl_sentCmds := AList.update cid (length (cl_results c)) (cl_sentCmds c)\<rparr>"
    using assms(5) send_register_open [OF assms(2), of cid] by auto
  have inv1: "client_inv c1" using send_register_inv [OF assms(1), of cid] assms(5) by simp
  then have m1: "maps_ok c1" by (simp add: client_inv_def)
  have reg: "map_of (cl_sentCmds c1) cid = Some i" by (simp add: c1 i AList.update_conv')
  note w = EncodeTransmission_Inr [OF assms(7)] and b = EncodeBlock_Inr [OF assms(8)]
  have "DecodeBlock (hp_Version (cl_params c1)) (hp_SessID (cl_params c1)) (block @ pad) = Inr [?t]"
    using w b assms(3) by (auto simp: c1 intro!: DecodeBlock_wire decodeTransmission_wire)
  then have txs: "block_txs c1 (block @ pad) = [?t]" by (simp add: block_txs_def)
  have msg: "msg_of c1 ?t = Some msg"
    using DecodeBrokerMsg_wire [OF assms(6), of "[]"] by (cases msg) (simp_all add: msg_of_def c1)
  have d: "dispatched ?t c1 = c1\<lparr>cl_results := (cl_results c1)[i := answered (Reply msg)],
       cl_sentCmds := AList.delete cid (cl_sentCmds c1)\<rparr>"
    using msg reg assms(4) by (simp add: dispatched_def)
  have "handle_block (block @ pad) c1 = Done (dispatched ?t c1)"
    by (simp add: handle_block_eq [OF m1] txs)
  moreover have "cl_results (dispatched ?t c1) ! i = answered (Reply msg)"
    using registry_lookup [OF maps_okD(1) [OF m1] reg] by (simp add: d)
  moreover have "map_of (cl_sentCmds (dispatched ?t c1)) = (map_of (cl_sentCmds c))(cid := None)"
    unfolding d by (simp add: c1 AList.delete_conv' AList.update_conv')
  ultimately show ?thesis
    using client_inv_dispatched [OF inv1, of ?t]
    by (intro exI [of _ "dispatched ?t c1"]) (cases msg; simp add: answered_def chan_recv_def send_reply_def)
qed

section \<open>Concrete instances\<close>

definition example_params :: handshake_params where
  "example_params = \<lparr>hp_Version = 7, hp_SessID = [9], hp_PeerAuthPubKey = None, hp_BlockSize = 16384\<rparr>"

definition example_cid :: corr_id where
  "example_cid = replicate 24 1"

lemma example_cid_facts [simp]: "wf_corr_id example_cid" "example_cid \<noteq> NoCorrID" "length example_cid = 24"
  by (simp_all add: wf_corr_id_def example_cid_def NoCorrID_def replicate_eq_replicate)

text \<open>A client with one call waiting and one queue subscribed, and a PONG for the call.\<close>

definition example_client :: client where
  "example_client = (NewClient example_params)\<lparr>cl_sentCmds := [(example_cid, 0)], cl_subs := [([5], 0)],
     cl_results := [make_chan 1], cl_messages := [make_chan 32]\<rparr>"

lemma example_client_inv [simp]: "client_inv example_client"
  by (simp add: client_inv_def maps_ok_def registry_ok_def example_client_def NewClient_def make_chan_def)

definition tx_for :: "corr_id \<Rightarrow> entity_id \<Rightarrow> broker_msg \<Rightarrow> transmission" where
  "tx_for cid ent msg = \<lparr>tx_CorrID = cid, tx_EntityID = ent, tx_Command = broker_wire 7 msg, tx_Authorization = []\<rparr>"

definition block_for :: "transmission \<Rightarrow> bytes" where
  "block_for t = block_wire [tx_wire 7 [9] t]"

lemma length_corr_wire: "wf_corr_id cid \<Longrightarrow> length (corr_wire cid) \<le> 25"
  by (simp add: corr_wire_def wf_corr_id_def)

lemma decode_block_for:
  assumes "wf_corr_id cid" "length ent \<le> 255" "length (broker_wire 7 msg) \<le> 60000"
  shows "DecodeBlock 7 [9] (block_for (tx_for cid ent msg)) = Inr [tx_for cid ent msg]"
proof -
  let ?t = "tx_for cid ent msg"
  have "tx_fits [9] ?t" using assms(2) by (simp add: tx_fits_def tx_for_def)
  then have "decodeTransmission 7 [9] (tx_wire 7 [9] ?t) = Inr ?t"
    using assms(1) by (intro decodeTransmission_wire) (simp_all add: tx_for_def)
  moreover have "block_fits [tx_wire 7 [9] ?t]"
    using assms length_corr_wire [OF assms(1)]
    by (simp add: block_fits_def tx_wire_def tx_for_def short_wire_def sess_wire_def)
  ultimately show ?thesis
    using DecodeBlock_wire [of "[tx_wire 7 [9] ?t]" 7 "[9]" "[?t]" "[]"] by (simp add: block_for_def)
qed

lemma msg_of_tx_for:
  "hp_Version (cl_params c) = 7 \<Longrightarrow> broker_ok 7 msg \<Longrightarrow> msg_of c (tx_for cid ent msg) = Some msg"
  using DecodeBrokerMsg_wire [of 7 msg "[]"] by (cases msg) (simp_all add: msg_of_def tx_for_def)

lemma example_client_params [simp]:
  "hp_Version (cl_params example_client) = 7" "hp_SessID (cl_params example_client) = [9]"
  by (simp_all add: example_client_def NewClient_def example_params_def)

theorem reply_reaches_its_caller_witness:
  "\<exists>c'. handle_block (block_for (tx_for example_cid [] PongMsg)) example_client = Done c'
    \<and> cl_results c' ! 0 = answered (Reply PongMsg)"
proof -
  let ?t = "tx_for example_cid [] PongMsg"
  have "first_reply example_client example_cid [?t] = Some PongMsg"
    using msg_of_tx_for [of example_client PongMsg example_cid "[]"] by (simp add: tx_for_def)
  moreover have reg: "map_of (cl_sentCmds example_client) example_cid = Some 0"
    by (simp add: example_client_def)
  moreover have dec: "DecodeBlock (hp_Version (cl_params example_client)) (hp_SessID (cl_params example_client))
      (block_for ?t) = Inr [?t]"
    using decode_block_for [of example_cid "[]" PongMsg] by (simp add: bs_Cons)
  ultimately show ?thesis
    using reply_reaches_its_caller [OF example_client_inv reg _ dec] by auto
qed

definition example_message :: message where
  "example_message = \<lparr>msg_ID = [3], msg_Ts = 0, msg_Flags = \<lparr>Notification = False\<rparr>, msg_Body = [4], msg_Quota = False\<rparr>"

theorem subscriber_receives_in_order_witness:
  "\<exists>c'. handle_block (block_for (tx_for NoCorrID [5] (MsgMsg example_message))) example_client = Done c'
    \<and> ch_buf (cl_messages c' ! 0) = [example_message]"
proof -
  let ?t = "tx_for NoCorrID [5] (MsgMsg example_message)"
  have "msg_of example_client ?t = Some (MsgMsg example_message)"
    by (rule msg_of_tx_for) (simp_all add: example_message_def)
  then have ev: "sub_events example_client [5] [?t] = ([example_message], False)"
    by (simp add: sub_event_def) (simp add: tx_for_def)
  have ch: "map_of (cl_subs example_client) [5] = Some 0" "cl_messages example_client ! 0 = make_chan 32"
    by (simp_all add: example_client_def)
  have dec: "DecodeBlock (hp_Version (cl_params example_client)) (hp_SessID (cl_params example_client))
      (block_for ?t) = Inr [?t]"
    using decode_block_for [of NoCorrID "[5]" "MsgMsg example_message"]
    by (simp add: example_message_def short_wire_def bs_Cons)
  show ?thesis
    using subscriber_receives_in_order [OF example_client_inv ch(1) _ dec] ev ch(2)
    by (auto simp: make_chan_def)
qed

theorem closing_settles_everything_witness:
  "Close_locked [example_cid] [[5]] example_client
     = Done (True, drained (Failed (Sentinel ErrClientClosed)) example_client)
   \<and> cl_results (drained (Failed (Sentinel ErrClientClosed)) example_client)
     = [answered (Failed (Sentinel ErrClientClosed))]"
  using closing_settles_everything [of example_client "[example_cid]" "[[5]]" "Sentinel ErrShortBlock"]
    example_client_inv
  by (simp add: iterates_def example_client_def NewClient_def drained_def mark_def)

theorem request_on_the_wire_witness:
  "\<exists>block t. send_prepare example_params (Inr example_cid) None [] PingCmd = Inr (example_cid, block)
     \<and> DecodeBlock 7 [9] (block @ [35]) = Inr [t] \<and> tx_Command t = bs ''PING''"
proof -
  have fits: "tx_fits [9] (request_tx example_params example_cid [] PingCmd [])"
    by (simp add: tx_fits_def request_tx_def)
  have small: "block_fits [tx_wire 7 [9] (request_tx example_params example_cid [] PingCmd [])]"
    using length_corr_wire [of example_cid]
    by (simp add: block_fits_def tx_wire_def request_tx_def short_wire_def sess_wire_def bs_Cons)
  have "\<exists>block. send_prepare example_params (Inr example_cid) None [] PingCmd = Inr (example_cid, block)"
    using EncodeTransmission_fits [OF fits, of 7] EncodeBlock_fits [OF small] EncodeCommand_ok [of PingCmd 7]
    by (simp add: send_prepare_def newCorrID_def Let_def sign_tx_def request_tx_def example_params_def)
  then obtain block where "send_prepare example_params (Inr example_cid) None [] PingCmd = Inr (example_cid, block)" ..
  from this request_on_the_wire [OF this, of "[35]"] show ?thesis
    by (auto simp: example_params_def)
qed

theorem deniable_request_prepared_witness:
  "\<exists>block. send_prepare example_params (Inr example_cid)
     (Some (X25519AuthSigner_Authorize example_crypto \<lparr>xs_Priv = replicate 32 1, xs_PeerPub = replicate 32 2\<rparr>))
     [5] SubCmd = Inr (example_cid, block)"
proof -
  have "X25519DeriveShared example_crypto (replicate 32 1) (replicate 32 2)
      = Inr (map2 (+) (replicate 32 1) (replicate 32 2))"
    by (simp add: X25519DeriveShared_def key_sizes example_crypto_def)
  then show ?thesis
    using deniable_request_prepared [of example_crypto "\<lparr>xs_Priv = replicate 32 1, xs_PeerPub = replicate 32 2\<rparr>"
        "map2 (+) (replicate 32 1) (replicate 32 2)" SubCmd example_params "[5]" example_cid]
      example_crypto_laws
    by (simp add: crypto_laws_def example_params_def bs_Cons)
qed

theorem request_is_answered_witness:
  "\<exists>c1 c2 ch. send_register example_cid (NewClient example_params) = (Inr 0, c1)
    \<and> handle_block (block_for (tx_for example_cid [] PongMsg)) c1 = Done c2
    \<and> chan_recv (cl_results c2 ! 0) = Done (Some (Reply PongMsg), ch)"
proof -
  let ?t = "tx_for example_cid [] PongMsg"
  have fits: "tx_fits [9] ?t" by (simp add: tx_fits_def tx_for_def)
  have small: "block_fits [tx_wire 7 [9] ?t]"
    using length_corr_wire [of example_cid]
    by (simp add: block_fits_def tx_wire_def tx_for_def short_wire_def sess_wire_def bs_Cons)
  have e: "EncodeTransmission 7 [9] ?t = Inr (tx_wire 7 [9] ?t, auth_wire [9] ?t)"
    "EncodeBlock [tx_wire 7 [9] ?t] = Inr (block_for ?t)"
    using EncodeTransmission_fits [OF fits, of 7] EncodeBlock_fits [OF small] by (simp_all add: block_for_def)
  obtain c1 where c1: "send_register example_cid (NewClient example_params) = (Inr 0, c1)"
    by (simp add: send_register_def NewClient_def)
  have p: "\<not> cl_closed (NewClient example_params)" "hp_Version (cl_params (NewClient example_params)) = 7"
    "hp_SessID (cl_params (NewClient example_params)) = [9]"
    by (simp_all add: NewClient_def example_params_def)
  have e': "EncodeTransmission (hp_Version (cl_params (NewClient example_params)))
      (hp_SessID (cl_params (NewClient example_params)))
      \<lparr>tx_CorrID = example_cid, tx_EntityID = [],
       tx_Command = broker_wire (hp_Version (cl_params (NewClient example_params))) PongMsg, tx_Authorization = []\<rparr>
      = Inr (tx_wire 7 [9] ?t, auth_wire [9] ?t)"
    using e(1) unfolding p tx_for_def .
  from request_is_answered [OF NewClient_inv p(1) example_cid_facts(1,2) c1 _ e' e(2), of "[]"] c1
  show ?thesis by auto
qed

end
