(* ===== verification/Client_System.thy ===== *)
theory Client_System
  imports Client
begin

text \<open>
  The goroutines of \<open>smp/client.go\<close> interleaved: any number of callers in the exported methods,
  the reader, and an application that consumes subscriptions. A step is one critical section
  of \<open>Client\<close>, one channel operation outside the mutex, or one call of the transport, whose
  answer (and the server's blocks) the label chooses. A panic ends the process.
\<close>

section \<open>Goroutines\<close>

datatype call =
    Call_Ping
  | Call_Send queue_id msg_flags bytes
  | Call_Ack queue_id msg_id
  | Call_NewQueue new_queue_req
  | Call_Subscribe queue_id

text \<open>A call that has reached \<open>send\<close>; a subscription carries the channel it made.\<close>

datatype pending =
    P_Ping
  | P_Send queue_id msg_flags bytes
  | P_Ack queue_id msg_id
  | P_NewQueue new_queue_req
  | P_Subscribe queue_id nat

datatype returned = R_err "unit result" | R_ids "ids_response result" | R_sub "nat result"

text \<open>
  Where a caller is: before \<open>send\<close>; registered and about to write; in the \<open>select\<close>; about to
  unregister with an error; back from \<open>send\<close>; in the last parts of \<open>Subscribe\<close> and \<open>Close\<close>.
\<close>

datatype pc =
    Idle
  | Ready pending "rcv_auth_key option"
  | Writing pending corr_id nat bytes
  | Waiting pending corr_id nat
  | Forgetting pending corr_id go_err
  | Sent pending "broker_msg option result"
  | SubAborting queue_id nat go_err
  | SubClosing nat go_err
  | SubPushing nat message
  | CloseTx
  | CloseJoin "unit result"
  | Returned returned

datatype reader = Reading | Dispatching "transmission list" | Exiting | Gone

record system =
  sy_client :: client
  sy_pcs :: "pc list"
  sy_reader :: reader
  sy_sent :: "bytes list"
  sy_crash :: "string option"

definition init_system :: "handshake_params \<Rightarrow> nat \<Rightarrow> system" where
  "init_system params n = \<lparr>sy_client = NewClient params, sy_pcs = replicate n Idle,
     sy_reader = Reading, sy_sent = [], sy_crash = None\<rparr>"

fun request_of :: "pending \<Rightarrow> entity_id \<times> command" where
  "request_of P_Ping = (NoEntity, PingCmd)"
| "request_of (P_Send q f b) = (q, SendCmd f b)"
| "request_of (P_Ack q m) = (q, AckCmd m)"
| "request_of (P_NewQueue req) = (NoEntity, NewCmd req)"
| "request_of (P_Subscribe q ch) = (q, SubCmd)"

text \<open>What a method does with the result of \<open>send\<close>.\<close>

fun finish :: "pending \<Rightarrow> broker_msg option result \<Rightarrow> pc" where
  "finish P_Ping r = Returned (R_err (Ping_finish r))"
| "finish (P_Send q f b) r = Returned (R_err (Send_finish r))"
| "finish (P_Ack q m) r = Returned (R_err (Ack_finish r))"
| "finish (P_NewQueue req) r = Returned (R_ids (NewQueue_finish r))"
| "finish (P_Subscribe q ch) r =
     (case Subscribe_finish r of
        SubKeep \<Rightarrow> Returned (R_sub (Inr ch))
      | SubPush m \<Rightarrow> SubPushing ch m
      | SubAbort e \<Rightarrow> SubAborting q ch e)"

section \<open>Steps\<close>

datatype label =
    L_Start nat call "rcv_auth_key option"
  | L_Send nat "corr_id result"
  | L_Write nat "unit result"
  | L_Receive nat
  | L_Cancel nat go_err
  | L_Forget nat
  | L_Finish nat
  | L_Abort nat
  | L_CloseSub nat
  | L_Push nat
  | L_Close nat "corr_id list" "bytes list"
  | L_CloseTx nat "unit result"
  | L_Join nat
  | L_Block bytes
  | L_Dispatch
  | L_ReadErr go_err "corr_id list" "bytes list"
  | L_ReaderExit
  | L_Consume nat

definition goto :: "nat \<Rightarrow> pc \<Rightarrow> client \<Rightarrow> system \<Rightarrow> system" where
  "goto t p c s = s\<lparr>sy_client := c, sy_pcs := (sy_pcs s)[t := p]\<rparr>"

text \<open>A section that panics crashes the process; one that blocks is no step.\<close>

fun settle :: "'a outcome \<Rightarrow> ('a \<Rightarrow> system) \<Rightarrow> system \<Rightarrow> system option" where
  "settle (Done x) k s = Some (k x)"
| "settle (Panics m) k s = Some (s\<lparr>sy_crash := Some m\<rparr>)"
| "settle Blocks k s = None"

definition start :: "nat \<Rightarrow> call \<Rightarrow> rcv_auth_key option \<Rightarrow> system \<Rightarrow> system" where
  "start t cl key s =
     (let c = sy_client s in
      case cl of
        Call_Ping \<Rightarrow> goto t (Ready P_Ping None) c s
      | Call_Send q f b \<Rightarrow> goto t (Ready (P_Send q f b) key) c s
      | Call_Ack q m \<Rightarrow> goto t (Ready (P_Ack q m) key) c s
      | Call_NewQueue req \<Rightarrow>
          (case NewQueue_request req of
             Inl e \<Rightarrow> goto t (Returned (R_ids (Inl e))) c s
           | Inr req' \<Rightarrow> goto t (Ready (P_NewQueue req') key) c s)
      | Call_Subscribe q \<Rightarrow>
          (case Subscribe_register q c of
             (Inl e, c') \<Rightarrow> goto t (Returned (R_sub (Inl e))) c' s
           | (Inr ch, c') \<Rightarrow> goto t (Ready (P_Subscribe q ch) key) c' s))"

definition send_step :: "nat \<Rightarrow> pending \<Rightarrow> rcv_auth_key option \<Rightarrow> corr_id result \<Rightarrow> system \<Rightarrow> system" where
  "send_step t p key rnd s =
     (let c = sy_client s in
      case send_prepare (cl_params c) rnd key (fst (request_of p)) (snd (request_of p)) of
        Inl e \<Rightarrow> goto t (Sent p (Inl e)) c s
      | Inr (cid, block) \<Rightarrow>
          (case send_register cid c of
             (Inl e, c') \<Rightarrow> goto t (Sent p (Inl e)) c' s
           | (Inr i, c') \<Rightarrow> goto t (Writing p cid i block) c' s))"

definition caller_step :: "label \<Rightarrow> nat \<Rightarrow> pc \<Rightarrow> system \<Rightarrow> system option" where
  "caller_step l t p s =
     (let c = sy_client s in
      case (l, p) of
        (L_Start _ cl key, Idle) \<Rightarrow> Some (start t cl key s)
      | (L_Send _ rnd, Ready q key) \<Rightarrow> Some (send_step t q key rnd s)
      | (L_Write _ r, Writing q cid i block) \<Rightarrow>
          (case r of
             Inl e \<Rightarrow> Some (goto t (Forgetting q cid (wrapf ''smp: write: %w'' e)) c s)
           | Inr _ \<Rightarrow> Some ((goto t (Waiting q cid i) c s)\<lparr>sy_sent := sy_sent s @ [block]\<rparr>))
      | (L_Receive _, Waiting q cid i) \<Rightarrow>
          settle (chan_recv (cl_results c ! i))
            (\<lambda>(r, ch). goto t (Sent q (send_reply r)) (c\<lparr>cl_results := (cl_results c)[i := ch]\<rparr>) s) s
      | (L_Cancel _ e, Waiting q cid i) \<Rightarrow> Some (goto t (Forgetting q cid e) c s)
      | (L_Forget _, Forgetting q cid e) \<Rightarrow> Some (goto t (Sent q (Inl e)) (delete_cmd cid c) s)
      | (L_Finish _, Sent q r) \<Rightarrow> Some (goto t (finish q r) c s)
      | (L_Abort _, SubAborting key ch e) \<Rightarrow> Some (goto t (SubClosing ch e) (delete_sub key c) s)
      | (L_CloseSub _, SubClosing ch e) \<Rightarrow>
          settle (on_messages ch chan_close c) (\<lambda>c'. goto t (Returned (R_sub (Inl e))) c' s) s
      | (L_Push _, SubPushing ch m) \<Rightarrow>
          settle (on_messages ch (chan_send m) c) (\<lambda>c'. goto t (Returned (R_sub (Inr ch))) c' s) s
      | (L_Close _ cids keys, Idle) \<Rightarrow>
          if iterates cids (cl_sentCmds c) \<and> iterates keys (cl_subs c)
          then settle (Close_locked cids keys c)
                 (\<lambda>(first, c'). goto t (if first then CloseTx else Returned (R_err (Inr ()))) c' s) s
          else None
      | (L_CloseTx _ r, CloseTx) \<Rightarrow> Some (goto t (CloseJoin r) c s)
      | (L_Join _, CloseJoin r) \<Rightarrow>
          if cl_readerDone c then Some (goto t (Returned (R_err r)) c s) else None
      | _ \<Rightarrow> None)"

definition set_reader :: "reader \<Rightarrow> client \<Rightarrow> system \<Rightarrow> system" where
  "set_reader r c s = s\<lparr>sy_client := c, sy_reader := r\<rparr>"

definition reader_step :: "label \<Rightarrow> reader \<Rightarrow> system \<Rightarrow> system option" where
  "reader_step l r s =
     (let c = sy_client s in
      case (l, r) of
        (L_Block block, Reading) \<Rightarrow>
          (case DecodeBlock (hp_Version (cl_params c)) (hp_SessID (cl_params c)) block of
             Inl err \<Rightarrow> Some s
           | Inr txs \<Rightarrow> Some (set_reader (Dispatching txs) c s))
      | (L_Dispatch, Dispatching []) \<Rightarrow> Some (set_reader Reading c s)
      | (L_Dispatch, Dispatching (tx # txs)) \<Rightarrow>
          settle (dispatch tx c) (\<lambda>c'. set_reader (Dispatching txs) c' s) s
      | (L_ReadErr err cids keys, Reading) \<Rightarrow>
          if iterates cids (cl_sentCmds c) \<and> iterates keys (cl_subs c)
          then settle (handleReadError err cids keys c) (\<lambda>c'. set_reader Exiting c' s) s
          else None
      | (L_ReaderExit, Exiting) \<Rightarrow> Some (set_reader Gone (c\<lparr>cl_readerDone := True\<rparr>) s)
      | _ \<Rightarrow> None)"

text \<open>The caller a label belongs to; the others are the reader's and the application's.\<close>

fun caller :: "label \<Rightarrow> nat option" where
  "caller (L_Start t _ _) = Some t" | "caller (L_Send t _) = Some t" | "caller (L_Write t _) = Some t"
| "caller (L_Receive t) = Some t" | "caller (L_Cancel t _) = Some t" | "caller (L_Forget t) = Some t"
| "caller (L_Finish t) = Some t" | "caller (L_Abort t) = Some t" | "caller (L_CloseSub t) = Some t"
| "caller (L_Push t) = Some t" | "caller (L_Close t _ _) = Some t" | "caller (L_CloseTx t _) = Some t"
| "caller (L_Join t) = Some t" | "caller _ = None"

definition consume_step :: "nat \<Rightarrow> system \<Rightarrow> system option" where
  "consume_step ch s =
     (if ch < length (cl_messages (sy_client s)) then
        settle (chan_recv (cl_messages (sy_client s) ! ch))
          (\<lambda>(_, ch'). s\<lparr>sy_client := (sy_client s)\<lparr>cl_messages := (cl_messages (sy_client s))[ch := ch']\<rparr>\<rparr>) s
      else None)"

definition step :: "label \<Rightarrow> system \<Rightarrow> system option" where
  "step l s =
     (if sy_crash s \<noteq> None then None
      else case caller l of
        Some t \<Rightarrow> if t < length (sy_pcs s) then caller_step l t (sy_pcs s ! t) s else None
      | None \<Rightarrow> (case l of L_Consume ch \<Rightarrow> consume_step ch s | _ \<Rightarrow> reader_step l (sy_reader s) s))"

inductive reachable :: "handshake_params \<Rightarrow> nat \<Rightarrow> system \<Rightarrow> bool" for params n where
  reach_init: "reachable params n (init_system params n)"
| reach_step: "reachable params n s \<Longrightarrow> step l s = Some s' \<Longrightarrow> reachable params n s'"

fun run :: "label list \<Rightarrow> system \<Rightarrow> system option" where
  "run [] s = Some s"
| "run (l # ls) s = (case step l s of None \<Rightarrow> None | Some s' \<Rightarrow> run ls s')"

lemma run_reachable: "reachable params n s \<Longrightarrow> run ls s = Some s' \<Longrightarrow> reachable params n s'"
  by (induction ls arbitrary: s) (auto split: option.splits intro: reach_step)

section \<open>The invariant of the system\<close>

text \<open>
  A subscriber's channel is registered under its own key or not at all, and not at all once
  \<open>Subscribe\<close> has given up on it; indices name existing channels.
\<close>

definition own_ok :: "client \<Rightarrow> bytes \<Rightarrow> nat \<Rightarrow> bool" where
  "own_ok c key ch \<longleftrightarrow> ch < length (cl_messages c) \<and> (\<forall>k. map_of (cl_subs c) k = Some ch \<longrightarrow> k = key)"

fun pending_ok :: "client \<Rightarrow> pending \<Rightarrow> bool" where
  "pending_ok c (P_Subscribe key ch) = own_ok c key ch"
| "pending_ok c _ = True"

fun pc_ok :: "client \<Rightarrow> pc \<Rightarrow> bool" where
  "pc_ok c (Ready q key) = pending_ok c q"
| "pc_ok c (Writing q cid i b) = (pending_ok c q \<and> i < length (cl_results c))"
| "pc_ok c (Waiting q cid i) = (pending_ok c q \<and> i < length (cl_results c))"
| "pc_ok c (Forgetting q cid e) = pending_ok c q"
| "pc_ok c (Sent q r) = pending_ok c q"
| "pc_ok c (SubAborting key ch e) = own_ok c key ch"
| "pc_ok c (SubClosing ch e) = (ch < length (cl_messages c) \<and> (\<forall>k. map_of (cl_subs c) k \<noteq> Some ch))"
| "pc_ok c (SubPushing ch m) = (ch < length (cl_messages c))"
| "pc_ok c _ = True"

definition sys_inv :: "system \<Rightarrow> bool" where
  "sys_inv s \<longleftrightarrow> client_inv (sy_client s) \<and> (\<forall>p \<in> set (sy_pcs s). pc_ok (sy_client s) p)"

text \<open>What every step does to the client: channels are only added, and an old channel is never
  registered anew.\<close>

definition evolves :: "client \<Rightarrow> client \<Rightarrow> bool" where
  "evolves c c' \<longleftrightarrow> length (cl_results c) \<le> length (cl_results c')
     \<and> length (cl_messages c) \<le> length (cl_messages c')
     \<and> (\<forall>k ch. ch < length (cl_messages c) \<longrightarrow> map_of (cl_subs c') k = Some ch \<longrightarrow> map_of (cl_subs c) k = Some ch)"

lemma pending_ok_mono: "pending_ok c q \<Longrightarrow> evolves c c' \<Longrightarrow> pending_ok c' q"
  by (cases q) (auto simp: own_ok_def evolves_def)

lemma pc_ok_mono: "pc_ok c p \<Longrightarrow> evolves c c' \<Longrightarrow> pc_ok c' p"
  using pending_ok_mono [of c _ c']
  by (cases p) (auto simp: own_ok_def evolves_def)

lemma evolves_refl [simp]: "evolves c c"
  by (simp add: evolves_def)

lemma evolves_simple:
  "cl_subs c' = cl_subs c \<Longrightarrow> length (cl_results c') = length (cl_results c)
    \<Longrightarrow> length (cl_messages c') = length (cl_messages c) \<Longrightarrow> evolves c c'"
  by (simp add: evolves_def)

lemma evolves_delete_sub: "evolves c (delete_sub key c)"
  by (auto simp: evolves_def delete_sub_def AList.delete_conv' split: if_splits)

lemma evolves_dispatched: "evolves c (dispatched tx c)"
  using dispatched_shrinks(2) [of tx c] by (simp add: evolves_def)

lemma evolves_drained: "evolves c (drained r c)"
  by (simp add: evolves_def drained_def)

lemma evolves_send_register: "evolves c (snd (send_register cid c))"
  by (simp add: evolves_def send_register_def Let_def)

lemma evolves_Subscribe_register: "evolves c (snd (Subscribe_register key c))"
  by (auto simp: evolves_def Subscribe_register_def Let_def AList.update_conv' split: if_splits)

lemma inv_goto:
  assumes "sys_inv s" "client_inv c'" "evolves (sy_client s) c'" "pc_ok c' p"
  shows "sys_inv (goto t p c' s)"
proof -
  have "pc_ok c' q" if "q \<in> set ((sy_pcs s)[t := p])" for q
  proof -
    have "q = p \<or> q \<in> set (sy_pcs s)"
      using that set_update_subset_insert [of "sy_pcs s" t p] by auto
    then show ?thesis using assms pc_ok_mono [of "sy_client s" q c'] by (auto simp: sys_inv_def)
  qed
  with assms(2) show ?thesis by (simp add: sys_inv_def goto_def)
qed

lemma inv_set_reader:
  assumes "sys_inv s" "client_inv c'" "evolves (sy_client s) c'"
  shows "sys_inv (set_reader r c' s)"
  using assms pc_ok_mono by (auto simp: sys_inv_def set_reader_def)

lemma sys_inv_simps [simp]:
  "sys_inv (s\<lparr>sy_crash := x\<rparr>) = sys_inv s" "sys_inv (s\<lparr>sy_sent := ys\<rparr>) = sys_inv s"
  by (simp_all add: sys_inv_def)

lemma settle_Some:
  "settle r k s = Some s' \<longleftrightarrow> (\<exists>x. r = Done x \<and> s' = k x) \<or> (\<exists>m. r = Panics m \<and> s' = s\<lparr>sy_crash := Some m\<rparr>)"
  by (cases r) auto

lemma inv_settle:
  assumes "settle r k s = Some s'" "sys_inv s" "\<And>x. r = Done x \<Longrightarrow> sys_inv (k x)"
  shows "sys_inv s'"
  using assms by (auto simp: settle_Some)

text \<open>Operations on a channel outside the mutex.\<close>

lemma client_inv_results:
  assumes "client_inv c" "cl_results c ! i \<noteq> make_chan 1"
  shows "client_inv (c\<lparr>cl_results := (cl_results c)[i := ch]\<rparr>)"
proof -
  have m: "registry_ok (cl_sentCmds c) (cl_results c) (\<lambda>ch. ch = make_chan 1)"
    using assms(1) by (simp add: client_inv_def maps_ok_def)
  have "map_of (cl_sentCmds c) k \<noteq> Some i" for k
    using registry_lookup [OF m, of k i] assms(2) by auto
  then have "registry_ok (cl_sentCmds c) ((cl_results c)[i := ch]) (\<lambda>ch. ch = make_chan 1)"
    by (intro registry_change [OF m]) simp
  with assms(1) show ?thesis by (simp add: client_inv_def maps_ok_def)
qed

lemma client_inv_messages:
  assumes "client_inv c" "(\<forall>k. map_of (cl_subs c) k \<noteq> Some i) \<or> (\<not> ch_closed (cl_messages c ! i) \<longrightarrow> \<not> ch_closed ch)"
  shows "client_inv (c\<lparr>cl_messages := (cl_messages c)[i := ch]\<rparr>)"
proof -
  have m: "registry_ok (cl_subs c) (cl_messages c) (\<lambda>ch. \<not> ch_closed ch)"
    using assms(1) by (simp add: client_inv_def maps_ok_def)
  then have "registry_ok (cl_subs c) ((cl_messages c)[i := ch]) (\<lambda>ch. \<not> ch_closed ch)"
    using assms(2) registry_lookup [OF m] by (intro registry_change [OF m]) blast
  with assms(1) show ?thesis by (simp add: client_inv_def maps_ok_def)
qed

lemma on_messages_Done:
  "on_messages i f c = Done c' \<longleftrightarrow> (\<exists>ch. f (cl_messages c ! i) = Done ch \<and> c' = c\<lparr>cl_messages := (cl_messages c)[i := ch]\<rparr>)"
  by (auto simp: on_messages_def at_chan_def)

section \<open>The invariant holds in every reachable state\<close>

lemma reader_step_cases:
  assumes "reader_step l r s = Some s'"
  obtains (block) block where "l = L_Block block" "r = Reading"
    | (next') "l = L_Dispatch" "r = Dispatching []"
    | (disp) tx txs where "l = L_Dispatch" "r = Dispatching (tx # txs)"
    | (err) err cids keys where "l = L_ReadErr err cids keys" "r = Reading"
    | (exit) "l = L_ReaderExit" "r = Exiting"
  using assms
  by (cases l; cases r) (auto simp: reader_step_def Let_def split: list.splits)

lemma inv_reader_step:
  assumes "sys_inv s" "reader_step l r s = Some s'"
  shows "sys_inv s'"
proof -
  let ?c = "sy_client s"
  have inv: "client_inv ?c" and m: "maps_ok ?c"
    using assms(1) by (simp_all add: sys_inv_def client_inv_def)
  consider (block) block where "l = L_Block block" "r = Reading"
    | (next') "l = L_Dispatch" "r = Dispatching []"
    | (disp) tx txs where "l = L_Dispatch" "r = Dispatching (tx # txs)"
    | (err) err cids keys where "l = L_ReadErr err cids keys" "r = Reading"
    | (exit) "l = L_ReaderExit" "r = Exiting"
    using assms(2) by (rule reader_step_cases)
  then show ?thesis
  proof cases
    case block
    then show ?thesis
      using assms inv by (auto simp: reader_step_def Let_def split: sum.splits intro!: inv_set_reader)
  next
    case next'
    then show ?thesis using assms inv by (auto simp: reader_step_def Let_def intro!: inv_set_reader)
  next
    case disp
    then show ?thesis
      using assms inv by (auto simp: reader_step_def Let_def dispatch_eq [OF m] evolves_dispatched
          intro!: inv_set_reader client_inv_dispatched)
  next
    case err
    then have it: "iterates cids (cl_sentCmds ?c)" "iterates keys (cl_subs ?c)"
      using assms(2) by (auto simp: reader_step_def Let_def split: if_splits)
    show ?thesis
      using err it assms inv
      by (auto simp: reader_step_def Let_def handleReadError_eq [OF m it] drained_inv evolves_drained
          intro!: inv_set_reader split: if_splits)
  next
    case exit
    then show ?thesis
      using assms inv by (auto simp: reader_step_def Let_def client_inv_def intro!: inv_set_reader evolves_simple)
  qed
qed

lemma inv_consume_step:
  assumes "sys_inv s" "consume_step ch s = Some s'"
  shows "sys_inv s'"
proof -
  let ?c = "sy_client s"
  from assms(2) obtain r ch' where r: "chan_recv (cl_messages ?c ! ch) = Done (r, ch')"
    and s': "s' = set_reader (sy_reader s) (?c\<lparr>cl_messages := (cl_messages ?c)[ch := ch']\<rparr>) s"
    by (auto simp: consume_step_def settle_Some set_reader_def chan_recv_def split: if_splits list.splits)
  have "ch_closed ch' = ch_closed (cl_messages ?c ! ch)"
    using r by (auto simp: chan_recv_def split: list.splits if_splits)
  then have "client_inv (?c\<lparr>cl_messages := (cl_messages ?c)[ch := ch']\<rparr>)"
    using assms(1) by (intro client_inv_messages) (auto simp: sys_inv_def)
  then show ?thesis
    unfolding s' using assms(1) by (intro inv_set_reader evolves_simple) simp_all
qed

lemma inv_start:
  assumes "sys_inv s"
  shows "sys_inv (start t cl key s)"
proof -
  let ?c = "sy_client s"
  have inv: "client_inv ?c" using assms by (simp add: sys_inv_def)
  have sub: "sys_inv (case Subscribe_register q ?c of
      (Inl e, c') \<Rightarrow> goto t (Returned (R_sub (Inl e))) c' s
    | (Inr ch, c') \<Rightarrow> goto t (Ready (P_Subscribe q ch) key) c' s)" for q
  proof -
    obtain r c' where r: "Subscribe_register q ?c = (r, c')" by (cases "Subscribe_register q ?c")
    have c': "client_inv c'" "evolves ?c c'"
      using Subscribe_register_inv [OF inv, of q] evolves_Subscribe_register [of ?c q] r by simp_all
    show ?thesis
    proof (cases r)
      case (Inl e)
      with r c' assms show ?thesis by (simp add: inv_goto)
    next
      case (Inr ch)
      then have "ch < length (cl_messages c')" "map_of (cl_subs c') q = Some ch"
        using r by (auto simp: Subscribe_register_def Let_def AList.update_conv' split: if_splits)
      moreover have "k = q" if "map_of (cl_subs c') k = Some ch" for k
      proof (rule registry_inj)
        show "registry_ok (cl_subs c') (cl_messages c') (\<lambda>ch. \<not> ch_closed ch)"
          using c'(1) by (simp add: client_inv_def maps_ok_def)
      qed (use calculation(2) that in simp_all)
      ultimately have "own_ok c' q ch" unfolding own_ok_def by blast
      with r Inr c' assms show ?thesis by (simp add: inv_goto)
    qed
  qed
  show ?thesis
  proof (cases cl)
    case (Call_Subscribe q)
    with sub [of q] show ?thesis by (simp add: start_def)
  next
    case (Call_NewQueue req)
    then show ?thesis
      using assms inv by (cases "NewQueue_request req") (simp_all add: start_def inv_goto)
  qed (use assms inv in \<open>simp_all add: start_def inv_goto\<close>)
qed

lemma inv_send_step:
  assumes "sys_inv s" "pending_ok (sy_client s) q"
  shows "sys_inv (send_step t q key rnd s)"
proof -
  let ?c = "sy_client s"
  have inv: "client_inv ?c" using assms by (simp add: sys_inv_def)
  show ?thesis
  proof (cases "send_prepare (cl_params ?c) rnd key (fst (request_of q)) (snd (request_of q))")
    case (Inl e)
    with assms inv show ?thesis by (simp add: send_step_def inv_goto)
  next
    case (Inr cb)
    obtain cid block where cb: "cb = (cid, block)" by (cases cb)
    obtain r c' where r: "send_register cid ?c = (r, c')" by (cases "send_register cid ?c")
    have c': "client_inv c'" "evolves ?c c'"
      using send_register_inv [OF inv, of cid] evolves_send_register [of ?c cid] r by simp_all
    have "case r of Inl e \<Rightarrow> True | Inr i \<Rightarrow> i < length (cl_results c')"
      using r by (auto simp: send_register_def Let_def split: if_splits)
    then show ?thesis
      using Inr cb r c' assms pending_ok_mono [OF assms(2) c'(2)]
      by (cases r) (simp_all add: send_step_def inv_goto)
  qed
qed

lemma caller_step_cases:
  assumes "caller_step l t p s = Some s'"
  obtains (start) u cl key where "l = L_Start u cl key" "p = Idle"
    | (send) u rnd q key where "l = L_Send u rnd" "p = Ready q key"
    | (wr) u r q cid i block where "l = L_Write u r" "p = Writing q cid i block"
    | (receive) u q cid i where "l = L_Receive u" "p = Waiting q cid i"
    | (cancel) u e q cid i where "l = L_Cancel u e" "p = Waiting q cid i"
    | (forget) u q cid e where "l = L_Forget u" "p = Forgetting q cid e"
    | (finish) u q r where "l = L_Finish u" "p = Sent q r"
    | (abort) u key ch e where "l = L_Abort u" "p = SubAborting key ch e"
    | (closesub) u ch e where "l = L_CloseSub u" "p = SubClosing ch e"
    | (push) u ch m where "l = L_Push u" "p = SubPushing ch m"
    | (close) u cids keys where "l = L_Close u cids keys" "p = Idle"
    | (closetx) u r where "l = L_CloseTx u r" "p = CloseTx"
    | (join) u r where "l = L_Join u" "p = CloseJoin r"
  using assms by (cases l; cases p) (simp_all add: caller_step_def Let_def)

lemma chan_recv_Done:
  "chan_recv ch = Done (r, ch') \<Longrightarrow> ch_closed ch' = ch_closed ch \<and> (ch_buf ch \<noteq> [] \<or> ch_closed ch)"
  by (auto simp: chan_recv_def split: list.splits if_splits)

lemma chan_recv_no_panic: "chan_recv ch \<noteq> Panics m"
  by (simp add: chan_recv_def split: list.split)

lemma inv_receive:
  assumes "sys_inv s" "pc_ok (sy_client s) (Waiting q cid i)" "chan_recv (cl_results (sy_client s) ! i) = Done (r, ch)"
  shows "sys_inv (goto t (Sent q x) ((sy_client s)\<lparr>cl_results := (cl_results (sy_client s))[i := ch]\<rparr>) s)"
proof -
  let ?c = "sy_client s"
  have "cl_results ?c ! i \<noteq> make_chan 1"
    using chan_recv_Done [OF assms(3)] by (auto simp: make_chan_def)
  then have "client_inv (?c\<lparr>cl_results := (cl_results ?c)[i := ch]\<rparr>)"
    using assms(1) by (intro client_inv_results) (simp_all add: sys_inv_def)
  moreover have "evolves ?c (?c\<lparr>cl_results := (cl_results ?c)[i := ch]\<rparr>)" by (rule evolves_simple) simp_all
  ultimately show ?thesis
    using assms(1,2) pending_ok_mono [of ?c q] by (intro inv_goto) auto
qed

text \<open>A step on one subscriber's channel that keeps the client's invariant.\<close>

lemma inv_on_messages:
  assumes "sys_inv s" "settle (on_messages ch f (sy_client s)) (\<lambda>c'. goto t (Returned r) c' s) s = Some s'"
    and "\<And>x. f (cl_messages (sy_client s) ! ch) = Done x \<Longrightarrow>
      client_inv ((sy_client s)\<lparr>cl_messages := (cl_messages (sy_client s))[ch := x]\<rparr>)"
  shows "sys_inv s'"
  using assms(2)
proof (cases "on_messages ch f (sy_client s)")
  case (Done c')
  then obtain x where x: "f (cl_messages (sy_client s) ! ch) = Done x"
    and c': "c' = (sy_client s)\<lparr>cl_messages := (cl_messages (sy_client s))[ch := x]\<rparr>"
    by (auto simp: on_messages_def at_chan_def)
  have "evolves (sy_client s) c'" unfolding c' by (rule evolves_simple) simp_all
  with Done assms(1,2) assms(3) [OF x] c' show ?thesis by (auto intro: inv_goto)
qed (use assms(1) in auto)

lemma inv_caller_step:
  assumes "sys_inv s" "pc_ok (sy_client s) p" "caller_step l t p s = Some s'"
  shows "sys_inv s'"
proof -
  let ?c = "sy_client s"
  have inv: "client_inv ?c" and m: "maps_ok ?c"
    using assms(1) by (simp_all add: sys_inv_def client_inv_def)
  note step = assms(3) [unfolded caller_step_def Let_def]
  from assms(3) show ?thesis
  proof (cases rule: caller_step_cases)
    case start
    with step inv_start [OF assms(1)] show ?thesis by auto
  next
    case send
    with step assms(2) inv_send_step [OF assms(1)] show ?thesis by auto
  next
    case (receive u q cid i)
    with step assms(2) inv_receive [OF assms(1), of q cid i] show ?thesis
      by (auto simp: settle_Some chan_recv_no_panic)
  next
    case (forget u q cid e)
    have "evolves ?c (delete_cmd cid ?c)" by (rule evolves_simple) (simp_all add: delete_cmd_def)
    with forget step delete_inv(1) [OF inv] assms(1,2) pending_ok_mono [of ?c q] show ?thesis
      by (auto intro!: inv_goto)
  next
    case (finish u q r)
    have "pc_ok ?c (Client_System.finish q r)"
      using assms(2) finish(2)
      by (cases q) (auto simp: own_ok_def split: sub_action.splits)
    with finish step assms inv show ?thesis by (auto intro!: inv_goto)
  next
    case (abort u key ch e)
    have "pc_ok (delete_sub key ?c) (SubClosing ch e)"
      using assms(2) abort(2) by (auto simp: own_ok_def delete_sub_def AList.delete_conv')
    with abort step assms(1) delete_inv(2) [OF inv] evolves_delete_sub show ?thesis
      by (auto intro!: inv_goto)
  next
    case (closesub u ch e)
    show ?thesis
    proof (rule inv_on_messages [OF assms(1)])
      show "settle (on_messages ch chan_close ?c) (\<lambda>c'. goto t (Returned (R_sub (Inl e))) c' s) s = Some s'"
        using closesub step by simp
      show "client_inv (?c\<lparr>cl_messages := (cl_messages ?c)[ch := x]\<rparr>)" for x
        using assms(2) closesub(2) by (intro client_inv_messages inv) simp
    qed
  next
    case (push u ch msg)
    show ?thesis
    proof (rule inv_on_messages [OF assms(1)])
      show "settle (on_messages ch (chan_send msg) ?c) (\<lambda>c'. goto t (Returned (R_sub (Inr ch))) c' s) s = Some s'"
        using push step by simp
      show "client_inv (?c\<lparr>cl_messages := (cl_messages ?c)[ch := x]\<rparr>)" if "chan_send msg (cl_messages ?c ! ch) = Done x" for x
        using that by (intro client_inv_messages inv) (auto simp: chan_send_def split: if_splits)
    qed
  next
    case (close u cids keys)
    then have it: "iterates cids (cl_sentCmds ?c)" "iterates keys (cl_subs ?c)"
      using step by (auto split: if_splits)
    show ?thesis
      using close step it assms(1) inv
      by (auto simp: Close_locked_eq [OF m it] drained_inv evolves_drained intro!: inv_goto split: if_splits)
  qed (use step assms inv in \<open>auto intro!: inv_goto split: sum.splits if_splits\<close>)
qed

lemma inv_step:
  assumes "sys_inv s" "step l s = Some s'"
  shows "sys_inv s'"
proof (cases "caller l")
  case (Some t)
  with assms(2) have "t < length (sy_pcs s)" "caller_step l t (sy_pcs s ! t) s = Some s'"
    by (auto simp: step_def split: if_splits)
  with assms(1) inv_caller_step [OF assms(1), of "sy_pcs s ! t"] show ?thesis by (auto simp: sys_inv_def)
next
  case None
  with assms(2) show ?thesis
    using inv_reader_step [OF assms(1)] inv_consume_step [OF assms(1)]
    by (cases l) (auto simp: step_def split: if_splits)
qed

lemma reachable_inv: "reachable params n s \<Longrightarrow> sys_inv s"
proof (induction rule: reachable.induct)
  case reach_init
  then show ?case by (simp add: sys_inv_def init_system_def)
qed (rule inv_step)

section \<open>Who can panic, who can block\<close>

lemma crash_simps [simp]:
  "sy_crash (goto t p c s) = sy_crash s" "sy_crash (set_reader r c s) = sy_crash s"
  "sy_crash (start t cl key s) = sy_crash s" "sy_crash (send_step t q key rnd s) = sy_crash s"
  by (simp_all add: goto_def set_reader_def start_def send_step_def Let_def
      split: call.split sum.split prod.split)

lemma caller_crash:
  assumes "client_inv (sy_client s)" "caller_step l t p s = Some s'" "sy_crash s = None" "sy_crash s' = Some m"
    "caller l = Some t"
  shows "(\<exists>ch e. l = L_CloseSub t \<and> p = SubClosing ch e
        \<and> ch_closed (cl_messages (sy_client s) ! ch) \<and> m = ''close of closed channel'')
    \<or> (\<exists>ch msg. l = L_Push t \<and> p = SubPushing ch msg
        \<and> ch_closed (cl_messages (sy_client s) ! ch) \<and> m = ''send on closed channel'')"
proof -
  let ?c = "sy_client s"
  have mo: "maps_ok ?c" using assms(1) by (simp add: client_inv_def)
  note step = assms(2) [unfolded caller_step_def Let_def]
  from assms(2) show ?thesis
  proof (cases rule: caller_step_cases)
    case receive
    with step assms(3-5) show ?thesis
      by (auto simp: settle_Some chan_recv_def split: list.splits if_splits)
  next
    case closesub
    with step assms(3-5) show ?thesis
      by (auto simp: settle_Some on_messages_def at_chan_def obind_eq_Panics chan_panics_iff)
  next
    case push
    with step assms(3-5) show ?thesis
      by (auto simp: settle_Some on_messages_def at_chan_def obind_eq_Panics chan_panics_iff)
  next
    case (close u cids keys)
    then have it: "iterates cids (cl_sentCmds ?c)" "iterates keys (cl_subs ?c)"
      using step by (auto split: if_splits)
    with close step assms(3,4) show ?thesis
      by (auto simp: Close_locked_eq [OF mo it] split: if_splits)
  qed (use step assms(3,4) in \<open>auto split: sum.splits if_splits\<close>)
qed

lemma reader_no_crash:
  assumes "client_inv (sy_client s)" "reader_step l r s = Some s'" "sy_crash s = None"
  shows "sy_crash s' = None"
proof -
  let ?c = "sy_client s"
  have mo: "maps_ok ?c" using assms(1) by (simp add: client_inv_def)
  note step = assms(2) [unfolded reader_step_def Let_def]
  from assms(2) show ?thesis
  proof (cases rule: reader_step_cases)
    case disp
    with step assms(3) show ?thesis by (auto simp: dispatch_eq [OF mo])
  next
    case (err e cids keys)
    then have it: "iterates cids (cl_sentCmds ?c)" "iterates keys (cl_subs ?c)"
      using step by (auto split: if_splits)
    with err step assms(3) show ?thesis
      by (auto simp: handleReadError_eq [OF mo it] split: if_splits)
  qed (use step assms(3) in \<open>auto split: sum.splits\<close>)
qed

lemma consume_no_crash:
  "consume_step ch s = Some s' \<Longrightarrow> sy_crash s = None \<Longrightarrow> sy_crash s' = None"
  by (auto simp: consume_step_def settle_Some chan_recv_def split: if_splits list.splits)

text \<open>C17: In any interleaving of any number of callers with the reader, whatever the server sends
  and however the transport fails, the process can panic at two places only, both in
  \<open>Subscribe\<close> after its \<open>send\<close>: closing a channel that END, \<open>Close\<close> or a read error has already
  closed, or pushing an inline message into such a channel. The reader, \<open>Close\<close> and the other
  methods never panic.\<close>

theorem only_Subscribe_can_panic:
  assumes "reachable params n s" and "step l s = Some s'" and "sy_crash s' = Some m"
  shows "\<exists>t ch. t < length (sy_pcs s) \<and> ch_closed (cl_messages (sy_client s) ! ch)
    \<and> (l = L_CloseSub t \<and> m = ''close of closed channel'' \<and> (\<exists>e. sy_pcs s ! t = SubClosing ch e)
       \<or> l = L_Push t \<and> m = ''send on closed channel'' \<and> (\<exists>msg. sy_pcs s ! t = SubPushing ch msg))"
proof -
  have inv: "client_inv (sy_client s)" using reachable_inv [OF assms(1)] by (simp add: sys_inv_def)
  have up: "sy_crash s = None" using assms(2) by (auto simp: step_def split: if_splits)
  show ?thesis
  proof (cases "caller l")
    case None
    then have "sy_crash s' = None"
      using assms(2) up reader_no_crash [OF inv _ up] consume_no_crash [OF _ up]
      by (cases l) (auto simp: step_def)
    with assms(3) show ?thesis by simp
  next
    case (Some t)
    with assms(2) up have t: "t < length (sy_pcs s)" "caller_step l t (sy_pcs s ! t) s = Some s'"
      by (auto simp: step_def split: if_splits)
    from caller_crash [OF inv t(2) up assms(3) Some] t(1) show ?thesis by auto
  qed
qed

lemma iterates_keys: "registry_ok m s P \<Longrightarrow> iterates (map fst m) m"
  by (simp add: iterates_def registry_ok_def)

section \<open>No lost wake-up\<close>

fun holds_cid :: "pc \<Rightarrow> corr_id option" where
  "holds_cid (Writing q cid i b) = Some cid"
| "holds_cid (Waiting q cid i) = Some cid"
| "holds_cid (Forgetting q cid e) = Some cid"
| "holds_cid _ = None"

fun live :: "pc \<Rightarrow> (corr_id \<times> nat) option" where
  "live (Writing q cid i b) = Some (cid, i)"
| "live (Waiting q cid i) = Some (cid, i)"
| "live _ = None"

text \<open>The random correlation ids are neither zero nor in use: the one assumption about
  \<open>rand.Reader\<close>.\<close>

fun fresh :: "label \<Rightarrow> system \<Rightarrow> bool" where
  "fresh (L_Send t (Inr cid)) s = (cid \<noteq> NoCorrID \<and> Some cid \<notin> set (map holds_cid (sy_pcs s)))"
| "fresh _ s = True"

inductive reachable_fresh :: "handshake_params \<Rightarrow> nat \<Rightarrow> system \<Rightarrow> bool" for params n where
  fresh_init: "reachable_fresh params n (init_system params n)"
| fresh_step: "reachable_fresh params n s \<Longrightarrow> fresh l s \<Longrightarrow> step l s = Some s' \<Longrightarrow> reachable_fresh params n s'"

lemma reachable_fresh_reachable: "reachable_fresh params n s \<Longrightarrow> reachable params n s"
  by (induction rule: reachable_fresh.induct) (auto intro: reachable.intros)

text \<open>A call that waits is registered, or its answer is in its channel.\<close>

definition served :: "client \<Rightarrow> corr_id \<Rightarrow> nat \<Rightarrow> bool" where
  "served c cid i \<longleftrightarrow> i < length (cl_results c)
     \<and> (map_of (cl_sentCmds c) cid = Some i \<or> (\<exists>r. cl_results c ! i = answered r))"

definition wait_inv :: "system \<Rightarrow> bool" where
  "wait_inv s \<longleftrightarrow> (\<forall>t < length (sy_pcs s).
       (\<forall>cid i. live (sy_pcs s ! t) = Some (cid, i) \<longrightarrow> served (sy_client s) cid i)
     \<and> holds_cid (sy_pcs s ! t) \<noteq> Some NoCorrID
     \<and> (\<forall>u < length (sy_pcs s). u \<noteq> t \<longrightarrow>
          (\<forall>cid. holds_cid (sy_pcs s ! t) = Some cid \<longrightarrow> holds_cid (sy_pcs s ! u) \<noteq> Some cid)
        \<and> (\<forall>cid cid' i. live (sy_pcs s ! t) = Some (cid, i) \<longrightarrow> live (sy_pcs s ! u) \<noteq> Some (cid', i))))"

definition keeps :: "client \<Rightarrow> client \<Rightarrow> bool" where
  "keeps c c' \<longleftrightarrow> (\<forall>cid i. cid \<noteq> NoCorrID \<longrightarrow> served c cid i \<longrightarrow> served c' cid i)"

lemma live_holds: "live p = Some (cid, i) \<Longrightarrow> holds_cid p = Some cid"
  by (cases p) auto

lemma keeps_same: "cl_sentCmds c' = cl_sentCmds c \<Longrightarrow> cl_results c' = cl_results c \<Longrightarrow> keeps c c'"
  by (simp add: keeps_def served_def)

lemma answered_not_fresh: "answered r \<noteq> make_chan n" "make_chan n \<noteq> answered r"
  by (simp_all add: answered_def make_chan_def)

lemma keeps_dispatched:
  assumes "maps_ok c"
  shows "keeps c (dispatched tx c)"
  unfolding keeps_def
proof (intro allI impI)
  fix cid i assume cid: "cid \<noteq> NoCorrID" and s: "served c cid i"
  show "served (dispatched tx c) cid i"
  proof (cases "map_of (cl_sentCmds c) cid = Some i")
    case True
    then have "map_of (cl_sentCmds (dispatched tx c)) cid = Some i \<or> (\<exists>r. cl_results (dispatched tx c) ! i = answered r)"
      using dispatched_reply [OF assms True cid, of tx] by (auto split: option.splits if_splits)
    with s show ?thesis by (simp add: served_def)
  next
    case False
    with s obtain r where r: "cl_results c ! i = answered r" by (auto simp: served_def)
    have "map_of (cl_sentCmds c) k \<noteq> Some i" for k
      using registry_lookup [OF maps_okD(1) [OF assms], of k i] r by (auto simp: answered_not_fresh)
    with dispatched_unregistered(1) [OF assms, of i tx] r s show ?thesis by (auto simp: served_def)
  qed
qed

lemma keeps_drained:
  assumes "maps_ok c"
  shows "keeps c (drained r c)"
proof -
  have "served (drained r c) cid i" if "served c cid i" for cid i
  proof (cases "i \<in> snd ` set (cl_sentCmds c)")
    case True
    then show ?thesis using that by (auto simp: served_def drained_def)
  next
    case False
    then have "map_of (cl_sentCmds c) cid \<noteq> Some i" by (metis image_eqI map_of_SomeD snd_conv)
    with False that show ?thesis by (auto simp: served_def drained_def)
  qed
  then show ?thesis by (simp add: keeps_def)
qed

lemma wait_invD:
  assumes "wait_inv s" "t < length (sy_pcs s)" "live (sy_pcs s ! t) = Some (cid, i)"
  shows "served (sy_client s) cid i" "cid \<noteq> NoCorrID"
proof -
  show "served (sy_client s) cid i" using assms by (simp add: wait_inv_def)
  have "holds_cid (sy_pcs s ! t) \<noteq> Some NoCorrID" using assms(1,2) by (simp add: wait_inv_def)
  then show "cid \<noteq> NoCorrID" using live_holds [OF assms(3)] by auto
qed

lemma wait_client:
  assumes "wait_inv s" "keeps (sy_client s) c"
  shows "wait_inv (set_reader r c s)"
proof -
  have "served c cid i" if "t < length (sy_pcs s)" "live (sy_pcs s ! t) = Some (cid, i)" for t cid i
    using wait_invD [OF assms(1) that] assms(2) by (simp add: keeps_def)
  then have 1: "\<forall>t < length (sy_pcs s). \<forall>cid i. live (sy_pcs s ! t) = Some (cid, i) \<longrightarrow> served c cid i"
    by blast
  have eq: "sy_pcs (set_reader r c s) = sy_pcs s" "sy_client (set_reader r c s) = c"
    by (simp_all add: set_reader_def)
  show ?thesis using assms(1) 1 unfolding wait_inv_def eq by blast
qed

lemma wait_goto:
  assumes "wait_inv s" "t < length (sy_pcs s)"
    and others: "\<And>u cid i. u < length (sy_pcs s) \<Longrightarrow> u \<noteq> t \<Longrightarrow> live (sy_pcs s ! u) = Some (cid, i) \<Longrightarrow> served c cid i"
    and live: "\<And>cid i. live p = Some (cid, i) \<Longrightarrow> served c cid i
       \<and> (\<forall>u < length (sy_pcs s). u \<noteq> t \<longrightarrow> (\<forall>cid'. live (sy_pcs s ! u) \<noteq> Some (cid', i)))"
    and hold: "\<And>cid. holds_cid p = Some cid \<Longrightarrow> cid \<noteq> NoCorrID
       \<and> (\<forall>u < length (sy_pcs s). u \<noteq> t \<longrightarrow> holds_cid (sy_pcs s ! u) \<noteq> Some cid)"
  shows "wait_inv (goto t p c s)"
  unfolding wait_inv_def
proof (intro allI impI)
  fix v assume "v < length (sy_pcs (goto t p c s))"
  then have v: "v < length (sy_pcs s)" by (simp add: goto_def)
  let ?q = "sy_pcs (goto t p c s) ! v"
  have q: "?q = (if v = t then p else sy_pcs s ! v)"
    using v assms(2) by (simp add: goto_def nth_list_update)
  have old: "\<And>u cid. u < length (sy_pcs s) \<Longrightarrow> u \<noteq> v \<Longrightarrow> holds_cid (sy_pcs s ! v) = Some cid \<Longrightarrow> holds_cid (sy_pcs s ! u) \<noteq> Some cid"
    "\<And>u cid cid' i. u < length (sy_pcs s) \<Longrightarrow> u \<noteq> v \<Longrightarrow> live (sy_pcs s ! v) = Some (cid, i) \<Longrightarrow> live (sy_pcs s ! u) \<noteq> Some (cid', i)"
    "holds_cid (sy_pcs s ! v) \<noteq> Some NoCorrID"
    using assms(1) v unfolding wait_inv_def by blast+
  have 1: "\<forall>cid i. live ?q = Some (cid, i) \<longrightarrow> served (sy_client (goto t p c s)) cid i"
    using q live others v by (auto simp: goto_def)
  have 2: "holds_cid ?q \<noteq> Some NoCorrID" using q hold old(3) by auto
  have 3: "(\<forall>cid. holds_cid ?q = Some cid \<longrightarrow> holds_cid (sy_pcs (goto t p c s) ! u) \<noteq> Some cid)
      \<and> (\<forall>cid cid' i. live ?q = Some (cid, i) \<longrightarrow> live (sy_pcs (goto t p c s) ! u) \<noteq> Some (cid', i))"
    if u: "u < length (sy_pcs s)" "u \<noteq> v" for u
  proof -
    have qu: "sy_pcs (goto t p c s) ! u = (if u = t then p else sy_pcs s ! u)"
      using u(1) assms(2) by (simp add: goto_def nth_list_update)
    show ?thesis
    proof (cases "v = t")
      case True
      with q qu u hold live show ?thesis by auto
    next
      case False
      show ?thesis
      proof (cases "u = t")
        case True
        with q qu v False hold live show ?thesis by auto
      next
        case other: False
        with q qu False old u show ?thesis by auto
      qed
    qed
  qed
  show "(\<forall>cid i. live ?q = Some (cid, i) \<longrightarrow> served (sy_client (goto t p c s)) cid i)
     \<and> holds_cid ?q \<noteq> Some NoCorrID
     \<and> (\<forall>u < length (sy_pcs (goto t p c s)). u \<noteq> v \<longrightarrow>
          (\<forall>cid. holds_cid ?q = Some cid \<longrightarrow> holds_cid (sy_pcs (goto t p c s) ! u) \<noteq> Some cid)
        \<and> (\<forall>cid cid' i. live ?q = Some (cid, i) \<longrightarrow> live (sy_pcs (goto t p c s) ! u) \<noteq> Some (cid', i)))"
    using 1 2 3 by (simp add: goto_def)
qed

text \<open>Steps of one caller that keep what the others wait for.\<close>

lemma wait_goto_keeps:
  assumes "wait_inv s" "t < length (sy_pcs s)" "keeps (sy_client s) c"
    and "live p = None \<or> live p = live (sy_pcs s ! t)"
    and "holds_cid p = None \<or> holds_cid p = holds_cid (sy_pcs s ! t)"
  shows "wait_inv (goto t p c s)"
proof (rule wait_goto [OF assms(1,2)])
  have all: "served c cid i" if "u < length (sy_pcs s)" "live (sy_pcs s ! u) = Some (cid, i)" for u cid i
    using wait_invD [OF assms(1) that] assms(3) by (simp add: keeps_def)
  show "served c cid i" if "u < length (sy_pcs s)" "u \<noteq> t" "live (sy_pcs s ! u) = Some (cid, i)" for u cid i
    using all that by blast
  show "served c cid i \<and> (\<forall>u<length (sy_pcs s). u \<noteq> t \<longrightarrow> (\<forall>cid'. live (sy_pcs s ! u) \<noteq> Some (cid', i)))"
    if l: "live p = Some (cid, i)" for cid i
  proof -
    have "live (sy_pcs s ! t) = Some (cid, i)" using l assms(4) by auto
    with all [OF assms(2) this] assms(1,2) show ?thesis unfolding wait_inv_def by blast
  qed
  show "cid \<noteq> NoCorrID \<and> (\<forall>u<length (sy_pcs s). u \<noteq> t \<longrightarrow> holds_cid (sy_pcs s ! u) \<noteq> Some cid)"
    if h: "holds_cid p = Some cid" for cid
  proof -
    have "holds_cid (sy_pcs s ! t) = Some cid" using h assms(5) by auto
    with assms(1,2) show ?thesis unfolding wait_inv_def by blast
  qed
qed

lemma served_register:
  assumes "\<not> cl_closed c" "send_register cid c = (Inr i, c')"
  shows "served c' cid i" "i = length (cl_results c)"
    "served c k j \<Longrightarrow> k \<noteq> cid \<Longrightarrow> served c' k j"
  using assms send_register_open [OF assms(1), of cid]
  by (auto simp: served_def AList.update_conv' nth_append)

lemma wait_send_step:
  assumes "wait_inv s" "t < length (sy_pcs s)" "fresh (L_Send t rnd) s"
  shows "wait_inv (send_step t q key rnd s)"
proof -
  let ?c = "sy_client s"
  show ?thesis
  proof (cases "send_prepare (cl_params ?c) rnd key (fst (request_of q)) (snd (request_of q))")
    case (Inl e)
    with assms show ?thesis by (simp add: send_step_def wait_goto_keeps keeps_same)
  next
    case (Inr cb)
    obtain cid block where cb: "cb = (cid, block)" by (cases cb)
    have rnd: "rnd = Inr cid" using Inr unfolding cb by (rule send_prepare_Inr)
    with assms(3) have cid: "cid \<noteq> NoCorrID" "\<And>u. u < length (sy_pcs s) \<Longrightarrow> holds_cid (sy_pcs s ! u) \<noteq> Some cid"
      by (auto simp: image_iff) (metis nth_mem)
    show ?thesis
    proof (cases "cl_closed ?c")
      case True
      have "keeps ?c (?c\<lparr>cl_results := cl_results ?c @ [make_chan 1]\<rparr>)"
        by (auto simp: keeps_def served_def nth_append)
      with True Inr cb assms show ?thesis
        by (simp add: send_step_def Let_def send_register_closed wait_goto_keeps)
    next
      case False
      obtain i c' where r: "send_register cid ?c = (Inr i, c')"
        by (simp add: send_register_open [OF False])
      note reg = served_register [OF False r]
      have "wait_inv (goto t (Writing q cid i block) c' s)"
      proof (rule wait_goto [OF assms(1,2)])
        fix u k j assume u: "u < length (sy_pcs s)" "u \<noteq> t" "live (sy_pcs s ! u) = Some (k, j)"
        then have "k \<noteq> cid" using cid(2) live_holds by blast
        with wait_invD(1) [OF assms(1) u(1,3)] show "served c' k j" by (rule reg(3))
      next
        fix k j assume "live (Writing q cid i block) = Some (k, j)"
        then have "k = cid" "j = i" by simp_all
        moreover have "live (sy_pcs s ! u) \<noteq> Some (cid', i)" if "u < length (sy_pcs s)" for u cid'
          using wait_invD(1) [OF assms(1) that, of cid' i] reg(2) by (auto simp: served_def)
        ultimately show "served c' k j \<and> (\<forall>u<length (sy_pcs s). u \<noteq> t \<longrightarrow> (\<forall>cid'. live (sy_pcs s ! u) \<noteq> Some (cid', j)))"
          using reg(1) by blast
      next
        fix k assume "holds_cid (Writing q cid i block) = Some k"
        then show "k \<noteq> NoCorrID \<and> (\<forall>u<length (sy_pcs s). u \<noteq> t \<longrightarrow> holds_cid (sy_pcs s ! u) \<noteq> Some k)"
          using cid by auto
      qed
      with Inr cb r show ?thesis by (simp add: send_step_def)
    qed
  qed
qed

lemma wait_start:
  assumes "wait_inv s" "t < length (sy_pcs s)"
  shows "wait_inv (start t cl key s)"
proof -
  let ?c = "sy_client s"
  have k: "keeps ?c (snd (Subscribe_register q ?c))" for q
    by (rule keeps_same) (simp_all add: Subscribe_register_def Let_def)
  have sub: "wait_inv (case Subscribe_register q ?c of
      (Inl e, c') \<Rightarrow> goto t (Returned (R_sub (Inl e))) c' s
    | (Inr ch, c') \<Rightarrow> goto t (Ready (P_Subscribe q ch) key) c' s)" for q
    using k [of q] assms
    by (cases "Subscribe_register q ?c") (auto intro!: wait_goto_keeps split: sum.split)
  show ?thesis
  proof (cases cl)
    case (Call_Subscribe q)
    with sub [of q] show ?thesis by (simp add: start_def)
  next
    case (Call_NewQueue req)
    with assms show ?thesis
      by (cases "NewQueue_request req") (simp_all add: start_def wait_goto_keeps keeps_same)
  qed (use assms in \<open>simp_all add: start_def wait_goto_keeps keeps_same\<close>)
qed

lemma wait_crash [simp]: "wait_inv (s\<lparr>sy_crash := x\<rparr>) = wait_inv s" "wait_inv (s\<lparr>sy_sent := y\<rparr>) = wait_inv s"
  by (simp_all add: wait_inv_def)

lemma live_finish [simp]: "live (finish q r) = None" "holds_cid (finish q r) = None"
  by (cases q; simp split: sub_action.split)+

lemma keeps_messages [simp]: "keeps c (c\<lparr>cl_messages := x\<rparr>)" "keeps c (delete_sub key c)" "keeps c c"
    "keeps c (c\<lparr>cl_readerDone := b\<rparr>)"
  by (simp_all add: keeps_same delete_sub_def)

lemma wait_receive:
  assumes "wait_inv s" "t < length (sy_pcs s)" "sy_pcs s ! t = Waiting q cid i"
  shows "wait_inv (goto t (Sent q x) ((sy_client s)\<lparr>cl_results := (cl_results (sy_client s))[i := ch]\<rparr>) s)"
proof (rule wait_goto [OF assms(1,2)])
  fix u k j assume u: "u < length (sy_pcs s)" "u \<noteq> t" "live (sy_pcs s ! u) = Some (k, j)"
  have "live (sy_pcs s ! t) = Some (cid, i)" using assms(3) by simp
  then have "live (sy_pcs s ! u) \<noteq> Some (k, i)"
    using assms(1,2) u(1,2) unfolding wait_inv_def by blast
  with wait_invD(1) [OF assms(1) u(1,3)] u(3)
  show "served ((sy_client s)\<lparr>cl_results := (cl_results (sy_client s))[i := ch]\<rparr>) k j"
    by (auto simp: served_def)
qed (simp_all add: assms(3))

lemma wait_forget:
  assumes "wait_inv s" "t < length (sy_pcs s)" "sy_pcs s ! t = Forgetting q cid e"
  shows "wait_inv (goto t (Sent q x) (delete_cmd cid (sy_client s)) s)"
proof (rule wait_goto [OF assms(1,2)])
  fix u k j assume u: "u < length (sy_pcs s)" "u \<noteq> t" "live (sy_pcs s ! u) = Some (k, j)"
  have "holds_cid (sy_pcs s ! t) = Some cid" using assms(3) by simp
  then have "holds_cid (sy_pcs s ! u) \<noteq> Some cid"
    using assms(1,2) u(1,2) unfolding wait_inv_def by blast
  then have "k \<noteq> cid" using live_holds [OF u(3)] by auto
  with wait_invD(1) [OF assms(1) u(1,3)] show "served (delete_cmd cid (sy_client s)) k j"
    by (auto simp: served_def delete_cmd_def)
qed (simp_all add: assms(3))

lemma wait_caller_step:
  assumes "wait_inv s" "client_inv (sy_client s)" "t < length (sy_pcs s)"
    "caller_step l t (sy_pcs s ! t) s = Some s'" "fresh l s" "caller l = Some t"
  shows "wait_inv s'"
proof -
  let ?c = "sy_client s"
  have m: "maps_ok ?c" using assms(2) by (simp add: client_inv_def)
  note step = assms(4) [unfolded caller_step_def Let_def]
  note keep = wait_goto_keeps [OF assms(1,3)]
  from assms(4) show ?thesis
  proof (cases rule: caller_step_cases)
    case start
    with step wait_start [OF assms(1,3)] show ?thesis by auto
  next
    case send
    with step wait_send_step [OF assms(1,3)] assms(5,6) show ?thesis by auto
  next
    case (receive u q cid i)
    with step wait_receive [OF assms(1,3)] show ?thesis by (auto simp: settle_Some chan_recv_no_panic)
  next
    case (forget u q cid e)
    with step wait_forget [OF assms(1,3)] show ?thesis by auto
  next
    case (close u cids keys)
    then have it: "iterates cids (cl_sentCmds ?c)" "iterates keys (cl_subs ?c)"
      using step by (auto split: if_splits)
    with close step show ?thesis
      by (auto simp: Close_locked_eq [OF m it] intro!: keep keeps_drained m split: if_splits)
  qed (use step assms(1) in \<open>auto simp: settle_Some on_messages_Done intro!: keep split: sum.splits if_splits\<close>)
qed

lemma wait_reader_step:
  assumes "wait_inv s" "client_inv (sy_client s)" "reader_step l r s = Some s'"
  shows "wait_inv s'"
proof -
  let ?c = "sy_client s"
  have m: "maps_ok ?c" using assms(2) by (simp add: client_inv_def)
  note step = assms(3) [unfolded reader_step_def Let_def]
  note keep = wait_client [OF assms(1)]
  from assms(3) show ?thesis
  proof (cases rule: reader_step_cases)
    case block
    with step assms(1) show ?thesis by (auto intro!: keep split: sum.splits)
  next
    case next'
    with step show ?thesis by (auto intro!: keep)
  next
    case disp
    with step show ?thesis by (auto simp: dispatch_eq [OF m] intro!: keep keeps_dispatched m)
  next
    case (err e cids keys)
    then have it: "iterates cids (cl_sentCmds ?c)" "iterates keys (cl_subs ?c)"
      using step by (auto split: if_splits)
    with err step show ?thesis
      by (auto simp: handleReadError_eq [OF m it] intro!: keep keeps_drained m split: if_splits)
  next
    case exit
    with step show ?thesis by (auto intro!: keep)
  qed
qed

lemma wait_step:
  assumes "wait_inv s" "client_inv (sy_client s)" "step l s = Some s'" "fresh l s"
  shows "wait_inv s'"
proof (cases "caller l")
  case (Some t)
  with assms(3) have "t < length (sy_pcs s)" "caller_step l t (sy_pcs s ! t) s = Some s'"
    by (auto simp: step_def split: if_splits)
  with wait_caller_step [OF assms(1,2)] assms(4) Some show ?thesis by blast
next
  case None
  have "wait_inv s'" if "l = L_Consume ch" for ch
  proof -
    from that assms(3) obtain x where
      "s' = set_reader (sy_reader s) ((sy_client s)\<lparr>cl_messages := x\<rparr>) s"
      by (auto simp: step_def consume_step_def settle_Some set_reader_def chan_recv_no_panic split: if_splits)
    with wait_client [OF assms(1)] show ?thesis by simp
  qed
  moreover have "wait_inv s'" if "\<And>ch. l \<noteq> L_Consume ch"
    using assms(3) that None wait_reader_step [OF assms(1,2)]
    by (cases l) (auto simp: step_def split: if_splits)
  ultimately show ?thesis by blast
qed

lemma reachable_wait: "reachable_fresh params n s \<Longrightarrow> wait_inv s"
proof (induction rule: reachable_fresh.induct)
  case fresh_init
  then show ?case by (simp add: wait_inv_def init_system_def)
next
  case (fresh_step s l s')
  have "client_inv (sy_client s)"
    using reachable_inv [OF reachable_fresh_reachable [OF fresh_step(1)]] by (simp add: sys_inv_def)
  with fresh_step wait_step show ?case by blast
qed

section \<open>A closed client lets everybody go\<close>

lemma client_flags [simp]:
  "cl_readerDone (drained r c) = cl_readerDone c"
  "cl_readerDone (delete_cmd cid c) = cl_readerDone c" "cl_readerDone (delete_sub key c) = cl_readerDone c"
  "cl_readerDone (snd (Subscribe_register q c)) = cl_readerDone c"
  "cl_readerDone (snd (send_register cid c)) = cl_readerDone c"
  by (simp_all add: drained_def delete_cmd_def delete_sub_def Subscribe_register_def send_register_def Let_def)

lemma client_closed [simp]:
  "cl_closed (drained r c)"
  "cl_closed (delete_cmd cid c) = cl_closed c" "cl_closed (delete_sub key c) = cl_closed c"
  "cl_closed (snd (Subscribe_register q c)) = cl_closed c"
  "cl_closed (snd (send_register cid c)) = cl_closed c"
  by (simp_all add: drained_def delete_cmd_def delete_sub_def Subscribe_register_def send_register_def Let_def)

lemma goto_simps [simp]:
  "sy_client (goto t p c s) = c" "sy_reader (goto t p c s) = sy_reader s"
  "length (sy_pcs (goto t p c s)) = length (sy_pcs s)"
  "t < length (sy_pcs s) \<Longrightarrow> sy_pcs (goto t p c s) ! t = p"
  by (simp_all add: goto_def)

definition same_flags :: "system \<Rightarrow> system \<Rightarrow> bool" where
  "same_flags s s' \<longleftrightarrow> sy_reader s' = sy_reader s \<and> cl_readerDone (sy_client s') = cl_readerDone (sy_client s)
     \<and> (cl_closed (sy_client s) \<longrightarrow> cl_closed (sy_client s'))"

lemma start_flags: "same_flags s (start t cl key s)"
proof -
  have "same_flags s (case Subscribe_register q (sy_client s) of
      (Inl e, c') \<Rightarrow> goto t (Returned (R_sub (Inl e))) c' s
    | (Inr ch, c') \<Rightarrow> goto t (Ready (P_Subscribe q ch) key) c' s)" for q
    using client_flags(4) [of q "sy_client s"] client_closed(4) [of q "sy_client s"]
    by (cases "Subscribe_register q (sy_client s)") (simp add: same_flags_def split: sum.split)
  then show ?thesis
    by (auto simp: start_def Let_def same_flags_def split: call.split sum.split)
qed

lemma send_flags: "same_flags s (send_step t q key rnd s)"
proof -
  have "same_flags s (case send_register cid (sy_client s) of
      (Inl e, c') \<Rightarrow> goto t (Sent q (Inl e)) c' s | (Inr i, c') \<Rightarrow> goto t (Writing q cid i block) c' s)" for cid block
    using client_flags(5) [of cid "sy_client s"] client_closed(5) [of cid "sy_client s"]
    by (cases "send_register cid (sy_client s)") (simp add: same_flags_def split: sum.split)
  then show ?thesis
    by (auto simp: send_step_def Let_def same_flags_def split: sum.split prod.split)
qed

lemma caller_flags:
  assumes "client_inv (sy_client s)" "caller_step l t p s = Some s'"
  shows "same_flags s s'"
proof -
  have m: "maps_ok (sy_client s)" using assms(1) by (simp add: client_inv_def)
  note step = assms(2) [unfolded caller_step_def Let_def]
  from assms(2) show ?thesis
  proof (cases rule: caller_step_cases)
    case start
    with step start_flags show ?thesis by auto
  next
    case send
    with step send_flags show ?thesis by auto
  next
    case (close u cids keys)
    then have it: "iterates cids (cl_sentCmds (sy_client s))" "iterates keys (cl_subs (sy_client s))"
      using step by (auto split: if_splits)
    with close step show ?thesis by (auto simp: Close_locked_eq [OF m it] same_flags_def split: if_splits)
  qed (use step in \<open>auto simp: settle_Some on_messages_Done same_flags_def chan_recv_no_panic split: sum.splits if_splits\<close>)
qed

lemma reader_flags:
  assumes "client_inv (sy_client s)" "reader_step l (sy_reader s) s = Some s'"
    "sy_reader s = Gone \<longrightarrow> cl_readerDone (sy_client s)"
  shows "sy_reader s' = Gone \<longrightarrow> cl_readerDone (sy_client s')"
proof -
  have m: "maps_ok (sy_client s)" using assms(1) by (simp add: client_inv_def)
  note step = assms(2) [unfolded reader_step_def Let_def]
  from assms(2) show ?thesis
  proof (cases rule: reader_step_cases)
    case disp
    with step show ?thesis by (auto simp: dispatch_eq [OF m] set_reader_def)
  next
    case (err e cids keys)
    then have it: "iterates cids (cl_sentCmds (sy_client s))" "iterates keys (cl_subs (sy_client s))"
      using step by (auto split: if_splits)
    with err step show ?thesis by (auto simp: handleReadError_eq [OF m it] set_reader_def split: if_splits)
  qed (use step in \<open>auto simp: set_reader_def split: sum.splits\<close>)
qed

lemma reachable_done: "reachable params n s \<Longrightarrow> sy_reader s = Gone \<longrightarrow> cl_readerDone (sy_client s)"
proof (induction rule: reachable.induct)
  case reach_init
  then show ?case by (simp add: init_system_def)
next
  case (reach_step s l s')
  have inv: "client_inv (sy_client s)" using reachable_inv [OF reach_step(1)] by (simp add: sys_inv_def)
  show ?case
  proof (cases "caller l")
    case (Some t)
    with reach_step caller_flags [OF inv, of l t] show ?thesis
      by (auto simp: step_def same_flags_def split: if_splits)
  next
    case None
    have "sy_reader s' = Gone \<longrightarrow> cl_readerDone (sy_client s')" if "l = L_Consume ch" for ch
      using that reach_step by (auto simp: step_def consume_step_def settle_Some chan_recv_no_panic split: if_splits)
    moreover have "sy_reader s' = Gone \<longrightarrow> cl_readerDone (sy_client s')" if "\<And>ch. l \<noteq> L_Consume ch"
      using that None reach_step(2,3) reader_flags [OF inv, of l s']
      by (cases l) (auto simp: step_def split: if_splits)
    ultimately show ?thesis by blast
  qed
qed

text \<open>C18: The reader is never stuck holding the mutex: in every reachable state of a live process
  its next step completes without a panic, whatever it is. Reading, it takes any block of bytes -
  one that is malformed is skipped, the transmissions of any other are dispatched next - and any read
  error, the iteration over the two maps going in any order; dispatching, it handles the next
  transmission or goes back to reading; after an error it leaves, and signals that it has. Only
  waiting for the transport can hold it up.\<close>

theorem reader_always_progresses:
  assumes "reachable params n s" and "sy_crash s = None"
  shows "case sy_reader s of
      Reading \<Rightarrow>
        (\<exists>s'. step (L_Block block) s = Some s' \<and> sy_crash s' = None \<and> sy_client s' = sy_client s
          \<and> sy_reader s' = (case DecodeBlock (hp_Version (cl_params (sy_client s))) (hp_SessID (cl_params (sy_client s))) block of
              Inl _ \<Rightarrow> Reading | Inr txs \<Rightarrow> Dispatching txs))
        \<and> (iterates cids (cl_sentCmds (sy_client s)) \<and> iterates keys (cl_subs (sy_client s)) \<longrightarrow>
            (\<exists>s'. step (L_ReadErr err cids keys) s = Some s' \<and> sy_crash s' = None
              \<and> sy_reader s' = Exiting \<and> cl_closed (sy_client s')))
        \<and> (\<exists>cids keys. iterates cids (cl_sentCmds (sy_client s)) \<and> iterates keys (cl_subs (sy_client s)))
    | Dispatching txs \<Rightarrow> \<exists>s'. step L_Dispatch s = Some s' \<and> sy_crash s' = None
        \<and> sy_reader s' = (if txs = [] then Reading else Dispatching (tl txs))
    | Exiting \<Rightarrow> \<exists>s'. step L_ReaderExit s = Some s' \<and> sy_crash s' = None
        \<and> sy_reader s' = Gone \<and> cl_readerDone (sy_client s')
    | Gone \<Rightarrow> cl_readerDone (sy_client s)"
proof -
  let ?c = "sy_client s"
  have mo: "maps_ok ?c" using reachable_inv [OF assms(1)] by (simp add: sys_inv_def client_inv_def)
  note it = iterates_keys [OF maps_okD(1) [OF mo]] iterates_keys [OF maps_okD(2) [OF mo]]
  show ?thesis
  proof (cases "sy_reader s")
    case Reading
    have "\<exists>s'. step (L_Block block) s = Some s' \<and> sy_crash s' = None \<and> sy_client s' = sy_client s
          \<and> sy_reader s' = (case DecodeBlock (hp_Version (cl_params ?c)) (hp_SessID (cl_params ?c)) block of
              Inl _ \<Rightarrow> Reading | Inr txs \<Rightarrow> Dispatching txs)"
      using assms(2) Reading by (simp add: step_def reader_step_def Let_def set_reader_def split: sum.split)
    moreover have "\<exists>s'. step (L_ReadErr err cids keys) s = Some s' \<and> sy_crash s' = None
              \<and> sy_reader s' = Exiting \<and> cl_closed (sy_client s')"
      if "iterates cids (cl_sentCmds ?c)" "iterates keys (cl_subs ?c)"
      using assms(2) Reading that handleReadError_eq [OF mo that, of err]
      by (auto simp: step_def reader_step_def Let_def set_reader_def drained_def)
    ultimately show ?thesis using it Reading by (simp only: reader.case) blast
  next
    case (Dispatching txs)
    then show ?thesis
      using assms(2) dispatch_eq [OF mo]
      by (cases txs) (auto simp: step_def reader_step_def Let_def set_reader_def)
  next
    case Exiting
    then show ?thesis using assms(2) by (auto simp: step_def reader_step_def Let_def set_reader_def)
  next
    case Gone
    then show ?thesis using reachable_done [OF assms(1)] by simp
  qed
qed

text \<open>How many steps of its own a call still has before it returns.\<close>

fun remaining :: "pc \<Rightarrow> nat" where
  "remaining Idle = 0" | "remaining (Returned r) = 0"
| "remaining (SubPushing ch m) = 1" | "remaining (SubClosing ch e) = 1"
| "remaining (SubAborting key ch e) = 2" | "remaining (Sent q r) = 3"
| "remaining (Forgetting q cid e) = 4" | "remaining (Waiting q cid i) = 5"
| "remaining (Writing q cid i b) = 6" | "remaining (Ready q key) = 7"
| "remaining (CloseJoin r) = 1" | "remaining CloseTx = 2"

lemma remaining_finish [simp]: "remaining (finish q r) < 3"
  by (cases q; simp split: sub_action.split)

lemma send_step_remaining: "t < length (sy_pcs s) \<Longrightarrow> remaining (sy_pcs (send_step t q key rnd s) ! t) < 7"
  by (simp add: send_step_def Let_def split: sum.split prod.split)

lemma step_caller:
  "sy_crash s = None \<Longrightarrow> caller l = Some t \<Longrightarrow> t < length (sy_pcs s) \<Longrightarrow> step l s = caller_step l t (sy_pcs s ! t) s"
  by (simp add: step_def)

lemma step_caller_Some:
  "step l s = Some s' \<Longrightarrow> caller l = Some u \<Longrightarrow> u < length (sy_pcs s) \<and> caller_step l u (sy_pcs s ! u) s = Some s'"
  by (simp add: step_def split: if_splits)

text \<open>Every step of a call brings it closer to its return, or is the panic.\<close>

lemma own_step_decreases:
  assumes "caller_step l t (sy_pcs s ! t) s = Some s'" "t < length (sy_pcs s)" "0 < remaining (sy_pcs s ! t)"
    and "sy_crash s' = None"
  shows "remaining (sy_pcs s' ! t) < remaining (sy_pcs s ! t)"
proof -
  note step = assms(1) [unfolded caller_step_def Let_def]
  from assms(1) show ?thesis
  proof (cases rule: caller_step_cases)
    case (send u rnd q key)
    with step send_step_remaining [OF assms(2), of q key rnd] show ?thesis by auto
  next
    case (finish u q r)
    with step remaining_finish [of q r] assms(2) show ?thesis by auto
  qed (use step assms(2-4) in \<open>auto simp: settle_Some split: sum.splits if_splits\<close>)
qed

text \<open>Nobody else moves it.\<close>

lemma caller_step_others:
  assumes "caller_step l u p s = Some s'" "u \<noteq> t"
  shows "sy_pcs s' ! t = sy_pcs s ! t"
proof -
  note step = assms(1) [unfolded caller_step_def Let_def]
  have g: "sy_pcs (goto u q c s0) ! t = sy_pcs s0 ! t" for q c s0
    using assms(2) by (simp add: goto_def)
  from assms(1) show ?thesis
  proof (cases rule: caller_step_cases)
    case (start v cl key)
    with step g show ?thesis by (auto simp: start_def Let_def split: call.splits sum.splits prod.splits)
  next
    case (send v rnd q key)
    with step g show ?thesis by (auto simp: send_step_def Let_def split: sum.splits prod.splits)
  qed (use step g in \<open>auto simp: settle_Some split: sum.splits if_splits\<close>)
qed

lemma reader_step_others: "reader_step l r s = Some s' \<Longrightarrow> sy_pcs s' = sy_pcs s"
  by (cases rule: reader_step_cases, assumption)
    (auto simp: reader_step_def Let_def set_reader_def settle_Some split: sum.splits if_splits)

lemma other_step_keeps:
  assumes "step l s = Some s'" "caller l \<noteq> Some t"
  shows "sy_pcs s' ! t = sy_pcs s ! t"
proof (cases "caller l")
  case (Some u)
  with step_caller_Some [OF assms(1) Some] assms(2) show ?thesis by (auto intro: caller_step_others)
next
  case None
  then show ?thesis
  proof (cases "\<exists>ch. l = L_Consume ch")
    case True
    with assms(1) show ?thesis by (auto simp: step_def consume_step_def settle_Some split: if_splits)
  next
    case False
    with None assms(1) have "reader_step l (sy_reader s) s = Some s'"
      by (cases l) (auto simp: step_def split: if_splits)
    then show ?thesis using reader_step_others by simp
  qed
qed

lemma step_keeps_closed:
  assumes "reachable params n s" "step l s = Some s'" "cl_closed (sy_client s)"
  shows "cl_closed (sy_client s') \<and> (sy_reader s = Gone \<longrightarrow> sy_reader s' = Gone)"
proof (cases "caller l")
  case (Some u)
  have "client_inv (sy_client s)" using reachable_inv [OF assms(1)] by (simp add: sys_inv_def)
  from caller_flags [OF this] step_caller_Some [OF assms(2) Some] assms(3) show ?thesis
    by (auto simp: same_flags_def)
next
  case None
  have m: "maps_ok (sy_client s)" using reachable_inv [OF assms(1)] by (simp add: sys_inv_def client_inv_def)
  have reader: ?thesis if r: "reader_step l (sy_reader s) s = Some s'"
    using r
  proof (cases rule: reader_step_cases)
    case disp
    with r assms(3) show ?thesis by (auto simp: reader_step_def Let_def dispatch_eq [OF m] set_reader_def)
  next
    case (err e cids keys)
    then have it: "iterates cids (cl_sentCmds (sy_client s))" "iterates keys (cl_subs (sy_client s))"
      using r by (auto simp: reader_step_def Let_def split: if_splits)
    with err r assms(3) show ?thesis by (auto simp: reader_step_def Let_def handleReadError_eq [OF m it] set_reader_def)
  qed (use r assms(3) in \<open>auto simp: reader_step_def Let_def set_reader_def split: sum.splits\<close>)
  with None assms(2,3) show ?thesis
    by (cases l) (auto simp: step_def consume_step_def settle_Some split: if_splits)
qed

text \<open>
  What a call inside a method can do next when the client is closed. A write of the transport, the
  closing of the transport and a blocking send are waits for somebody else: the call goes on
  with whatever answer it gets.
\<close>

definition can_go_on :: "system \<Rightarrow> nat \<Rightarrow> bool" where
  "can_go_on s t \<longleftrightarrow> (case sy_pcs s ! t of
      Writing q cid i b \<Rightarrow> \<forall>r. \<exists>s'. step (L_Write t r) s = Some s'
    | CloseTx \<Rightarrow> \<forall>r. \<exists>s'. step (L_CloseTx t r) s = Some s'
    | CloseJoin r \<Rightarrow> sy_reader s = Gone \<longrightarrow> (\<exists>s'. step (L_Join t) s = Some s')
    | SubPushing ch m \<Rightarrow> chan_send m (cl_messages (sy_client s) ! ch) \<noteq> Blocks \<longrightarrow> (\<exists>s'. step (L_Push t) s = Some s')
    | _ \<Rightarrow> \<exists>l s'. caller l = Some t \<and> step l s = Some s')"

lemma closed_can_go_on:
  assumes "reachable_fresh params n s" and "sy_crash s = None" and "cl_closed (sy_client s)"
    and "t < length (sy_pcs s)" and "0 < remaining (sy_pcs s ! t)"
  shows "can_go_on s t"
proof -
  let ?c = "sy_client s"
  have reach: "reachable params n s" using assms(1) by (rule reachable_fresh_reachable)
  have empty: "cl_sentCmds ?c = []"
    using reachable_inv [OF reach] assms(3) by (simp add: sys_inv_def client_inv_def)
  note step = step_caller [OF assms(2) _ assms(4)]
  note defs = can_go_on_def caller_step_def Let_def step
  have own: "\<exists>l s'. caller l = Some t \<and> step l s = Some s'" if "\<exists>s'. step l s = Some s'" "caller l = Some t" for l
    using that by blast
  show ?thesis
  proof (cases "sy_pcs s ! t")
    case (Ready q key)
    then have "\<exists>s'. step (L_Send t (Inr [])) s = Some s'" by (simp add: defs)
    from own [OF this] Ready show ?thesis by (simp add: can_go_on_def)
  next
    case (Writing q cid i b)
    then show ?thesis by (simp add: defs split: sum.split)
  next
    case (Waiting q cid i)
    have "served ?c cid i"
      using wait_invD(1) [OF reachable_wait [OF assms(1)] assms(4), of cid i] Waiting by simp
    then obtain r where "cl_results ?c ! i = answered r" using empty by (auto simp: served_def)
    then have "\<exists>s'. step (L_Receive t) s = Some s'" using Waiting by (simp add: defs answered_def chan_recv_def)
    from own [OF this] Waiting show ?thesis by (simp add: can_go_on_def)
  next
    case (Forgetting q cid e)
    then have "\<exists>s'. step (L_Forget t) s = Some s'" by (simp add: defs)
    from own [OF this] Forgetting show ?thesis by (simp add: can_go_on_def)
  next
    case (Sent q r)
    then have "\<exists>s'. step (L_Finish t) s = Some s'" by (simp add: defs)
    from own [OF this] Sent show ?thesis by (simp add: can_go_on_def)
  next
    case (SubAborting key ch e)
    then have "\<exists>s'. step (L_Abort t) s = Some s'" by (simp add: defs)
    from own [OF this] SubAborting show ?thesis by (simp add: can_go_on_def)
  next
    case (SubClosing ch e)
    then have "\<exists>s'. step (L_CloseSub t) s = Some s'"
      by (simp add: defs on_messages_def at_chan_def chan_close_def)
    from own [OF this] SubClosing show ?thesis by (simp add: can_go_on_def)
  next
    case (SubPushing ch m)
    then show ?thesis by (auto simp: defs on_messages_def at_chan_def chan_send_def split: if_splits)
  next
    case CloseTx
    then show ?thesis by (simp add: defs)
  next
    case (CloseJoin r)
    then show ?thesis using reachable_done [OF reach] by (simp add: defs)
  qed (use assms(5) in simp_all)
qed

lemma remaining_le: "remaining p \<le> 7"
  by (cases p) simp_all

text \<open>C19: Once the client is closed - by \<open>Close\<close> or by a read error - no call waits for the server any
  more: whatever the interleaving was (with fresh correlation ids), a caller inside a method has a
  step of its own to take, unless it is in one of four waits, and it leaves each of them as soon as
  the other side moves: a write or the closing of the transport goes on with whatever the
  transport answers (a write the transport never returns from is not released by a read error,
  which leaves the transport open), \<open>Close\<close> at its join goes on when the reader has left, and the
  inline message of \<open>Subscribe\<close> when its buffer has room. Each step of the caller's own, of whatever
  outcome, brings it closer to its return, which is at most seven away, unless it is the panic of
  \<open>Subscribe\<close>; no step of anybody else moves it back, opens the client or brings the reader back.\<close>

theorem closed_client_releases_callers:
  assumes "reachable_fresh params n s" and "sy_crash s = None" and "cl_closed (sy_client s)"
    and "t < length (sy_pcs s)" and "0 < remaining (sy_pcs s ! t)"
  shows "can_go_on s t
    \<and> (\<forall>l s'. step l s = Some s' \<and> sy_crash s' = None \<longrightarrow>
        cl_closed (sy_client s') \<and> (sy_reader s = Gone \<longrightarrow> sy_reader s' = Gone)
        \<and> (if caller l = Some t then remaining (sy_pcs s' ! t) < remaining (sy_pcs s ! t)
           else sy_pcs s' ! t = sy_pcs s ! t))
    \<and> remaining (sy_pcs s ! t) \<le> 7"
proof (intro conjI allI impI remaining_le)
  show "can_go_on s t" by (rule closed_can_go_on [OF assms])
next
  fix l s'
  assume s': "step l s = Some s' \<and> sy_crash s' = None"
  note closed = step_keeps_closed [OF reachable_fresh_reachable [OF assms(1)] _ assms(3)]
  show "cl_closed (sy_client s')" using s' closed by blast
  show "sy_reader s' = Gone" if "sy_reader s = Gone" using s' closed that by blast
  show "if caller l = Some t then remaining (sy_pcs s' ! t) < remaining (sy_pcs s ! t)
      else sy_pcs s' ! t = sy_pcs s ! t"
    using s' step_caller_Some own_step_decreases [OF _ assms(4,5)] other_step_keeps by (simp split: if_split) blast
qed

section \<open>The two panics are real\<close>

lemma step_reader:
  "sy_crash s = None \<Longrightarrow> caller l = None \<Longrightarrow> \<forall>ch. l \<noteq> L_Consume ch \<Longrightarrow> step l s = reader_step l (sy_reader s) s"
  by (cases l) (auto simp: step_def)

lemma crash_run:
  assumes "reachable params n s" and "sy_crash s = None" and "sy_reader s = Reading"
    and "t < length (sy_pcs s)" and "sy_pcs s ! t = Waiting (P_Subscribe key ch) cid i"
    and "map_of (cl_sentCmds (sy_client s)) cid = Some i" and "map_of (cl_subs (sy_client s)) key = Some ch"
  shows "\<exists>cids keys s4 s'. run [L_ReadErr err cids keys, L_Receive t, L_Finish t, L_Abort t] s = Some s4
    \<and> step (L_CloseSub t) s4 = Some s' \<and> sy_crash s' = Some ''close of closed channel''"
proof -
  let ?c = "sy_client s" and ?r = "Failed (wrapf ''smp: read: %w'' err)"
  have inv: "client_inv ?c" using reachable_inv [OF assms(1)] by (simp add: sys_inv_def)
  then have m: "maps_ok ?c" by (simp add: client_inv_def)
  have open': "\<not> cl_closed ?c" using inv assms(6) by (auto simp: client_inv_def)
  note it = iterates_keys [OF maps_okD(1) [OF m]] iterates_keys [OF maps_okD(2) [OF m]]
  let ?s1 = "set_reader Exiting (drained ?r ?c) s"
  have 1: "step (L_ReadErr err (map fst (cl_sentCmds ?c)) (map fst (cl_subs ?c))) s = Some ?s1"
    using assms(2,3) open' it handleReadError_eq [OF m it, of err]
    by (simp add: step_reader reader_step_def Let_def)
  have "i < length (cl_results ?c)" "ch < length (cl_messages ?c)"
    using registry_lookup [OF maps_okD(1) [OF m] assms(6)] registry_lookup [OF maps_okD(2) [OF m] assms(7)]
    by simp_all
  moreover have "i \<in> snd ` set (cl_sentCmds ?c)" "ch \<in> snd ` set (cl_subs ?c)"
    using assms(6,7) by (metis image_eqI map_of_SomeD snd_conv)+
  ultimately have d: "cl_results (drained ?r ?c) ! i = answered ?r" "ch_closed (cl_messages (drained ?r ?c) ! ch)"
    by (simp_all add: drained_def closed_chan_def)
  obtain c2 where 2: "step (L_Receive t) ?s1 = Some (goto t (Sent (P_Subscribe key ch) (Inl (wrapf ''smp: read: %w'' err))) c2 ?s1)"
    and c2: "cl_messages c2 = cl_messages (drained ?r ?c)"
    using assms(2,4,5) d(1)
    by (auto simp: step_caller set_reader_def caller_step_def Let_def chan_recv_def answered_def send_reply_def)
  let ?s2 = "goto t (Sent (P_Subscribe key ch) (Inl (wrapf ''smp: read: %w'' err))) c2 ?s1"
  let ?s3 = "goto t (SubAborting key ch (wrapf ''smp: read: %w'' err)) c2 ?s2"
  let ?s4 = "goto t (SubClosing ch (wrapf ''smp: read: %w'' err)) (delete_sub key c2) ?s3"
  have len: "length (sy_pcs ?s1) = length (sy_pcs s)" by (simp add: set_reader_def)
  have 3: "step (L_Finish t) ?s2 = Some ?s3"
    using assms(2,4) len by (simp add: step_caller caller_step_def Let_def Subscribe_finish_def)
  have 4: "step (L_Abort t) ?s3 = Some ?s4"
    using assms(2,4) len by (simp add: step_caller caller_step_def Let_def)
  have "ch_closed (cl_messages (delete_sub key c2) ! ch)" using d(2) c2 by (simp add: delete_sub_def)
  then have 5: "step (L_CloseSub t) ?s4 = Some (?s4\<lparr>sy_crash := Some ''close of closed channel''\<rparr>)"
    using assms(2,4) len
    by (simp add: step_caller caller_step_def Let_def on_messages_def at_chan_def chan_close_def)
  show ?thesis
    by (intro exI [of _ "map fst (cl_sentCmds ?c)"] exI [of _ "map fst (cl_subs ?c)"]) (simp add: 1 2 3 4 5)
qed

text \<open>C37: A connection that drops while \<open>Subscribe\<close> waits for its answer crashes the process: from
  every reachable state in which a subscription is registered and waiting, a read error of the
  transport followed by the caller's own steps ends in the panic of closing the subscriber's
  channel a second time.\<close>

theorem read_error_crashes_Subscribe:
  assumes "reachable params n s" and "sy_crash s = None" and "sy_reader s = Reading"
    and "t < length (sy_pcs s)" and "sy_pcs s ! t = Waiting (P_Subscribe key ch) cid i"
    and "map_of (cl_sentCmds (sy_client s)) cid = Some i" and "map_of (cl_subs (sy_client s)) key = Some ch"
  shows "\<exists>cids keys s'. run [L_ReadErr err cids keys, L_Receive t, L_Finish t, L_Abort t, L_CloseSub t] s = Some s'
    \<and> sy_crash s' = Some ''close of closed channel''"
proof -
  obtain cids keys s4 s' where "run [L_ReadErr err cids keys, L_Receive t, L_Finish t, L_Abort t] s = Some s4"
    "step (L_CloseSub t) s4 = Some s'" "sy_crash s' = Some ''close of closed channel''"
    using crash_run [OF assms, of err] by blast
  then show ?thesis
    by (intro exI [of _ cids] exI [of _ keys] exI [of _ s']) (auto split: option.splits)
qed

text \<open>A subscription on the wire: the first three steps of \<open>Subscribe\<close>.\<close>

lemma prepare_sub:
  obtains block where "send_prepare example_params (Inr example_cid) None [5] SubCmd = Inr (example_cid, block)"
proof -
  have fits: "tx_fits [9] (request_tx example_params example_cid [5] SubCmd [])"
    by (simp add: tx_fits_def request_tx_def)
  have small: "block_fits [tx_wire 7 [9] (request_tx example_params example_cid [5] SubCmd [])]"
    using length_corr_wire [of example_cid]
    by (simp add: block_fits_def tx_wire_def request_tx_def short_wire_def sess_wire_def bs_Cons)
  show thesis
    using that EncodeTransmission_fits [OF fits, of 7] EncodeBlock_fits [OF small] EncodeCommand_ok [of SubCmd 7]
    by (simp add: send_prepare_def newCorrID_def Let_def sign_tx_def request_tx_def example_params_def)
qed

definition subscribing :: "bytes \<Rightarrow> system" where
  "subscribing block = \<lparr>
     sy_client = (NewClient example_params)\<lparr>cl_sentCmds := [(example_cid, 0)], cl_subs := [([5], 0)],
       cl_results := [make_chan 1], cl_messages := [make_chan 32]\<rparr>,
     sy_pcs = [Waiting (P_Subscribe [5] 0) example_cid 0], sy_reader = Reading, sy_sent = [block], sy_crash = None\<rparr>"

lemma subscribing_steps:
  assumes "send_prepare example_params (Inr example_cid) None [5] SubCmd = Inr (example_cid, block)"
  shows "\<exists>s1 s2. step (L_Start 0 (Call_Subscribe [5]) None) (init_system example_params 1) = Some s1
    \<and> fresh (L_Send 0 (Inr example_cid)) s1 \<and> step (L_Send 0 (Inr example_cid)) s1 = Some s2
    \<and> step (L_Write 0 (Inr ())) s2 = Some (subscribing block)"
proof -
  let ?s0 = "init_system example_params 1"
  let ?c1 = "(NewClient example_params)\<lparr>cl_subs := [([5], 0)], cl_messages := [make_chan 32]\<rparr>"
  let ?s1 = "goto 0 (Ready (P_Subscribe [5] 0) None) ?c1 ?s0"
  let ?c2 = "?c1\<lparr>cl_sentCmds := [(example_cid, 0)], cl_results := [make_chan 1]\<rparr>"
  let ?s2 = "goto 0 (Writing (P_Subscribe [5] 0) example_cid 0 block) ?c2 ?s1"
  have 1: "step (L_Start 0 (Call_Subscribe [5]) None) ?s0 = Some ?s1"
    by (simp add: step_caller caller_step_def Let_def init_system_def start_def Subscribe_register_def NewClient_def)
  have 2: "step (L_Send 0 (Inr example_cid)) ?s1 = Some ?s2"
    using assms
    by (simp add: step_caller caller_step_def Let_def init_system_def send_step_def send_register_def NewClient_def goto_def)
  have 3: "step (L_Write 0 (Inr ())) ?s2 = Some (subscribing block)"
    by (simp add: step_caller caller_step_def Let_def init_system_def goto_def subscribing_def NewClient_def)
  have "fresh (L_Send 0 (Inr example_cid)) ?s1" by (simp add: goto_def init_system_def)
  with 1 2 3 show ?thesis by blast
qed

lemma subscribing_reachable:
  assumes "send_prepare example_params (Inr example_cid) None [5] SubCmd = Inr (example_cid, block)"
  shows "reachable_fresh example_params 1 (subscribing block)"
proof -
  obtain s1 s2 where 1: "step (L_Start 0 (Call_Subscribe [5]) None) (init_system example_params 1) = Some s1"
    and 2: "fresh (L_Send 0 (Inr example_cid)) s1" "step (L_Send 0 (Inr example_cid)) s1 = Some s2"
    and 3: "step (L_Write 0 (Inr ())) s2 = Some (subscribing block)"
    using subscribing_steps [OF assms] by blast
  have "reachable_fresh example_params 1 s1" by (rule fresh_step [OF fresh_init _ 1]) simp
  then have "reachable_fresh example_params 1 s2" by (rule fresh_step [OF _ 2])
  then show ?thesis by (rule fresh_step [OF _ _ 3]) simp
qed

lemma subscribing_facts:
  "sy_crash (subscribing b) = None" "sy_reader (subscribing b) = Reading" "0 < length (sy_pcs (subscribing b))"
  "sy_pcs (subscribing b) ! 0 = Waiting (P_Subscribe [5] 0) example_cid 0"
  "map_of (cl_sentCmds (sy_client (subscribing b))) example_cid = Some 0"
  "map_of (cl_subs (sy_client (subscribing b))) [5] = Some 0"
  by (simp_all add: subscribing_def)

lemma subscribing_exists: "\<exists>b. reachable_fresh example_params 1 (subscribing b)"
  using prepare_sub subscribing_reachable by metis

theorem read_error_crashes_Subscribe_witness:
  "\<exists>s. reachable example_params 1 s \<and> sy_crash s = Some ''close of closed channel''"
proof -
  obtain b where "reachable_fresh example_params 1 (subscribing b)" using subscribing_exists ..
  then have r: "reachable example_params 1 (subscribing b)" by (rule reachable_fresh_reachable)
  from read_error_crashes_Subscribe [OF r subscribing_facts, of "Sentinel ErrShortBlock"] run_reachable [OF r]
  show ?thesis by blast
qed

theorem only_Subscribe_can_panic_witness:
  "\<exists>s l s' t ch. step l s = Some s' \<and> sy_crash s' = Some ''close of closed channel''
    \<and> l = L_CloseSub t \<and> ch_closed (cl_messages (sy_client s) ! ch)"
proof -
  obtain b where "reachable_fresh example_params 1 (subscribing b)" using subscribing_exists ..
  then have r: "reachable example_params 1 (subscribing b)" by (rule reachable_fresh_reachable)
  obtain cids keys s4 s' where 4: "run [L_ReadErr (Sentinel ErrShortBlock) cids keys, L_Receive 0, L_Finish 0, L_Abort 0] (subscribing b) = Some s4"
    and 5: "step (L_CloseSub 0) s4 = Some s'" "sy_crash s' = Some ''close of closed channel''"
    using crash_run [OF r subscribing_facts, of "Sentinel ErrShortBlock"] by blast
  from only_Subscribe_can_panic [OF run_reachable [OF r 4] 5] 5 show ?thesis by blast
qed

theorem reader_always_progresses_witness:
  "\<exists>b s' s''. step (L_ReadErr (Sentinel ErrShortBlock) [example_cid] [[5]]) (subscribing b) = Some s' \<and> sy_crash s' = None
    \<and> step (L_Block [1, 2, 3]) (subscribing b) = Some s'' \<and> sy_crash s'' = None"
proof -
  obtain b where "reachable_fresh example_params 1 (subscribing b)" using subscribing_exists ..
  then have r: "reachable example_params 1 (subscribing b)" by (rule reachable_fresh_reachable)
  have "iterates [example_cid] (cl_sentCmds (sy_client (subscribing b)))" "iterates [[5]] (cl_subs (sy_client (subscribing b)))"
    by (simp_all add: subscribing_def iterates_def)
  with reader_always_progresses [OF r subscribing_facts(1), of "[1, 2, 3]" "[example_cid]" "[[5]]" "Sentinel ErrShortBlock"]
  show ?thesis by (auto simp: subscribing_facts(2))
qed

text \<open>The connection is lost while the subscription waits, and the reader leaves.\<close>

definition abandoned :: "bytes \<Rightarrow> system" where
  "abandoned b = set_reader Gone ((drained (Failed (wrapf ''smp: read: %w'' (Sentinel ErrShortBlock)))
     (sy_client (subscribing b)))\<lparr>cl_readerDone := True\<rparr>) (subscribing b)"

lemma abandoned_reachable:
  assumes "reachable_fresh example_params 1 (subscribing b)"
  shows "reachable_fresh example_params 1 (abandoned b)"
proof -
  let ?c = "sy_client (subscribing b)" and ?e = "Sentinel ErrShortBlock"
  let ?s1 = "set_reader Exiting (drained (Failed (wrapf ''smp: read: %w'' ?e)) ?c) (subscribing b)"
  have m: "maps_ok ?c"
    using reachable_inv [OF reachable_fresh_reachable [OF assms]] by (simp add: sys_inv_def client_inv_def)
  note it = iterates_keys [OF maps_okD(1) [OF m]] iterates_keys [OF maps_okD(2) [OF m]]
  have "\<not> cl_closed ?c" by (simp add: subscribing_def NewClient_def)
  then have 1: "step (L_ReadErr ?e (map fst (cl_sentCmds ?c)) (map fst (cl_subs ?c))) (subscribing b) = Some ?s1"
    using it handleReadError_eq [OF m it, of ?e] subscribing_facts [of b]
    by (simp add: step_reader reader_step_def Let_def)
  have 2: "step L_ReaderExit ?s1 = Some (abandoned b)"
    using subscribing_facts(1) [of b]
    by (simp add: step_reader reader_step_def Let_def abandoned_def) (simp add: set_reader_def)
  show ?thesis
    by (rule fresh_step [OF fresh_step [OF assms _ 1] _ 2]) simp_all
qed

theorem closed_client_releases_callers_witness:
  "\<exists>b l s'. caller l = Some 0 \<and> step l (abandoned b) = Some s'
    \<and> (sy_crash s' = None \<longrightarrow> remaining (sy_pcs s' ! 0) < 5)"
proof -
  obtain b where "reachable_fresh example_params 1 (subscribing b)" using subscribing_exists ..
  then have r: "reachable_fresh example_params 1 (abandoned b)" by (rule abandoned_reachable)
  have f: "sy_crash (abandoned b) = None" "cl_closed (sy_client (abandoned b))"
    "0 < length (sy_pcs (abandoned b))" "sy_pcs (abandoned b) ! 0 = Waiting (P_Subscribe [5] 0) example_cid 0"
    by (simp_all add: abandoned_def set_reader_def drained_def subscribing_def)
  have "0 < remaining (sy_pcs (abandoned b) ! 0)" by (simp add: f(4))
  note all = closed_client_releases_callers [OF r f(1-3) this, unfolded can_go_on_def f(4) pc.case]
  from conjunct1 [OF all] obtain l s' where l: "caller l = Some 0" "step l (abandoned b) = Some s'" by blast
  with spec [OF spec [OF conjunct1 [OF conjunct2 [OF all]], of l], of s']
  have "sy_crash s' = None \<longrightarrow> remaining (sy_pcs s' ! 0) < 5" by simp
  with l show ?thesis by (intro exI [of _ b] exI [of _ l] exI [of _ s'] conjI)
qed

text \<open>C38: The other panic: if the server ends a subscription (END) and then answers the pending SUB
  with an inline message, as the two transmissions of one block, \<open>Subscribe\<close> sends this message
  into the channel the reader has just closed.\<close>

theorem END_before_inline_message_crashes:
  assumes "reachable params n s" and "sy_crash s = None" and "sy_reader s = Dispatching [e, r]"
    and "t < length (sy_pcs s)" and "sy_pcs s ! t = Waiting (P_Subscribe key ch) cid i"
    and "map_of (cl_sentCmds (sy_client s)) cid = Some i" and "map_of (cl_subs (sy_client s)) key = Some ch"
    and "sub_event (sy_client s) key e = Some EndMsg"
    and "tx_CorrID r = cid" and "cid \<noteq> NoCorrID" and "msg_of (sy_client s) r = Some (MsgMsg m)"
  shows "\<exists>s'. run [L_Dispatch, L_Dispatch, L_Receive t, L_Finish t, L_Push t] s = Some s'
    \<and> sy_crash s' = Some ''send on closed channel''"
proof -
  let ?c = "sy_client s" and ?c1 = "dispatched e (sy_client s)" and ?c2 = "dispatched r (dispatched e (sy_client s))"
  have m0: "maps_ok ?c" using reachable_inv [OF assms(1)] by (simp add: sys_inv_def client_inv_def)
  then have m1: "maps_ok ?c1" by (rule maps_ok_dispatched)
  have e: "tx_CorrID e = NoCorrID" using assms(8) by (simp add: sub_event_def split: if_splits)
  have sub: "cl_messages ?c1 ! ch = closed_chan (cl_messages ?c ! ch)" and un: "\<And>k. map_of (cl_subs ?c1) k \<noteq> Some ch"
    using dispatched_sub [OF m0 assms(7), of e] assms(8) by simp_all
  have "cl_messages ?c2 ! ch = cl_messages ?c1 ! ch"
    using un by (intro dispatched_unregistered(2) [OF m1])
  with sub have closed: "ch_closed (cl_messages ?c2 ! ch)" by (simp add: closed_chan_def)
  have reg1: "map_of (cl_sentCmds ?c1) cid = Some i"
    using dispatched_reply [OF m0 assms(6,10), of e] e assms(10) by (auto split: option.splits if_splits)
  have res: "cl_results ?c2 ! i = answered (Reply (MsgMsg m))"
    using dispatched_reply [OF m1 reg1 assms(10), of r] assms(9,11) by simp
  let ?s1 = "set_reader (Dispatching [r]) ?c1 s"
  let ?s2 = "set_reader (Dispatching []) ?c2 ?s1"
  have 1: "step L_Dispatch s = Some ?s1"
    using assms(2,3) by (simp add: step_reader reader_step_def Let_def dispatch_eq [OF m0])
  have 2: "step L_Dispatch ?s1 = Some ?s2"
    using assms(2) by (simp add: step_reader reader_step_def Let_def set_reader_def dispatch_eq [OF m1])
  obtain c3 where 3: "step (L_Receive t) ?s2 = Some (goto t (Sent (P_Subscribe key ch) (Inr (Some (MsgMsg m)))) c3 ?s2)"
    and c3: "cl_messages c3 = cl_messages ?c2"
    using assms(2,4,5) res
    by (auto simp: step_caller set_reader_def caller_step_def Let_def chan_recv_def answered_def send_reply_def)
  let ?s3 = "goto t (Sent (P_Subscribe key ch) (Inr (Some (MsgMsg m)))) c3 ?s2"
  let ?s4 = "goto t (SubPushing ch m) c3 ?s3"
  have len: "length (sy_pcs ?s2) = length (sy_pcs s)" by (simp add: set_reader_def)
  have 4: "step (L_Finish t) ?s3 = Some ?s4"
    using assms(2,4) len by (simp add: step_caller caller_step_def Let_def Subscribe_finish_def)
  have 5: "step (L_Push t) ?s4 = Some (?s4\<lparr>sy_crash := Some ''send on closed channel''\<rparr>)"
    using assms(2,4) len closed c3
    by (simp add: step_caller caller_step_def Let_def on_messages_def at_chan_def chan_send_def)
  show ?thesis by (simp add: 1 2 3 4 5)
qed

lemma decode_two:
  assumes "wf_corr_id cid" "wf_corr_id cid'" "length ent \<le> 255" "length ent' \<le> 255"
    "length (broker_wire 7 msg) \<le> 60000" "length (broker_wire 7 msg') \<le> 60000"
  shows "DecodeBlock 7 [9] (block_wire [tx_wire 7 [9] (tx_for cid ent msg), tx_wire 7 [9] (tx_for cid' ent' msg')])
    = Inr [tx_for cid ent msg, tx_for cid' ent' msg']"
proof -
  have fit: "tx_fits [9] (tx_for c q b)" if "length q \<le> 255" for c q b
    using that by (simp add: tx_fits_def tx_for_def)
  have dec: "decodeTransmission 7 [9] (tx_wire 7 [9] (tx_for c q b)) = Inr (tx_for c q b)"
    if "wf_corr_id c" "length q \<le> 255" for c q b
    using that fit [of q c b] by (intro decodeTransmission_wire) (simp_all add: tx_for_def)
  have "block_fits [tx_wire 7 [9] (tx_for cid ent msg), tx_wire 7 [9] (tx_for cid' ent' msg')]"
    using assms length_corr_wire [OF assms(1)] length_corr_wire [OF assms(2)]
    by (simp add: block_fits_def tx_wire_def tx_for_def short_wire_def sess_wire_def)
  from DecodeBlock_wire [OF this, of 7 "[9]" "[tx_for cid ent msg, tx_for cid' ent' msg']" "[]"] show ?thesis
    using dec assms by simp
qed

theorem END_before_inline_message_crashes_witness:
  "\<exists>s. reachable example_params 1 s \<and> sy_crash s = Some ''send on closed channel''"
proof -
  obtain b where "reachable_fresh example_params 1 (subscribing b)" using subscribing_exists ..
  then have r0: "reachable example_params 1 (subscribing b)" by (rule reachable_fresh_reachable)
  let ?e = "tx_for NoCorrID [5] EndMsg" and ?r = "tx_for example_cid [5] (MsgMsg example_message)"
  let ?block = "block_wire [tx_wire 7 [9] ?e, tx_wire 7 [9] ?r]"
  let ?c = "sy_client (subscribing b)"
  let ?s = "set_reader (Dispatching [?e, ?r]) ?c (subscribing b)"
  have par: "hp_Version (cl_params ?c) = 7" "hp_SessID (cl_params ?c) = [9]"
    by (simp_all add: subscribing_def NewClient_def example_params_def)
  have "DecodeBlock 7 [9] ?block = Inr [?e, ?r]"
    by (rule decode_two) (simp_all add: bs_Cons example_message_def short_wire_def)
  then have "step (L_Block ?block) (subscribing b) = Some ?s"
    using subscribing_facts [of b] par by (simp add: step_reader reader_step_def Let_def)
  then have r: "reachable example_params 1 ?s" by (rule reach_step [OF r0])
  have msg: "msg_of ?c ?e = Some EndMsg" "msg_of ?c ?r = Some (MsgMsg example_message)"
    using par by (auto intro!: msg_of_tx_for simp: example_message_def)
  have f: "sy_crash ?s = None" "sy_reader ?s = Dispatching [?e, ?r]" "0 < length (sy_pcs ?s)"
    "sy_pcs ?s ! 0 = Waiting (P_Subscribe [5] 0) example_cid 0"
    "map_of (cl_sentCmds (sy_client ?s)) example_cid = Some 0" "map_of (cl_subs (sy_client ?s)) [5] = Some 0"
    "sub_event (sy_client ?s) [5] ?e = Some EndMsg" "tx_CorrID ?r = example_cid" "example_cid \<noteq> NoCorrID"
    "msg_of (sy_client ?s) ?r = Some (MsgMsg example_message)"
    using subscribing_facts [of b] msg by (simp_all add: set_reader_def sub_event_def) (simp_all add: tx_for_def)
  from END_before_inline_message_crashes [OF r f] run_reachable [OF r] show ?thesis by blast
qed

end
