(* ===== verification/Client_Trace.thy ===== *)
theory Client_Trace
  imports Client_System
begin

text \<open>
  Runs of the interleaved client with their history: which blocks the reader was given, which
  requests went out. A call gets the answer to its own request and to no other, and an answer that
  was read arrives, whatever the other calls do.
\<close>

section \<open>Traces\<close>

text \<open>The labels of a run, the last one first.\<close>

inductive trace :: "handshake_params \<Rightarrow> nat \<Rightarrow> label list \<Rightarrow> system \<Rightarrow> bool" for params n where
  trace_init: "trace params n [] (init_system params n)"
| trace_step: "trace params n ls s \<Longrightarrow> fresh l s \<Longrightarrow> step l s = Some s' \<Longrightarrow> trace params n (l # ls) s'"

lemma trace_reachable: "trace params n ls s \<Longrightarrow> reachable_fresh params n s"
  by (induction rule: trace.induct) (auto intro: reachable_fresh.intros)

lemma trace_facts:
  assumes "trace params n ls s"
  shows "client_inv (sy_client s)" "wait_inv s"
  using reachable_inv [OF reachable_fresh_reachable [OF trace_reachable [OF assms]]]
    reachable_wait [OF trace_reachable [OF assms]] by (simp_all add: sys_inv_def)

section \<open>What the history explains\<close>

text \<open>The transmissions of all blocks the reader was given and could decode.\<close>

definition received :: "handshake_params \<Rightarrow> label list \<Rightarrow> transmission list" where
  "received params ls = concat (map (\<lambda>l. case l of
      L_Block block \<Rightarrow> (case DecodeBlock (hp_Version params) (hp_SessID params) block of Inl _ \<Rightarrow> [] | Inr txs \<Rightarrow> txs)
    | _ \<Rightarrow> []) ls)"

text \<open>An answer to \<open>cid\<close> that the history explains: the message of a transmission with that id, or
  the error of a \<open>Close\<close> or of a failed read.\<close>

fun justified :: "handshake_params \<Rightarrow> label list \<Rightarrow> corr_id \<Rightarrow> broker_result \<Rightarrow> bool" where
  "justified params ls cid (Reply msg) \<longleftrightarrow>
     (\<exists>tx \<in> set (received params ls). tx_CorrID tx = cid \<and> DecodeBrokerMsg (hp_Version params) (tx_Command tx) = Inr msg)"
| "justified params ls cid (Failed e) \<longleftrightarrow>
     (\<exists>l \<in> set ls. case l of
        L_Close u cids keys \<Rightarrow> e = Sentinel ErrClientClosed
      | L_ReadErr err cids keys \<Rightarrow> e = wrapf ''smp: read: %w'' err
      | _ \<Rightarrow> False)"

text \<open>A call past its registration has drawn its id; past its write, its request is on the wire.\<close>

definition request_block :: "handshake_params \<Rightarrow> corr_id \<Rightarrow> pending \<Rightarrow> bytes \<Rightarrow> bool" where
  "request_block params cid q b \<longleftrightarrow>
     (\<exists>key. send_prepare params (Inr cid) key (fst (request_of q)) (snd (request_of q)) = Inr (cid, b))"

fun told :: "handshake_params \<Rightarrow> label list \<Rightarrow> bytes list \<Rightarrow> nat \<Rightarrow> pc \<Rightarrow> bool" where
  "told params ls sent t (Writing q cid i b) \<longleftrightarrow> L_Send t (Inr cid) \<in> set ls \<and> request_block params cid q b"
| "told params ls sent t (Waiting q cid i) \<longleftrightarrow>
     L_Send t (Inr cid) \<in> set ls \<and> (\<exists>b \<in> set sent. request_block params cid q b)"
| "told params ls sent t _ \<longleftrightarrow> True"

fun dispatching :: "reader \<Rightarrow> transmission list" where
  "dispatching (Dispatching txs) = txs"
| "dispatching _ = []"

definition trace_inv :: "handshake_params \<Rightarrow> label list \<Rightarrow> system \<Rightarrow> bool" where
  "trace_inv params ls s \<longleftrightarrow>
     cl_params (sy_client s) = params
   \<and> set (dispatching (sy_reader s)) \<subseteq> set (received params ls)
   \<and> (\<forall>t < length (sy_pcs s). told params ls (sy_sent s) t (sy_pcs s ! t)
       \<and> (\<forall>cid i r. live (sy_pcs s ! t) = Some (cid, i) \<longrightarrow> cl_results (sy_client s) ! i = answered r \<longrightarrow>
            justified params ls cid r))"

section \<open>More history explains more\<close>

lemma received_mono: "set (received params ls) \<subseteq> set (received params (l # ls))"
  by (auto simp: received_def)

lemma justified_mono: "justified params ls cid r \<Longrightarrow> justified params (l # ls) cid r"
  using received_mono [of params ls l] by (cases r) auto

lemma told_mono: "told params ls sent t p \<Longrightarrow> set sent \<subseteq> set sent' \<Longrightarrow> told params (l # ls) sent' t p"
  by (cases p) auto

lemma trace_inv_mono: "trace_inv params ls s \<Longrightarrow> trace_inv params (l # ls) s"
  using received_mono [of params ls l] justified_mono told_mono
  unfolding trace_inv_def by blast

lemma trace_inv_crash [simp]: "trace_inv params ls (s\<lparr>sy_crash := x\<rparr>) = trace_inv params ls s"
  by (simp add: trace_inv_def)

section \<open>What a step does to the answers\<close>

definition explains :: "handshake_params \<Rightarrow> label list \<Rightarrow> client \<Rightarrow> client \<Rightarrow> bool" where
  "explains params ls c c' \<longleftrightarrow> cl_params c' = cl_params c
     \<and> (\<forall>cid i r. cid \<noteq> NoCorrID \<longrightarrow> served c cid i \<longrightarrow> cl_results c' ! i = answered r \<longrightarrow>
          cl_results c ! i = answered r \<or> justified params ls cid r)"

lemma explains_same:
  "cl_params c' = cl_params c \<Longrightarrow> cl_results c' = cl_results c \<Longrightarrow> explains params ls c c'"
  by (simp add: explains_def)

lemma explains_append:
  "cl_params c' = cl_params c \<Longrightarrow> cl_results c' = cl_results c @ [x] \<Longrightarrow> explains params ls c c'"
  by (auto simp: explains_def served_def nth_append)

lemma explains_drained:
  assumes "\<And>cid. justified params ls cid r"
  shows "explains params ls c (drained r c)"
proof -
  have "cl_results (drained r c) ! i = answered r \<or> cl_results (drained r c) ! i = cl_results c ! i"
    if "i < length (cl_results c)" for i
    using that by (auto simp: drained_def)
  moreover have "answered r = answered r' \<longleftrightarrow> r = r'" for r' by (simp add: answered_def)
  moreover have "cl_params (drained r c) = cl_params c" by (simp add: drained_def)
  ultimately show ?thesis using assms unfolding explains_def served_def by metis
qed

text \<open>The reader hands a reply only to the call that drew its id.\<close>

lemma explains_dispatched:
  assumes "maps_ok c" "cl_params c = params" "tx \<in> set (received params ls)"
  shows "explains params ls c (dispatched tx c)"
  unfolding explains_def
proof (intro conjI allI impI)
  fix cid i r
  assume cid: "cid \<noteq> NoCorrID" and s: "served c cid i" and r: "cl_results (dispatched tx c) ! i = answered r"
  note reg = registry_lookup [OF maps_okD(1)]
  show "cl_results c ! i = answered r \<or> justified params ls cid r"
  proof (cases "map_of (cl_sentCmds c) cid = Some i")
    case True
    have "map_of (cl_sentCmds (dispatched tx c)) cid \<noteq> Some i"
      using reg [OF maps_ok_dispatched [OF assms(1), of tx], of cid i] r by (auto simp: answered_not_fresh)
    with dispatched_reply [OF assms(1) True cid, of tx] obtain msg where
      "msg_of c tx = Some msg" "tx_CorrID tx = cid" "cl_results (dispatched tx c) ! i = answered (Reply msg)"
      by (auto split: option.splits if_splits)
    moreover from this r have "r = Reply msg" by (simp add: answered_def)
    ultimately show ?thesis using assms(2,3) by (auto simp: msg_of_def split: sum.splits)
  next
    case False
    with s obtain r' where "cl_results c ! i = answered r'" by (auto simp: served_def)
    then have "map_of (cl_sentCmds c) k \<noteq> Some i" for k
      using reg [OF assms(1), of k i] by (auto simp: answered_not_fresh)
    with dispatched_unregistered(1) [OF assms(1)] r show ?thesis by simp
  qed
qed simp

lemma served_chan:
  assumes "maps_ok c" "served c cid i"
  shows "cl_results c ! i = make_chan 1 \<or> (\<exists>r. cl_results c ! i = answered r)"
  using assms registry_lookup [OF maps_okD(1) [OF assms(1)], of cid i] by (auto simp: served_def)

lemma explains_receive:
  assumes "maps_ok c" "served c cid i" "chan_recv (cl_results c ! i) = Done (r, ch)"
  shows "explains params ls c (c\<lparr>cl_results := (cl_results c)[i := ch]\<rparr>)"
proof -
  have "ch \<noteq> answered r'" for r'
    using served_chan [OF assms(1,2)] assms(3)
    by (auto simp: chan_recv_def answered_def make_chan_def)
  then have "cl_results c ! j = answered r'"
    if "j < length (cl_results c)" "(cl_results c)[i := ch] ! j = answered r'" for j r'
    using that by (cases "j = i") auto
  then show ?thesis by (auto simp: explains_def served_def)
qed

section \<open>The steps\<close>

lemma trace_inv_goto:
  assumes "trace_inv params ls s" "wait_inv s" "t < length (sy_pcs s)"
    and "explains params (l # ls) (sy_client s) c" "told params (l # ls) sent t p" "set (sy_sent s) \<subseteq> set sent"
    and "live p = None \<or> live p = live (sy_pcs s ! t) \<or> (\<exists>cid i. live p = Some (cid, i) \<and> cl_results c ! i = make_chan 1)"
  shows "trace_inv params (l # ls) ((goto t p c s)\<lparr>sy_sent := sent\<rparr>)"
proof -
  let ?s = "(goto t p c s)\<lparr>sy_sent := sent\<rparr>"
  have just: "justified params (l # ls) cid r"
    if "u < length (sy_pcs s)" "live (sy_pcs s ! u) = Some (cid, i)" "cl_results c ! i = answered r" for u cid i r
  proof (cases "cl_results (sy_client s) ! i = answered r")
    case True
    with that assms(1) have "justified params ls cid r" by (auto simp: trace_inv_def)
    then show ?thesis by (rule justified_mono)
  next
    case False
    with that wait_invD [OF assms(2) that(1,2)] assms(4) show ?thesis unfolding explains_def by blast
  qed
  have "told params (l # ls) sent u (sy_pcs ?s ! u) \<and> (\<forall>cid i r. live (sy_pcs ?s ! u) = Some (cid, i) \<longrightarrow>
      cl_results c ! i = answered r \<longrightarrow> justified params (l # ls) cid r)" if u: "u < length (sy_pcs s)" for u
  proof (cases "u = t")
    case True
    with assms(3,5,7) just [OF assms(3)] show ?thesis by (auto simp: answered_not_fresh)
  next
    case False
    then have "sy_pcs ?s ! u = sy_pcs s ! u" by (simp add: goto_def)
    moreover have "told params (l # ls) sent u (sy_pcs s ! u)"
      using assms(1) u by (intro told_mono [OF _ assms(6)]) (simp add: trace_inv_def)
    ultimately show ?thesis using just [OF u] by simp
  qed
  moreover have "cl_params c = params" using assms(1,4) by (simp add: trace_inv_def explains_def)
  moreover have "set (dispatching (sy_reader s)) \<subseteq> set (received params (l # ls))"
    using assms(1) received_mono [of params ls l] by (auto simp: trace_inv_def)
  ultimately show ?thesis by (simp add: trace_inv_def)
qed

lemma trace_inv_goto_same:
  assumes "trace_inv params ls s" "wait_inv s" "t < length (sy_pcs s)"
    and "explains params (l # ls) (sy_client s) c" "told params (l # ls) (sy_sent s) t p"
    and "live p = None \<or> live p = live (sy_pcs s ! t) \<or> (\<exists>cid i. live p = Some (cid, i) \<and> cl_results c ! i = make_chan 1)"
  shows "trace_inv params (l # ls) (goto t p c s)"
proof -
  have "(goto t p c s)\<lparr>sy_sent := sy_sent s\<rparr> = goto t p c s" by (simp add: goto_def)
  with trace_inv_goto [OF assms(1-5) subset_refl assms(6)] show ?thesis by simp
qed

lemma told_other [simp]: "live p = None \<Longrightarrow> told params ls sent t p"
  by (cases p) auto

lemma explains_client [simp]:
  "explains params ls c c" "explains params ls c (delete_cmd cid c)" "explains params ls c (delete_sub key c)"
  "explains params ls c (c\<lparr>cl_messages := x\<rparr>)" "explains params ls c (c\<lparr>cl_readerDone := b\<rparr>)"
  by (simp_all add: explains_same delete_cmd_def delete_sub_def)

lemma explains_Subscribe_register [simp]: "explains params ls c (snd (Subscribe_register key c))"
  by (simp add: explains_same Subscribe_register_def Let_def)

lemma trace_start:
  assumes "trace_inv params ls s" "wait_inv s" "t < length (sy_pcs s)"
  shows "trace_inv params (l # ls) (start t cl key s)"
proof -
  note keep = trace_inv_goto_same [OF assms]
  have sub: "trace_inv params (l # ls) (case Subscribe_register q (sy_client s) of
      (Inl e, c') \<Rightarrow> goto t (Returned (R_sub (Inl e))) c' s
    | (Inr ch, c') \<Rightarrow> goto t (Ready (P_Subscribe q ch) key) c' s)" for q
    using explains_Subscribe_register [of params "l # ls" "sy_client s" q]
    by (cases "Subscribe_register q (sy_client s)") (auto intro!: keep split: sum.split)
  show ?thesis
  proof (cases cl)
    case (Call_Subscribe q)
    with sub [of q] show ?thesis by (simp add: start_def)
  next
    case (Call_NewQueue req)
    then show ?thesis by (cases "NewQueue_request req") (simp_all add: start_def keep)
  qed (simp_all add: start_def keep)
qed

lemma trace_send:
  assumes "trace_inv params ls s" "wait_inv s" "t < length (sy_pcs s)"
  shows "trace_inv params (L_Send t rnd # ls) (send_step t q key rnd s)"
proof -
  let ?c = "sy_client s"
  note keep = trace_inv_goto_same [OF assms]
  have params: "cl_params ?c = params" using assms(1) by (simp add: trace_inv_def)
  show ?thesis
  proof (cases "send_prepare (cl_params ?c) rnd key (fst (request_of q)) (snd (request_of q))")
    case (Inl e)
    then show ?thesis by (simp add: send_step_def keep)
  next
    case (Inr cb)
    obtain cid block where cb: "cb = (cid, block)" by (cases cb)
    have rnd: "rnd = Inr cid" using Inr unfolding cb by (rule send_prepare_Inr)
    have req: "request_block params cid q block" using Inr unfolding cb rnd params request_block_def by blast
    show ?thesis
    proof (cases "cl_closed ?c")
      case True
      have "explains params (L_Send t rnd # ls) ?c (?c\<lparr>cl_results := cl_results ?c @ [make_chan 1]\<rparr>)"
        by (rule explains_append) simp_all
      with True Inr cb show ?thesis by (simp add: send_step_def Let_def send_register_closed keep)
    next
      case False
      let ?c' = "?c\<lparr>cl_results := cl_results ?c @ [make_chan 1],
        cl_sentCmds := AList.update cid (length (cl_results ?c)) (cl_sentCmds ?c)\<rparr>"
      have "explains params (L_Send t rnd # ls) ?c ?c'" by (rule explains_append) simp_all
      then have "trace_inv params (L_Send t rnd # ls) (goto t (Writing q cid (length (cl_results ?c)) block) ?c' s)"
        using req rnd by (intro keep) (simp_all add: nth_append)
      with False Inr cb show ?thesis by (simp add: send_step_def Let_def send_register_open)
    qed
  qed
qed

lemma trace_write:
  assumes "trace_inv params ls s" "wait_inv s" "t < length (sy_pcs s)" "sy_pcs s ! t = Writing q cid i block"
  shows "trace_inv params (l # ls) ((goto t (Waiting q cid i) (sy_client s) s)\<lparr>sy_sent := sy_sent s @ [block]\<rparr>)"
proof (rule trace_inv_goto [OF assms(1-3)])
  have "told params ls (sy_sent s) t (Writing q cid i block)"
    using assms(1,3,4) unfolding trace_inv_def by metis
  then show "told params (l # ls) (sy_sent s @ [block]) t (Waiting q cid i)" by auto
qed (use assms(4) in auto)

lemma trace_caller_step:
  assumes "trace_inv params ls s" "wait_inv s" "client_inv (sy_client s)" "t < length (sy_pcs s)"
    "caller_step l t (sy_pcs s ! t) s = Some s'" "caller l = Some t"
  shows "trace_inv params (l # ls) s'"
proof -
  let ?c = "sy_client s"
  have m: "maps_ok ?c" using assms(3) by (simp add: client_inv_def)
  note step = assms(5) [unfolded caller_step_def Let_def]
  note keep = trace_inv_goto_same [OF assms(1,2,4)]
  from assms(5) show ?thesis
  proof (cases rule: caller_step_cases)
    case start
    with step trace_start [OF assms(1,2,4)] show ?thesis by auto
  next
    case send
    with step trace_send [OF assms(1,2,4)] assms(6) show ?thesis by auto
  next
    case wr
    with step trace_write [OF assms(1,2,4)] show ?thesis by (auto intro!: keep split: sum.splits)
  next
    case (receive u q cid i)
    then have "served ?c cid i" using wait_invD(1) [OF assms(2,4)] by simp
    with receive step explains_receive [OF m] show ?thesis
      by (auto simp: settle_Some chan_recv_no_panic intro!: keep)
  next
    case (close u cids keys)
    then have it: "iterates cids (cl_sentCmds ?c)" "iterates keys (cl_subs ?c)"
      using step by (auto split: if_splits)
    have "justified params (l # ls) cid (Failed (Sentinel ErrClientClosed))" for cid
      using close by simp
    with close step show ?thesis
      by (auto simp: Close_locked_eq [OF m it] intro!: keep explains_drained split: if_splits)
  qed (use step trace_inv_mono [OF assms(1)] in
      \<open>auto simp: settle_Some on_messages_Done intro!: keep split: sum.splits if_splits\<close>)
qed

text \<open>Steps of the reader.\<close>

lemma trace_set_reader:
  assumes "trace_inv params ls s" "wait_inv s" "explains params (l # ls) (sy_client s) c"
    and "set (dispatching r) \<subseteq> set (received params (l # ls))"
  shows "trace_inv params (l # ls) (set_reader r c s)"
proof -
  have "justified params (l # ls) cid x"
    if "u < length (sy_pcs s)" "live (sy_pcs s ! u) = Some (cid, i)" "cl_results c ! i = answered x" for u cid i x
  proof (cases "cl_results (sy_client s) ! i = answered x")
    case True
    with that assms(1) have "justified params ls cid x" by (auto simp: trace_inv_def)
    then show ?thesis by (rule justified_mono)
  next
    case False
    with that wait_invD [OF assms(2) that(1,2)] assms(3) show ?thesis unfolding explains_def by blast
  qed
  moreover have "told params (l # ls) (sy_sent s) u (sy_pcs s ! u)" if "u < length (sy_pcs s)" for u
    using assms(1) that by (intro told_mono [OF _ subset_refl]) (simp add: trace_inv_def)
  ultimately show ?thesis
    using assms(1,3,4) by (simp add: trace_inv_def set_reader_def explains_def)
qed

lemma trace_reader_step:
  assumes "trace_inv params ls s" "wait_inv s" "client_inv (sy_client s)" "reader_step l (sy_reader s) s = Some s'"
  shows "trace_inv params (l # ls) s'"
proof -
  let ?c = "sy_client s"
  have m: "maps_ok ?c" using assms(3) by (simp add: client_inv_def)
  have p: "cl_params ?c = params" and d: "set (dispatching (sy_reader s)) \<subseteq> set (received params ls)"
    using assms(1) by (simp_all add: trace_inv_def)
  note step = assms(4) [unfolded reader_step_def Let_def]
  note keep = trace_set_reader [OF assms(1,2)]
  from assms(4) show ?thesis
  proof (cases rule: reader_step_cases)
    case (block b)
    show ?thesis
    proof (cases "DecodeBlock (hp_Version params) (hp_SessID params) b")
      case (Inl e)
      with block step p trace_inv_mono [OF assms(1)] show ?thesis by simp
    next
      case (Inr txs)
      with block have "set txs \<subseteq> set (received params (l # ls))" by (simp add: received_def)
      moreover have "s' = set_reader (Dispatching txs) ?c s" using block step p Inr by simp
      ultimately show ?thesis by (simp add: keep)
    qed
  next
    case next'
    with step show ?thesis by (auto intro!: keep)
  next
    case (disp tx txs)
    then have tx: "tx \<in> set (received params (l # ls))" "set txs \<subseteq> set (received params (l # ls))"
      using d received_mono [of params ls l] by auto
    have "explains params (l # ls) ?c (dispatched tx ?c)" by (rule explains_dispatched [OF m p tx(1)])
    with disp step tx(2) show ?thesis by (auto simp: dispatch_eq [OF m] intro!: keep)
  next
    case (err e cids keys)
    then have it: "iterates cids (cl_sentCmds ?c)" "iterates keys (cl_subs ?c)"
      using step by (auto split: if_splits)
    have "justified params (l # ls) cid (Failed (wrapf ''smp: read: %w'' e))" for cid
      using err by simp
    with err step show ?thesis
      by (auto simp: handleReadError_eq [OF m it] intro!: keep explains_drained split: if_splits)
  next
    case exit
    with step show ?thesis by (auto intro!: keep)
  qed
qed

lemma trace_inv_step:
  assumes "trace_inv params ls s" "wait_inv s" "client_inv (sy_client s)" "step l s = Some s'"
  shows "trace_inv params (l # ls) s'"
proof (cases "caller l")
  case (Some t)
  with step_caller_Some [OF assms(4)] trace_caller_step [OF assms(1-3)] show ?thesis by blast
next
  case None
  show ?thesis
  proof (cases "\<exists>ch. l = L_Consume ch")
    case True
    with assms(4) obtain x where "s' = set_reader (sy_reader s) ((sy_client s)\<lparr>cl_messages := x\<rparr>) s"
      by (auto simp: step_def consume_step_def settle_Some set_reader_def chan_recv_no_panic split: if_splits)
    moreover have "set (dispatching (sy_reader s)) \<subseteq> set (received params (l # ls))"
      using assms(1) received_mono [of params ls l] by (auto simp: trace_inv_def)
    ultimately show ?thesis using trace_set_reader [OF assms(1,2)] by simp
  next
    case False
    with None assms(4) have "reader_step l (sy_reader s) s = Some s'"
      by (cases l) (auto simp: step_def split: if_splits)
    then show ?thesis by (rule trace_reader_step [OF assms(1-3)])
  qed
qed

lemma trace_holds: "trace params n ls s \<Longrightarrow> trace_inv params ls s"
proof (induction rule: trace.induct)
  case trace_init
  then show ?case by (simp add: trace_inv_def init_system_def NewClient_def)
next
  case (trace_step ls s l s')
  show ?case by (rule trace_inv_step [OF trace_step.IH trace_facts(2,1) [OF trace_step.hyps(1)] trace_step.hyps(3)])
qed

section \<open>Nobody gets another call's answer\<close>

lemma request_block_decodes:
  assumes "request_block params cid q b" "wf_corr_id cid"
  shows "\<exists>tx. DecodeBlock (hp_Version params) (hp_SessID params) (b @ pad) = Inr [tx] \<and> tx_CorrID tx = cid
    \<and> tx_EntityID tx = fst (request_of q) \<and> tx_Command tx = command_wire (hp_Version params) (snd (request_of q))"
  using assms request_decodes by (metis request_block_def)

lemma justified_cases:
  assumes "justified params ls cid r"
  shows "case r of
      Reply msg \<Rightarrow> \<exists>tx \<in> set (received params ls). tx_CorrID tx = cid
        \<and> DecodeBrokerMsg (hp_Version params) (tx_Command tx) = Inr msg
    | Failed e \<Rightarrow> (\<exists>u cids keys. L_Close u cids keys \<in> set ls \<and> e = Sentinel ErrClientClosed)
        \<or> (\<exists>err cids keys. L_ReadErr err cids keys \<in> set ls \<and> e = wrapf ''smp: read: %w'' err)"
proof (cases r)
  case (Failed e)
  with assms obtain l where "l \<in> set ls" "case l of L_Close u cids keys \<Rightarrow> e = Sentinel ErrClientClosed
      | L_ReadErr err cids keys \<Rightarrow> e = wrapf ''smp: read: %w'' err | _ \<Rightarrow> False" by auto
  with Failed show ?thesis by (cases l) (simp_all, blast+)
qed (use assms in simp)

text \<open>C3: However callers, the reader and the server's blocks are interleaved, what a call of \<open>send\<close>
  gets is its own: when it receives from its channel, it had drawn its correlation id and a
  block with this id, its own queue and its own command is on the wire; what it receives is the
  message of a transmission with this id from a block the reader was given, or the error of a
  \<open>Close\<close> or of a failed read that happened; and no other call uses this id. The assumption is
  that the random ids are fresh, 24 bytes each.\<close>

theorem call_gets_its_own_answer:
  assumes "trace params n ls s" and "t < length (sy_pcs s)" and "sy_pcs s ! t = Waiting q cid i"
    and "wf_corr_id cid" and "step (L_Receive t) s = Some s'"
  shows "\<exists>r. sy_pcs s' ! t = Sent q (send_reply (Some r))
    \<and> (case r of
        Reply msg \<Rightarrow> \<exists>tx \<in> set (received params ls). tx_CorrID tx = cid
            \<and> DecodeBrokerMsg (hp_Version params) (tx_Command tx) = Inr msg
      | Failed e \<Rightarrow> (\<exists>u cids keys. L_Close u cids keys \<in> set ls \<and> e = Sentinel ErrClientClosed)
            \<or> (\<exists>err cids keys. L_ReadErr err cids keys \<in> set ls \<and> e = wrapf ''smp: read: %w'' err))
    \<and> L_Send t (Inr cid) \<in> set ls
    \<and> (\<exists>b \<in> set (sy_sent s). \<exists>tx. DecodeBlock (hp_Version params) (hp_SessID params) (b @ pad) = Inr [tx]
        \<and> tx_CorrID tx = cid \<and> tx_EntityID tx = fst (request_of q)
        \<and> tx_Command tx = command_wire (hp_Version params) (snd (request_of q)))
    \<and> (\<forall>u < length (sy_pcs s). u \<noteq> t \<longrightarrow> holds_cid (sy_pcs s ! u) \<noteq> Some cid)"
proof -
  note inv = trace_holds [OF assms(1)] and wait = trace_facts(2) [OF assms(1)]
  have m: "maps_ok (sy_client s)" using trace_facts(1) [OF assms(1)] by (simp add: client_inv_def)
  have live: "live (sy_pcs s ! t) = Some (cid, i)" using assms(3) by simp
  have step: "caller_step (L_Receive t) t (Waiting q cid i) s = Some s'"
    using step_caller_Some [OF assms(5), of t] assms(3) by simp
  have "cl_results (sy_client s) ! i \<noteq> make_chan 1"
    using step by (auto simp: caller_step_def chan_recv_def make_chan_def)
  with served_chan [OF m wait_invD(1) [OF wait assms(2) live]]
  obtain r where r: "cl_results (sy_client s) ! i = answered r" by blast
  have "sy_pcs s' ! t = Sent q (send_reply (Some r))"
    using step r assms(2) by (auto simp: caller_step_def Let_def chan_recv_def answered_def)
  moreover have "justified params ls cid r"
    using inv live r assms(2) unfolding trace_inv_def by blast
  note justified_cases [OF this]
  moreover have "told params ls (sy_sent s) t (Waiting q cid i)"
    using inv assms(2,3) unfolding trace_inv_def by metis
  then have "L_Send t (Inr cid) \<in> set ls" "\<exists>b \<in> set (sy_sent s). request_block params cid q b" by simp_all
  moreover note request_block_decodes [OF _ assms(4), of params q _ pad]
  moreover have "\<forall>u < length (sy_pcs s). u \<noteq> t \<longrightarrow> holds_cid (sy_pcs s ! u) \<noteq> Some cid"
    using wait assms(2) live_holds [OF live] unfolding wait_inv_def by blast
  ultimately show ?thesis by blast
qed

section \<open>An answer that is under way arrives\<close>

lemma reachable_params:
  assumes "reachable_fresh params n s"
  shows "cl_params (sy_client s) = params"
proof -
  from assms have "\<exists>ls. trace params n ls s"
    by (induction rule: reachable_fresh.induct) (blast intro: trace.intros)+
  then show ?thesis using trace_holds by (auto simp: trace_inv_def)
qed

lemma first_reply_params:
  assumes "cl_params c' = cl_params c"
  shows "first_reply c' cid txs = first_reply c cid txs"
proof -
  have "msg_of c' tx = msg_of c tx" for tx using assms by (simp add: msg_of_def)
  then show ?thesis by (induction txs) auto
qed

lemma step_receive:
  assumes "sy_crash s = None" "t < length (sy_pcs s)" "sy_pcs s ! t = Waiting q cid i"
    "cl_results (sy_client s) ! i = answered r"
  shows "\<exists>s'. step (L_Receive t) s = Some s' \<and> sy_pcs s' ! t = Sent q (send_reply (Some r))"
  using assms by (simp add: step_caller caller_step_def Let_def chan_recv_def answered_def)

lemma step_dispatch:
  assumes "sy_crash s = None" "sy_reader s = Dispatching (tx # txs)" "maps_ok (sy_client s)"
  shows "step L_Dispatch s = Some (set_reader (Dispatching txs) (dispatched tx (sy_client s)) s)"
  using assms by (simp add: step_reader reader_step_def Let_def dispatch_eq)

text \<open>A dispatching reader takes no other step, and nobody else moves it.\<close>

lemma other_step_keeps_reader:
  assumes "step l s = Some s'" "client_inv (sy_client s)" "sy_reader s = Dispatching txs" "l \<noteq> L_Dispatch"
  shows "sy_reader s' = sy_reader s"
proof (cases "caller l")
  case (Some u)
  with step_caller_Some [OF assms(1) Some] caller_flags [OF assms(2)] show ?thesis by (auto simp: same_flags_def)
next
  case None
  have "reader_step l (Dispatching txs) s = None"
    using assms(4) by (cases l) (simp_all add: reader_step_def Let_def)
  with None assms(1,3) show ?thesis
    by (cases l) (auto simp: step_def consume_step_def settle_Some split: if_splits)
qed

lemma step_length:
  assumes "step l s = Some s'"
  shows "length (sy_pcs s') = length (sy_pcs s)"
proof (cases "caller l")
  case (Some u)
  with step_caller_Some [OF assms] have call: "caller_step l u (sy_pcs s ! u) s = Some s'" by simp
  note step = call [unfolded caller_step_def Let_def]
  from call show ?thesis
  proof (cases rule: caller_step_cases)
    case start
    with step show ?thesis by (auto simp: start_def Let_def split: call.splits sum.splits prod.splits)
  next
    case send
    with step show ?thesis by (auto simp: send_step_def Let_def split: sum.splits prod.splits)
  qed (use step in \<open>auto simp: settle_Some split: sum.splits if_splits\<close>)
next
  case None
  with assms reader_step_others show ?thesis
    by (cases l) (auto simp: step_def consume_step_def settle_Some split: if_splits)
qed

lemma first_reply_dispatch:
  assumes "maps_ok c" "map_of (cl_sentCmds c) cid = Some i" "cid \<noteq> NoCorrID" "first_reply c cid (tx # txs) = Some msg"
  shows "cl_results (dispatched tx c) ! i = answered (Reply msg)
    \<or> map_of (cl_sentCmds (dispatched tx c)) cid = Some i \<and> first_reply (dispatched tx c) cid txs = Some msg"
  using dispatched_reply [OF assms(1-3), of tx] assms(4) by (auto split: if_splits option.splits)

text \<open>Another call's step changes the channel of a waiting call only by closing the client.\<close>

lemma caller_step_results:
  assumes "wait_inv s" "client_inv (sy_client s)" "t < length (sy_pcs s)" "live (sy_pcs s ! t) = Some (cid, i)"
    "caller_step l u (sy_pcs s ! u) s = Some s'" "u < length (sy_pcs s)" "u \<noteq> t"
  shows "cl_results (sy_client s') ! i = cl_results (sy_client s) ! i
    \<or> (\<exists>v cids keys. l = L_Close v cids keys)
      \<and> cl_results (sy_client s') ! i = answered (Failed (Sentinel ErrClientClosed))"
proof -
  let ?c = "sy_client s"
  have m: "maps_ok ?c" using assms(2) by (simp add: client_inv_def)
  have i: "i < length (cl_results ?c)" using wait_invD(1) [OF assms(1,3,4)] by (simp add: served_def)
  note step = assms(5) [unfolded caller_step_def Let_def]
  from assms(5) show ?thesis
  proof (cases rule: caller_step_cases)
    case (start v cl key)
    have "cl_results c' = cl_results ?c" if "Subscribe_register q ?c = (r, c')" for q r c'
      using that by (auto simp: Subscribe_register_def Let_def split: if_splits)
    with start step show ?thesis by (auto simp: start_def Let_def split: call.splits sum.splits prod.splits)
  next
    case (send v rnd q key)
    have "cl_results c' ! i = cl_results ?c ! i" if "send_register k ?c = (r, c')" for k r c'
      using that i by (auto simp: send_register_def Let_def nth_append split: if_splits)
    with send step show ?thesis by (auto simp: send_step_def Let_def split: sum.splits prod.splits)
  next
    case (receive v q k j)
    then have "live (sy_pcs s ! u) = Some (k, j)" by simp
    with assms(1,3,4,6,7) have "j \<noteq> i" unfolding wait_inv_def by metis
    with receive step show ?thesis by (auto simp: settle_Some chan_recv_no_panic)
  next
    case (close v cids keys)
    then have it: "iterates cids (cl_sentCmds ?c)" "iterates keys (cl_subs ?c)"
      using step by (auto split: if_splits)
    have "cl_results (drained (Failed (Sentinel ErrClientClosed)) ?c) ! i
      \<in> {answered (Failed (Sentinel ErrClientClosed)), cl_results ?c ! i}"
      using i by (auto simp: drained_def)
    with close step show ?thesis by (auto simp: Close_locked_eq [OF m it] split: if_splits)
  qed (use step in \<open>auto simp: settle_Some on_messages_Done delete_cmd_def delete_sub_def split: sum.splits if_splits\<close>)
qed

lemma step_results:
  assumes "wait_inv s" "client_inv (sy_client s)" "t < length (sy_pcs s)" "live (sy_pcs s ! t) = Some (cid, i)"
    "step l s = Some s'" "caller l \<noteq> Some t" "sy_reader s = Dispatching txs" "l \<noteq> L_Dispatch"
  shows "cl_results (sy_client s') ! i = cl_results (sy_client s) ! i
    \<or> (\<exists>v cids keys. l = L_Close v cids keys)
      \<and> cl_results (sy_client s') ! i = answered (Failed (Sentinel ErrClientClosed))"
proof (cases "caller l")
  case (Some u)
  with step_caller_Some [OF assms(5) Some] assms(6) caller_step_results [OF assms(1-4), of l u s'] show ?thesis by auto
next
  case None
  have "reader_step l (Dispatching txs) s = None"
    using assms(8) by (cases l) (simp_all add: reader_step_def Let_def)
  with None assms(5,7) show ?thesis
    by (cases l) (auto simp: step_def consume_step_def settle_Some split: if_splits)
qed

lemma reader_delivers:
  assumes "maps_ok (sy_client s)" "sy_crash s = None" "t < length (sy_pcs s)" "sy_pcs s ! t = Waiting q cid i"
    "cid \<noteq> NoCorrID" "map_of (cl_sentCmds (sy_client s)) cid = Some i"
    "sy_reader s = Dispatching txs" "first_reply (sy_client s) cid txs = Some msg"
  shows "\<exists>k s'. k \<le> length txs \<and> run (replicate k L_Dispatch @ [L_Receive t]) s = Some s'
    \<and> sy_pcs s' ! t = Sent q (send_reply (Some (Reply msg)))"
  using assms
proof (induction txs arbitrary: s)
  case (Cons tx txs)
  let ?c = "dispatched tx (sy_client s)"
  let ?s = "set_reader (Dispatching txs) ?c s"
  have step: "step L_Dispatch s = Some ?s" by (rule step_dispatch [OF Cons.prems(2,7,1)])
  have s: "sy_crash ?s = None" "t < length (sy_pcs ?s)" "sy_pcs ?s ! t = Waiting q cid i" "maps_ok (sy_client ?s)"
    "sy_client ?s = ?c" "sy_reader ?s = Dispatching txs"
    using Cons.prems maps_ok_dispatched by (simp_all add: set_reader_def)
  from first_reply_dispatch [OF Cons.prems(1,6,5,8)]
  show ?case
  proof
    assume "cl_results ?c ! i = answered (Reply msg)"
    with step_receive [OF s(1-3)] s(5) obtain s' where "step (L_Receive t) ?s = Some s'"
      "sy_pcs s' ! t = Sent q (send_reply (Some (Reply msg)))" by auto
    with step show ?thesis by (intro exI [of _ 1]) simp
  next
    assume "map_of (cl_sentCmds ?c) cid = Some i \<and> first_reply ?c cid txs = Some msg"
    with Cons.IH [OF s(4,1-3) Cons.prems(5) _ s(6)] s(5) obtain k s' where "k \<le> length txs"
      "run (replicate k L_Dispatch @ [L_Receive t]) ?s = Some s'"
      "sy_pcs s' ! t = Sent q (send_reply (Some (Reply msg)))" by auto
    with step show ?thesis by (intro exI [of _ "Suc k"] exI [of _ s']) simp
  qed
qed simp

text \<open>C4: An answer that is under way arrives: once a block with a reply to a waiting call has been
  read, the reader's own steps, at most one per transmission of the block, bring the call to
  return it, whatever the other calls are doing; and whoever steps in between, the call stays
  where it is, and each turn of the reader brings the answer closer or delivers exactly it,
  while of everybody else's steps only a \<open>Close\<close> by another caller can take its place - the call
  then has \<open>ErrClientClosed\<close> -, and after every other step the call is still registered and the
  answer still in front of the reader. So with a reader that is given its turns a reply is
  never lost to another call's step, short of the client being closed.\<close>

theorem answer_under_way_arrives:
  assumes "reachable_fresh params n s" and "sy_crash s = None" and "t < length (sy_pcs s)"
    and "sy_pcs s ! t = Waiting q cid i" and "map_of (cl_sentCmds (sy_client s)) cid = Some i"
    and "sy_reader s = Dispatching txs" and "first_reply (sy_client s) cid txs = Some msg"
  shows "(\<exists>k s'. k \<le> length txs \<and> run (replicate k L_Dispatch @ [L_Receive t]) s = Some s'
        \<and> sy_pcs s' ! t = Sent q (send_reply (Some (Reply msg))))
    \<and> (\<forall>l s'. fresh l s \<and> step l s = Some s' \<and> caller l \<noteq> Some t \<longrightarrow>
        sy_pcs s' ! t = Waiting q cid i
        \<and> (if l = L_Dispatch then
            cl_results (sy_client s') ! i = answered (Reply msg)
            \<or> map_of (cl_sentCmds (sy_client s')) cid = Some i \<and> sy_reader s' = Dispatching (tl txs)
              \<and> first_reply (sy_client s') cid (tl txs) = Some msg
          else (\<exists>u cids keys. l = L_Close u cids keys)
              \<and> cl_results (sy_client s') ! i = answered (Failed (Sentinel ErrClientClosed))
            \<or> map_of (cl_sentCmds (sy_client s')) cid = Some i \<and> sy_reader s' = Dispatching txs
              \<and> first_reply (sy_client s') cid txs = Some msg))"
proof -
  have inv: "client_inv (sy_client s)"
    using reachable_inv [OF reachable_fresh_reachable [OF assms(1)]] by (simp add: sys_inv_def)
  then have m: "maps_ok (sy_client s)" by (simp add: client_inv_def)
  have cid: "cid \<noteq> NoCorrID" using wait_invD(2) [OF reachable_wait [OF assms(1)] assms(3)] assms(4) by simp
  have others: "(\<exists>u cids keys. l = L_Close u cids keys)
        \<and> cl_results (sy_client s') ! i = answered (Failed (Sentinel ErrClientClosed))
      \<or> map_of (cl_sentCmds (sy_client s')) cid = Some i \<and> sy_reader s' = Dispatching txs
        \<and> first_reply (sy_client s') cid txs = Some msg"
    if "fresh l s" "step l s = Some s'" "l \<noteq> L_Dispatch" "caller l \<noteq> Some t" "sy_pcs s' ! t = Waiting q cid i" "t < length (sy_pcs s')" for l s'
  proof -
    have r: "reachable_fresh params n s'" by (rule fresh_step [OF assms(1) that(1,2)])
    from wait_invD(1) [OF reachable_wait [OF this] that(6)] that(5) have "served (sy_client s') cid i" by simp
    moreover have "first_reply (sy_client s') cid txs = Some msg"
      using first_reply_params [of "sy_client s'" "sy_client s"] reachable_params [OF r] reachable_params [OF assms(1)] assms(7)
      by simp
    moreover have "cl_results (sy_client s) ! i = make_chan 1"
      using registry_lookup [OF maps_okD(1) [OF m] assms(5)] by simp
    moreover have "live (sy_pcs s ! t) = Some (cid, i)" using assms(4) by simp
    note step_results [OF reachable_wait [OF assms(1)] inv assms(3) this that(2,4) assms(6) that(3)]
    ultimately show ?thesis
      using other_step_keeps_reader [OF that(2) inv assms(6) that(3)] assms(6)
      by (auto simp: served_def answered_not_fresh)
  qed
  obtain tx txs' where txs: "txs = tx # txs'" using assms(7) by (cases txs) auto
  have reader: "cl_results (sy_client s') ! i = answered (Reply msg)
      \<or> map_of (cl_sentCmds (sy_client s')) cid = Some i \<and> sy_reader s' = Dispatching (tl txs)
        \<and> first_reply (sy_client s') cid (tl txs) = Some msg" if "step L_Dispatch s = Some s'" for s'
    using that step_dispatch [OF assms(2) assms(6) [unfolded txs] m]
      first_reply_dispatch [OF m assms(5) cid assms(7) [unfolded txs]] txs
    by (auto simp: set_reader_def)
  have "sy_pcs s' ! t = Waiting q cid i" "t < length (sy_pcs s')" if "step l s = Some s'" "caller l \<noteq> Some t" for l s'
    using other_step_keeps [OF that] step_length [OF that(1)] assms(3,4) by simp_all
  with reader others have "sy_pcs s' ! t = Waiting q cid i
        \<and> (if l = L_Dispatch then
            cl_results (sy_client s') ! i = answered (Reply msg)
            \<or> map_of (cl_sentCmds (sy_client s')) cid = Some i \<and> sy_reader s' = Dispatching (tl txs)
              \<and> first_reply (sy_client s') cid (tl txs) = Some msg
          else (\<exists>u cids keys. l = L_Close u cids keys)
              \<and> cl_results (sy_client s') ! i = answered (Failed (Sentinel ErrClientClosed))
            \<or> map_of (cl_sentCmds (sy_client s')) cid = Some i \<and> sy_reader s' = Dispatching txs
              \<and> first_reply (sy_client s') cid txs = Some msg)"
    if "fresh l s \<and> step l s = Some s' \<and> caller l \<noteq> Some t" for l s'
    using that by (split if_split) blast
  with reader_delivers [OF m assms(2-4) cid assms(5-7)] show ?thesis by blast
qed

section \<open>Examples\<close>

lemma subscribing_trace:
  assumes "send_prepare example_params (Inr example_cid) None [5] SubCmd = Inr (example_cid, block)"
  shows "trace example_params 1 [L_Write 0 (Inr ()), L_Send 0 (Inr example_cid), L_Start 0 (Call_Subscribe [5]) None]
    (subscribing block)"
proof -
  obtain s1 s2 where 1: "step (L_Start 0 (Call_Subscribe [5]) None) (init_system example_params 1) = Some s1"
    and 2: "fresh (L_Send 0 (Inr example_cid)) s1" "step (L_Send 0 (Inr example_cid)) s1 = Some s2"
    and 3: "step (L_Write 0 (Inr ())) s2 = Some (subscribing block)"
    using subscribing_steps [OF assms] by blast
  have "trace example_params 1 [L_Start 0 (Call_Subscribe [5]) None] s1"
    by (rule trace_step [OF trace_init _ 1]) simp
  then have "trace example_params 1 [L_Send 0 (Inr example_cid), L_Start 0 (Call_Subscribe [5]) None] s2"
    by (rule trace_step [OF _ 2])
  then show ?thesis by (rule trace_step [OF _ _ 3]) simp
qed

text \<open>The subscription above when the server's \<open>OK\<close> has been read.\<close>

definition answering :: "bytes \<Rightarrow> system" where
  "answering b = set_reader (Dispatching [tx_for example_cid [5] OKMsg]) (sy_client (subscribing b)) (subscribing b)"

lemma answering_facts:
  "sy_crash (answering b) = None" "0 < length (sy_pcs (answering b))"
  "sy_pcs (answering b) ! 0 = Waiting (P_Subscribe [5] 0) example_cid 0"
  "map_of (cl_sentCmds (sy_client (answering b))) example_cid = Some 0"
  "sy_reader (answering b) = Dispatching [tx_for example_cid [5] OKMsg]"
  "first_reply (sy_client (answering b)) example_cid [tx_for example_cid [5] OKMsg] = Some OKMsg"
proof -
  have "msg_of (sy_client (subscribing b)) (tx_for example_cid [5] OKMsg) = Some OKMsg"
    by (intro msg_of_tx_for) (simp_all add: subscribing_def NewClient_def example_params_def)
  then show "first_reply (sy_client (answering b)) example_cid [tx_for example_cid [5] OKMsg] = Some OKMsg"
    by (simp add: answering_def set_reader_def) (simp add: tx_for_def)
qed (simp_all add: answering_def set_reader_def subscribing_def)

lemma answering_trace: "\<exists>b ls. trace example_params 1 ls (answering b)"
proof -
  obtain b where b: "send_prepare example_params (Inr example_cid) None [5] SubCmd = Inr (example_cid, b)"
    using prepare_sub by blast
  let ?tx = "tx_for example_cid [5] OKMsg"
  have "DecodeBlock 7 [9] (block_for ?tx) = Inr [?tx]" by (rule decode_block_for) (simp_all add: bs_Cons)
  moreover have "hp_Version (cl_params (sy_client (subscribing b))) = 7" "hp_SessID (cl_params (sy_client (subscribing b))) = [9]"
    by (simp_all add: subscribing_def NewClient_def example_params_def)
  ultimately have "step (L_Block (block_for ?tx)) (subscribing b) = Some (answering b)"
    using subscribing_facts [of b] by (simp add: step_reader reader_step_def Let_def answering_def)
  from trace_step [OF subscribing_trace [OF b] _ this] show ?thesis by auto
qed

theorem call_gets_its_own_answer_witness:
  "\<exists>ls s s'. trace example_params 1 ls s \<and> step (L_Receive 0) s = Some s'
    \<and> sy_pcs s' ! 0 = Sent (P_Subscribe [5] 0) (send_reply (Some (Reply OKMsg)))
    \<and> L_Send 0 (Inr example_cid) \<in> set ls
    \<and> (\<exists>tx \<in> set (received example_params ls). tx_CorrID tx = example_cid)"
proof -
  obtain b ls where tr: "trace example_params 1 ls (answering b)" using answering_trace by blast
  let ?tx = "tx_for example_cid [5] OKMsg" and ?c = "sy_client (answering b)"
  let ?s = "set_reader (Dispatching []) (dispatched ?tx ?c) (answering b)"
  have m: "maps_ok ?c" using trace_facts(1) [OF tr] by (simp add: client_inv_def)
  have t: "trace example_params 1 (L_Dispatch # ls) ?s"
    by (rule trace_step [OF tr _ step_dispatch [OF answering_facts(1,5) m]]) simp
  have "cl_results (dispatched ?tx ?c) ! 0 = answered (Reply OKMsg)"
    using first_reply_dispatch [OF m answering_facts(4) _ answering_facts(6)] by auto
  then have pc: "sy_crash ?s = None" "0 < length (sy_pcs ?s)" "sy_pcs ?s ! 0 = Waiting (P_Subscribe [5] 0) example_cid 0"
    "cl_results (sy_client ?s) ! 0 = answered (Reply OKMsg)"
    using answering_facts [of b] by (simp_all add: set_reader_def)
  obtain s' where s': "step (L_Receive 0) ?s = Some s'"
    "sy_pcs s' ! 0 = Sent (P_Subscribe [5] 0) (send_reply (Some (Reply OKMsg)))"
    using step_receive [OF pc] by blast
  have cid: "wf_corr_id example_cid" by simp
  obtain r where p: "sy_pcs s' ! 0 = Sent (P_Subscribe [5] 0) (send_reply (Some r))"
    and r: "\<And>msg. r = Reply msg \<Longrightarrow> \<exists>tx \<in> set (received example_params (L_Dispatch # ls)). tx_CorrID tx = example_cid"
    and l: "L_Send 0 (Inr example_cid) \<in> set (L_Dispatch # ls)"
    using call_gets_its_own_answer [OF t pc(2,3) cid s'(1), of "[]"] by fastforce
  from p s'(2) obtain msg where "r = Reply msg" by (cases r) (auto simp: send_reply_def)
  from t s' l r [OF this] show ?thesis by blast
qed

theorem answer_under_way_arrives_witness:
  "\<exists>b k s'. run (replicate k L_Dispatch @ [L_Receive 0]) (answering b) = Some s'
    \<and> sy_pcs s' ! 0 = Sent (P_Subscribe [5] 0) (Inr (Some OKMsg))"
proof -
  obtain b ls where "trace example_params 1 ls (answering b)" using answering_trace by blast
  from answer_under_way_arrives [OF trace_reachable [OF this] answering_facts(1-6)]
  show ?thesis by (auto simp: send_reply_def)
qed

end
