(* ===== verification/Read_Loop.thy ===== *)
theory Read_Loop
  imports Client
begin

text \<open>
  The loop of the reader goroutine, \<open>readLoop\<close> of \<open>smp/client.go\<close>, over the interface
  \<open>BlockTransport\<close>, the interface's contract as a locale, its implementation by the TLS
  transport of \<open>smp/transport.go\<close>, and \<open>Dial\<close>, which puts the layers together.
\<close>

section \<open>The loop\<close>

text \<open>
  \<open>read\<close> is the transport's \<open>ReadBlock\<close>, \<open>order\<close> the iteration orders of the two maps. The loop
  runs until the transport fails; \<open>None\<close> is the loop still running when the fuel is used up.
\<close>

fun readLoop :: "('s, bytes) op \<Rightarrow> (client \<Rightarrow> corr_id list \<times> bytes list) \<Rightarrow> nat \<Rightarrow> 's \<Rightarrow> client \<Rightarrow> client outcome option" where
  "readLoop read order 0 s c = None"
| "readLoop read order (Suc n) s c =
     (case read s of
        (Inl err, s') \<Rightarrow>
          Some (obind (handleReadError err (fst (order c)) (snd (order c)) c)
                  (\<lambda>c'. Done (c'\<lparr>cl_readerDone := True\<rparr>)))
      | (Inr block, s') \<Rightarrow>
          (case handle_block block c of
             Done c' \<Rightarrow> readLoop read order n s' c'
           | r \<Rightarrow> Some r))"

definition map_orders :: "(client \<Rightarrow> corr_id list \<times> bytes list) \<Rightarrow> bool" where
  "map_orders order \<longleftrightarrow> (\<forall>c. client_inv c \<longrightarrow>
     iterates (fst (order c)) (cl_sentCmds c) \<and> iterates (snd (order c)) (cl_subs c))"

text \<open>The state after a list of blocks.\<close>

fun handled :: "bytes list \<Rightarrow> client \<Rightarrow> client" where
  "handled [] c = c"
| "handled (b # blks) c = handled blks (dispatched_all (block_txs c b) c)"

lemma handled_inv:
  "client_inv c \<Longrightarrow> client_inv (handled blks c) \<and> cl_closed (handled blks c) = cl_closed c"
proof (induction blks arbitrary: c)
  case (Cons b blks)
  then show ?case using dispatched_all_facts [OF Cons.prems, of "block_txs c b"] by simp
qed simp

section \<open>The contract of a block transport\<close>

text \<open>
  What the client relies on: the payloads that will still arrive are read in order, then every
  read fails with the error that ended the stream.
\<close>

locale block_transport =
  fixes read :: "('s, bytes) op"
    and inbox :: "'s \<Rightarrow> bytes list"
    and broken :: "'s \<Rightarrow> go_err"
  assumes read_next: "inbox s = p # ps \<Longrightarrow> \<exists>s'. read s = (Inr p, s') \<and> inbox s' = ps \<and> broken s' = broken s"
    and read_end: "inbox s = [] \<Longrightarrow> \<exists>s'. read s = (Inl (broken s), s')"
begin

lemma loop_ends:
  assumes "client_inv c" "map_orders order" "length (inbox s) < n"
  shows "readLoop read order n s c = Some (Done
    ((if cl_closed c then handled (inbox s) c
      else drained (Failed (wrapf ''smp: read: %w'' (broken s))) (handled (inbox s) c))\<lparr>cl_readerDone := True\<rparr>))"
  using assms
proof (induction n arbitrary: s c)
  case (Suc n)
  have m: "maps_ok c" using Suc.prems(1) by (simp add: client_inv_def)
  show ?case
  proof (cases "inbox s")
    case Nil
    then obtain s' where "read s = (Inl (broken s), s')" using read_end by blast
    moreover have "iterates (fst (order c)) (cl_sentCmds c)" "iterates (snd (order c)) (cl_subs c)"
      using Suc.prems(1,2) by (simp_all add: map_orders_def)
    ultimately show ?thesis using Nil by (simp add: handleReadError_eq [OF m])
  next
    case (Cons p ps)
    then obtain s' where s': "read s = (Inr p, s')" "inbox s' = ps" "broken s' = broken s"
      using read_next by blast
    let ?c' = "dispatched_all (block_txs c p) c"
    have "client_inv ?c'" "cl_closed ?c' = cl_closed c"
      using dispatched_all_facts [OF Suc.prems(1), of "block_txs c p"] by simp_all
    with Suc.IH [of ?c' s'] Suc.prems(2,3) s' Cons show ?thesis
      by (simp add: handle_block_eq [OF m])
  qed
qed simp

end

section \<open>The TLS transport meets the contract\<close>

function stream_blocks :: "bytes \<Rightarrow> bytes list" where
  "stream_blocks b =
     (if length b < 16384 \<or> 16382 < block_length b then []
      else take (block_length b) (drop 2 b) # stream_blocks (drop 16384 b))"
  by pat_completeness auto
termination by (relation "measure length") auto

function stream_error :: "go_err option \<Rightarrow> bytes \<Rightarrow> go_err" where
  "stream_error e b =
     (if length b < 16384 then (case e of None \<Rightarrow> Sentinel ErrShortBlock | Some e' \<Rightarrow> e')
      else if 16382 < block_length b then Sentinel ErrBadBlock
      else stream_error e (drop 16384 b))"
  by pat_completeness auto
termination by (relation "measure (length \<circ> snd)") auto

declare stream_blocks.simps [simp del] stream_error.simps [simp del]

definition conn_inbox :: "conn \<Rightarrow> bytes list" where
  "conn_inbox c = stream_blocks (tls_in (conn_tls c))"

definition conn_broken :: "conn \<Rightarrow> go_err" where
  "conn_broken c = stream_error (tls_end (conn_tls c)) (tls_in (conn_tls c))"

interpretation tls_blocks: block_transport "ReadBlock now ctx" conn_inbox conn_broken for now ctx
proof unfold_locales
  fix s p ps assume "conn_inbox s = p # ps"
  then have s: "\<not> length (tls_in (conn_tls s)) < 16384" "\<not> 16382 < block_length (tls_in (conn_tls s))"
    "p = take (block_length (tls_in (conn_tls s))) (drop 2 (tls_in (conn_tls s)))"
    "ps = stream_blocks (drop 16384 (tls_in (conn_tls s)))"
    by (auto simp: conn_inbox_def stream_blocks.simps [of "tls_in (conn_tls s)"] split: if_splits)
  then show "\<exists>s'. ReadBlock now ctx s = (Inr p, s') \<and> conn_inbox s' = ps \<and> conn_broken s' = conn_broken s"
    by (simp add: ReadBlock_cases conn_inbox_def conn_broken_def after_block_def
        stream_error.simps [of _ "tls_in (conn_tls s)"])
next
  fix s assume "conn_inbox s = []"
  then have "length (tls_in (conn_tls s)) < 16384 \<or> 16382 < block_length (tls_in (conn_tls s))"
    by (auto simp: conn_inbox_def stream_blocks.simps [of "tls_in (conn_tls s)"] split: if_splits)
  then show "\<exists>s'. ReadBlock now ctx s = (Inl (conn_broken s), s')"
    by (auto simp: ReadBlock_cases conn_broken_def stream_error.simps [of _ "tls_in (conn_tls s)"])
qed

lemma stream_blocks_length: "length (stream_blocks b) \<le> length b div 16384"
proof (induction b rule: stream_blocks.induct)
  case (1 b)
  show ?case
  proof (cases "length b < 16384 \<or> 16382 < block_length b")
    case True
    then show ?thesis by (auto simp: stream_blocks.simps [of b])
  next
    case False
    with 1 have "length (stream_blocks (drop 16384 b)) \<le> (length b - 16384) div 16384" by simp
    moreover have "(length b - 16384) div 16384 + 1 = length b div 16384"
      using False by (simp add: div_if [of "length b"])
    ultimately show ?thesis using False by (simp add: stream_blocks.simps [of b])
  qed
qed

text \<open>C22: The reader goroutine ends with its connection and never panics: over any finite TLS
  stream \<open>readLoop\<close> stops after at most one turn per 16384 bytes and one more, having handled
  every well-framed block in order; then the client is closed with every waiting call given
  the error that ended the stream, and \<open>readerDone\<close> is closed.\<close>

theorem readLoop_terminates:
  assumes "client_inv c" and "\<not> cl_closed c" and "map_orders order"
    and "length (tls_in (conn_tls s)) div 16384 < n"
  shows "\<exists>c'. readLoop (ReadBlock now ctx) order n s c = Some (Done c')
    \<and> c' = (drained (Failed (wrapf ''smp: read: %w'' (stream_error (tls_end (conn_tls s)) (tls_in (conn_tls s)))))
        (handled (stream_blocks (tls_in (conn_tls s))) c))\<lparr>cl_readerDone := True\<rparr>
    \<and> client_inv c' \<and> cl_closed c' \<and> cl_sentCmds c' = [] \<and> cl_subs c' = [] \<and> cl_readerDone c'"
proof -
  have n: "length (conn_inbox s) < n"
    using stream_blocks_length [of "tls_in (conn_tls s)"] assms(4) by (simp add: conn_inbox_def)
  have "client_inv ((drained r (handled blks c))\<lparr>cl_readerDone := b\<rparr>)" for r blks b
    using drained_inv by (simp add: client_inv_def)
  then show ?thesis
    using tls_blocks.loop_ends [OF assms(1,3) n, of now ctx] assms(2)
    by (simp add: conn_inbox_def conn_broken_def drained_inv) (simp add: drained_def)
qed

theorem readLoop_terminates_witness:
  "\<exists>c'. readLoop (ReadBlock 0 None) (\<lambda>c. (map fst (cl_sentCmds c), map fst (cl_subs c))) 2
      (test_conn (pad_block [1, 2])) example_client = Some (Done c') \<and> cl_closed c'"
proof -
  have "map_orders (\<lambda>c. (map fst (cl_sentCmds c), map fst (cl_subs c)))"
    by (auto simp: map_orders_def client_inv_def maps_ok_def registry_ok_def iterates_def)
  moreover have "length (tls_in (conn_tls (test_conn (pad_block [1, 2])))) div 16384 < 2"
    by (simp add: test_conn_def)
  moreover have "\<not> cl_closed example_client" by (simp add: example_client_def NewClient_def)
  ultimately show ?thesis
    using readLoop_terminates [OF example_client_inv, of "\<lambda>c. (map fst (cl_sentCmds c), map fst (cl_subs c))"
        "test_conn (pad_block [1, 2])" 2 0 None] by blast
qed

section \<open>Dial\<close>

text \<open>The second component says whether the connection is left open.\<close>

definition Dial ::
  "(bytes \<Rightarrow> bytes) \<Rightarrow> dial_env \<Rightarrow> crypto \<Rightarrow> bytes result \<Rightarrow> int \<Rightarrow> int option \<Rightarrow> string \<Rightarrow> key_hash
   \<Rightarrow> session_id \<Rightarrow> bytes option \<Rightarrow> transport_config \<Rightarrow> (conn \<times> client) result \<times> bool" where
  "Dial sha256 env cr genkey now ctx addr expected sessionID ownAuthPriv cfg =
     (case DialTLS sha256 env addr expected cfg of
        (Inl err, opened) \<Rightarrow> (Inl err, opened)
      | (Inr c, opened) \<Rightarrow>
          (case runSMPClientHandshake cr genkey now ctx expected sessionID ownAuthPriv c of
             (Inl err, c') \<Rightarrow> (Inl err, False)
           | (Inr params, c') \<Rightarrow> (Inr (c', NewClient params), opened)))"

text \<open>C23: \<open>Dial\<close> hands out a client only for the server it was asked for: a certificate of the
  chain has the expected fingerprint, the server named the expected session, the version is one
  both sides support; the client is open, empty and in its invariant, and its parameters are
  the negotiated ones. On every error the connection is closed.\<close>

theorem Dial_establishes:
  "case Dial sha256 env cr genkey now ctx addr expected sessionID ownAuthPriv cfg of
     (Inl err, opened) \<Rightarrow> \<not> opened
   | (Inr (c, cl), opened) \<Rightarrow> opened
       \<and> (\<exists>cert \<in> set (PeerCertChain c). CertFingerprint sha256 cert = expected \<or> SPKIFingerprint sha256 cert = expected)
       \<and> hp_SessID (cl_params cl) = sessionID
       \<and> MinClientVersion \<le> hp_Version (cl_params cl) \<and> hp_Version (cl_params cl) \<le> MaxClientVersion
       \<and> client_inv cl \<and> \<not> cl_closed cl \<and> cl_sentCmds cl = [] \<and> cl_subs cl = []"
proof -
  obtain r opened where d: "DialTLS sha256 env addr expected cfg = (r, opened)"
    by (cases "DialTLS sha256 env addr expected cfg")
  show ?thesis
  proof (cases r)
    case (Inl e)
    with d DialTLS_iff [of sha256 env addr expected cfg] show ?thesis by (simp add: Dial_def)
  next
    case (Inr c)
    have tls: "opened" "\<exists>cert \<in> set (PeerCertChain c). CertFingerprint sha256 cert = expected \<or> SPKIFingerprint sha256 cert = expected"
      using DialTLS_iff [of sha256 env addr expected cfg c] d Inr
      by (auto simp: PeerCertChain_def CertFingerprint_def SPKIFingerprint_def)
    obtain h c' where h: "runSMPClientHandshake cr genkey now ctx expected sessionID ownAuthPriv c = (h, c')"
      by (cases "runSMPClientHandshake cr genkey now ctx expected sessionID ownAuthPriv c")
    show ?thesis
    proof (cases h)
      case (Inl e)
      with d Inr h show ?thesis by (simp add: Dial_def)
    next
      case p: (Inr p)
      have run: "runSMPClientHandshake cr genkey now ctx expected sessionID ownAuthPriv c = (Inr p, c')"
        using h p by simp
      have "hp_SessID p = sessionID" "MinClientVersion \<le> hp_Version p" "hp_Version p \<le> MaxClientVersion"
        using handshake_Inr [OF run] by (auto simp: common_versions_def) (metis handshake_params.select_convs(2))+
      moreover have "PeerCertChain c' = PeerCertChain c" using handshake_chain [OF run] .
      ultimately show ?thesis
        using d Inr h p tls NewClient_inv [of p] by (simp add: Dial_def) (simp add: NewClient_def)
    qed
  qed
qed

section \<open>Close\<close>

text \<open>
  \<open>Close\<close> as a whole, called while the reader stands at its next read: the critical section, the
  transport, and the reader's remaining run, which the join waits for. The first \<open>None\<close> is the
  nil receiver; the result \<open>None\<close> says that the fuel of the reader's run was used up.
\<close>

definition Client_Close ::
  "corr_id list \<Rightarrow> bytes list \<Rightarrow> nat \<Rightarrow> unit result \<Rightarrow> ((conn, bytes) op) \<Rightarrow> (client \<Rightarrow> corr_id list \<times> bytes list)
   \<Rightarrow> nat \<Rightarrow> (conn \<times> client) option \<Rightarrow> (unit result \<times> client option) outcome option" where
  "Client_Close cids keys k r read order n cl =
     (case cl of
        None \<Rightarrow> Some (Done (Inr (), None))
      | Some (s, c) \<Rightarrow>
          (case Close_locked cids keys c of
             Panics m \<Rightarrow> Some (Panics m)
           | Blocks \<Rightarrow> Some Blocks
           | Done (first, c1) \<Rightarrow>
               if \<not> first then Some (Done (Inr (), Some c1))
               else
                 (case Conn_Close k r (Some s) of
                    (err, None) \<Rightarrow> Some Blocks
                  | (err, Some s1) \<Rightarrow>
                      map_option (\<lambda>res. obind res (\<lambda>c2.
                          if cl_readerDone c2 then Done (err, Some c2) else Blocks))
                        (readLoop read order n s1 c1))))"

lemma dispatched_all_empty: "cl_sentCmds c = [] \<Longrightarrow> cl_subs c = [] \<Longrightarrow> dispatched_all txs c = c"
  by (induction txs) (simp_all add: dispatched_def split: option.split)

lemma handled_empty: "cl_sentCmds c = [] \<Longrightarrow> cl_subs c = [] \<Longrightarrow> handled blks c = c"
  by (induction blks) (simp_all add: dispatched_all_empty)

text \<open>C36: \<open>Close\<close> returns: with the reader at its next read and whatever the TLS session still
  holds, the call comes back with the transport's own result after at most one turn of the
  reader per 16384 bytes received and one more, every waiting call has \<open>ErrClientClosed\<close>, every
  subscriber's channel is closed, the blocks that were still in flight change nothing, and the
  reader is gone; a second \<open>Close\<close> and a nil client return without an error at once.\<close>

theorem Close_returns:
  assumes "client_inv c" "iterates cids (cl_sentCmds c)" "iterates keys (cl_subs c)" "map_orders order"
    and "length (tls_in (conn_tls s)) div 16384 < n"
  shows "Client_Close cids keys k r (ReadBlock now ctx) order n (Some (s, c)) =
      Some (Done (if cl_closed c then (Inr (), Some c)
        else (r, Some ((drained (Failed (Sentinel ErrClientClosed)) c)\<lparr>cl_readerDone := True\<rparr>))))
    \<and> Client_Close cids keys k r (ReadBlock now ctx) order n None = Some (Done (Inr (), None))"
proof -
  have m: "maps_ok c" using assms(1) by (simp add: client_inv_def)
  let ?d = "drained (Failed (Sentinel ErrClientClosed)) c"
  obtain s1 where s1: "Conn_Close k r (Some s) = (r, Some s1)" "tls_in (conn_tls s1) = take k (tls_in (conn_tls s))"
    by (simp add: Conn_Close_def tls_Close_def)
  have "length (conn_inbox s1) \<le> length (take k (tls_in (conn_tls s))) div 16384"
    using stream_blocks_length [of "tls_in (conn_tls s1)"] by (simp add: conn_inbox_def s1(2))
  also have "\<dots> \<le> length (tls_in (conn_tls s)) div 16384" by (intro div_le_mono) simp
  finally have "length (conn_inbox s1) < n" using assms(5) by linarith
  from tls_blocks.loop_ends [OF drained_inv(2) assms(4) this]
  have "readLoop (ReadBlock now ctx) order n s1 ?d = Some (Done (?d\<lparr>cl_readerDone := True\<rparr>))"
    by (simp add: drained_inv(3) handled_empty drained_def)
  then show ?thesis
    by (simp add: Client_Close_def Close_locked_eq [OF m assms(2,3)] s1(1))
qed

theorem Close_returns_witness:
  "\<exists>c'. Client_Close [example_cid] [[5]] 7 (Inr ()) (ReadBlock 0 None)
      (\<lambda>c. (map fst (cl_sentCmds c), map fst (cl_subs c))) 2 (Some (test_conn (pad_block [1, 2]), example_client))
    = Some (Done (Inr (), Some c')) \<and> cl_readerDone c' \<and> cl_results c' = [answered (Failed (Sentinel ErrClientClosed))]"
proof -
  have "map_orders (\<lambda>c. (map fst (cl_sentCmds c), map fst (cl_subs c)))"
    by (auto simp: map_orders_def client_inv_def maps_ok_def registry_ok_def iterates_def)
  moreover have "length (tls_in (conn_tls (test_conn (pad_block [1, 2])))) div 16384 < 2"
    by (simp add: test_conn_def)
  moreover have "iterates [example_cid] (cl_sentCmds example_client)" "iterates [[5]] (cl_subs example_client)"
    "\<not> cl_closed example_client"
    by (simp_all add: iterates_def example_client_def NewClient_def)
  moreover have "cl_results (drained (Failed (Sentinel ErrClientClosed)) example_client)
      = [answered (Failed (Sentinel ErrClientClosed))]"
    by (simp add: drained_def example_client_def NewClient_def mark_def)
  ultimately show ?thesis
    using Close_returns [OF example_client_inv, of "[example_cid]" "[[5]]"
        "\<lambda>c. (map fst (cl_sentCmds c), map fst (cl_subs c))" "test_conn (pad_block [1, 2])" 2 7 "Inr ()" 0 None]
    by auto
qed

end
