(* ===== verification/Go_Strings.thy ===== *)
theory Go_Strings
  imports Prelude "HOL-Library.AList" "HOL-Library.Char_ord" "HOL-Library.List_Lexorder"
begin

text \<open>
  The parts of Go's \<open>strings\<close>, \<open>strconv\<close>, \<open>encoding/base64\<close> and \<open>net/url\<close> that
  \<open>smp/queue_uri.go\<close> and the \<open>kozi\<close> command use, on strings of one-byte characters, with the
  inverse laws the codecs rest on.
\<close>

section \<open>Searching and cutting\<close>

definition LastIndexByte :: "'a list \<Rightarrow> 'a \<Rightarrow> int" where
  "LastIndexByte xs c = (let i = IndexByte (rev xs) c in if i = -1 then -1 else int (length xs) - 1 - i)"

lemma LastIndexByte_absent [simp]: "LastIndexByte xs c = -1 \<longleftrightarrow> c \<notin> set xs"
proof (cases "c \<in> set xs")
  case True
  then have "IndexByte (rev xs) c \<noteq> -1" by simp
  from IndexByte_split [OF refl this] True show ?thesis by (simp add: LastIndexByte_def Let_def)
qed (simp add: LastIndexByte_def)

lemma LastIndexByte_last [simp]: "c \<notin> set ys \<Longrightarrow> LastIndexByte (xs @ c # ys) c = int (length xs)"
proof -
  assume "c \<notin> set ys"
  then have "IndexByte (rev ys @ c # rev xs) c = int (length (rev ys))" by (intro IndexByte_first) simp
  then show ?thesis by (simp add: LastIndexByte_def Let_def)
qed

definition TrimPrefix :: "'a list \<Rightarrow> 'a list \<Rightarrow> 'a list" where
  "TrimPrefix s p = (if HasPrefix s p then drop (length p) s else s)"

definition TrimSuffix :: "'a list \<Rightarrow> 'a list \<Rightarrow> 'a list" where
  "TrimSuffix s p = (if HasPrefix (rev s) (rev p) then take (length s - length p) s else s)"

text \<open>\<open>strings.Cut\<close> at a one-byte separator, without the flag.\<close>

definition Cut :: "'a list \<Rightarrow> 'a \<Rightarrow> 'a list \<times> 'a list" where
  "Cut s c = (let i = IndexByte s c in if i = -1 then (s, []) else (take (nat i) s, drop (nat i + 1) s))"

lemma Cut_present [simp]: "c \<notin> set xs \<Longrightarrow> Cut (xs @ c # ys) c = (xs, ys)"
  by (simp add: Cut_def Let_def)

lemma Cut_absent [simp]: "c \<notin> set xs \<Longrightarrow> Cut xs c = (xs, [])"
  by (simp add: Cut_def Let_def)

lemma Cut_shorter: "s \<noteq> [] \<Longrightarrow> length (snd (Cut s c)) < length s"
  by (auto simp: Cut_def Let_def)

section \<open>Decimal numbers\<close>

definition digit_char :: "nat \<Rightarrow> char" where
  "digit_char d = char_of (48 + d)"

definition digit_val :: "char \<Rightarrow> nat option" where
  "digit_val c = (let n = of_char c :: nat in if 48 \<le> n \<and> n \<le> 57 then Some (n - 48) else None)"

text \<open>The verb \<open>%d\<close> on an unsigned number.\<close>

fun decimal :: "nat \<Rightarrow> string" where
  "decimal n = (if n < 10 then [digit_char n] else decimal (n div 10) @ [digit_char (n mod 10)])"

declare decimal.simps [simp del]

definition ErrSyntax :: "string \<Rightarrow> go_err" where
  "ErrSyntax s = Errorf ''strconv.ParseUint: parsing %q: invalid syntax'' [AStr s]"

definition ErrRange :: "string \<Rightarrow> go_err" where
  "ErrRange s = Errorf ''strconv.ParseUint: parsing %q: value out of range'' [AStr s]"

fun ParseUint_loop :: "string \<Rightarrow> nat \<Rightarrow> string \<Rightarrow> nat result" where
  "ParseUint_loop s n [] = Inr n"
| "ParseUint_loop s n (c # cs) =
     (case digit_val c of
        None \<Rightarrow> Inl (ErrSyntax s)
      | Some d \<Rightarrow> (let n' = n * 10 + d in
          if n' > 65535 then Inl (ErrRange s) else ParseUint_loop s n' cs))"

text \<open>\<open>strconv.ParseUint(s, 10, 16)\<close>.\<close>

definition ParseUint16 :: "string \<Rightarrow> nat result" where
  "ParseUint16 s = (if s = '''' then Inl (ErrSyntax s) else ParseUint_loop s 0 s)"

lemma digit_val_char [simp]: "d < 10 \<Longrightarrow> digit_val (digit_char d) = Some d"
  by (simp add: digit_val_def digit_char_def Let_def)

lemma digit_val_less: "digit_val c = Some d \<Longrightarrow> d < 10 \<and> c = digit_char d"
  by (auto simp: digit_val_def digit_char_def Let_def split: if_splits)

lemma decimal_not_Nil [simp]: "decimal n \<noteq> ''''"
  by (subst decimal.simps) simp

lemma ParseUint_loop_append:
  "ParseUint_loop s n (xs @ ys) = rbind (ParseUint_loop s n xs) (\<lambda>m. ParseUint_loop s m ys)"
  by (induction s n xs rule: ParseUint_loop.induct) (auto simp: Let_def split: option.split)

lemma ParseUint_loop_decimal: "n \<le> 65535 \<Longrightarrow> ParseUint_loop s 0 (decimal n) = Inr n"
proof (induction n rule: decimal.induct)
  case (1 n)
  show ?case
  proof (cases "n < 10")
    case True
    then show ?thesis using 1(2) by (simp add: decimal.simps [of n])
  next
    case False
    have "decimal n = decimal (n div 10) @ [digit_char (n mod 10)]"
      using False by (subst decimal.simps) simp
    then show ?thesis
      using 1 False by (simp add: ParseUint_loop_append)
  qed
qed

lemma ParseUint16_decimal [simp]: "n \<le> 65535 \<Longrightarrow> ParseUint16 (decimal n) = Inr n"
  by (simp add: ParseUint16_def ParseUint_loop_decimal)

lemma ParseUint_loop_bound: "ParseUint_loop s n xs = Inr m \<Longrightarrow> n \<le> 65535 \<Longrightarrow> m \<le> 65535"
  by (induction s n xs rule: ParseUint_loop.induct) (auto simp: Let_def split: option.splits if_splits)

lemma ParseUint16_bound: "ParseUint16 s = Inr m \<Longrightarrow> m \<le> 65535"
  using ParseUint_loop_bound [of s 0 s m] by (simp add: ParseUint16_def split: if_splits)

lemma digit_char_in: "d < 10 \<Longrightarrow> digit_char d \<in> set ''0123456789''"
proof -
  have "\<forall>d \<in> set [0..<10]. digit_char d \<in> set ''0123456789''" by code_simp
  then show "d < 10 \<Longrightarrow> digit_char d \<in> set ''0123456789''" by auto
qed

lemma decimal_digits: "set (decimal n) \<subseteq> set ''0123456789''"
proof (induction n rule: decimal.induct)
  case (1 n)
  then show ?case
    using digit_char_in [of n] digit_char_in [of "n mod 10"] decimal.simps [of n] by (auto split: if_splits)
qed

text \<open>The number a sequence of digits stands for.\<close>

definition dec_val :: "string \<Rightarrow> nat" where
  "dec_val s = foldl (\<lambda>n c. n * 10 + (case digit_val c of Some d \<Rightarrow> d | None \<Rightarrow> 0)) 0 s"

lemma dec_val_decimal: "dec_val (decimal n) = n"
proof (induction n rule: decimal.induct)
  case (1 n)
  show ?case
  proof (cases "n < 10")
    case True
    then show ?thesis by (simp add: decimal.simps [of n] dec_val_def)
  next
    case False
    have "decimal n = decimal (n div 10) @ [digit_char (n mod 10)]"
      using False by (subst decimal.simps) simp
    with 1 False show ?thesis by (simp add: dec_val_def)
  qed
qed

section \<open>Base64, URL alphabet, no padding\<close>

definition b64_alphabet :: string where
  "b64_alphabet = ''ABCDEFGHIJKLMNOPQRSTUVWXYZabcdefghijklmnopqrstuvwxyz0123456789-_''"

definition b64_char :: "6 word \<Rightarrow> char" where
  "b64_char d = b64_alphabet ! unat d"

text \<open>\<open>EncodeToString\<close>: three bytes make four characters, one or two left over make two or
  three.\<close>

fun b64_encode_digits :: "bytes \<Rightarrow> 6 word list" where
  "b64_encode_digits (x # y # z # rest) =
     ucast (drop_bit 2 x) # (ucast (push_bit 4 x) OR ucast (drop_bit 4 y))
       # (ucast (push_bit 2 y) OR ucast (drop_bit 6 z)) # ucast z # b64_encode_digits rest"
| "b64_encode_digits [x, y] =
     [ucast (drop_bit 2 x), (ucast (push_bit 4 x) OR ucast (drop_bit 4 y)), ucast (push_bit 2 y)]"
| "b64_encode_digits [x] = [ucast (drop_bit 2 x), ucast (push_bit 4 x)]"
| "b64_encode_digits [] = []"

definition b64_encode :: "bytes \<Rightarrow> string" where
  "b64_encode b = map b64_char (b64_encode_digits b)"

text \<open>
  \<open>DecodeString\<close>: line breaks are skipped, any other character outside the alphabet is an
  error at its position, and so is a single character left over; the spare bits of the last
  character are not looked at.
\<close>

definition CorruptInputError :: "int \<Rightarrow> go_err" where
  "CorruptInputError i = Errorf ''illegal base64 data at input byte %d'' [AInt i]"

fun b64_digits :: "int \<Rightarrow> string \<Rightarrow> 6 word list result" where
  "b64_digits i [] = Inr []"
| "b64_digits i (c # cs) =
     (if c = CHR 0x0A \<or> c = CHR 0x0D then b64_digits (i + 1) cs
      else if IndexByte b64_alphabet c = -1 then Inl (CorruptInputError i)
      else rbind (b64_digits (i + 1) cs) (\<lambda>ds. Inr (of_int (IndexByte b64_alphabet c) # ds)))"

fun b64_join :: "6 word list \<Rightarrow> bytes option" where
  "b64_join (a # b # c # d # ds) =
     map_option (\<lambda>rest.
       (push_bit 2 (ucast a) OR ucast (drop_bit 4 b)) # (push_bit 4 (ucast b) OR ucast (drop_bit 2 c))
         # (push_bit 6 (ucast c) OR ucast d) # rest) (b64_join ds)"
| "b64_join [a, b, c] =
     Some [(push_bit 2 (ucast a) OR ucast (drop_bit 4 b)), (push_bit 4 (ucast b) OR ucast (drop_bit 2 c))]"
| "b64_join [a, b] = Some [push_bit 2 (ucast a) OR ucast (drop_bit 4 b)]"
| "b64_join [a] = None"
| "b64_join [] = Some []"

definition b64_decode :: "string \<Rightarrow> bytes result" where
  "b64_decode s =
     rbind (b64_digits 0 s) (\<lambda>ds.
       case b64_join ds of None \<Rightarrow> Inl (CorruptInputError (int (length s) - 1)) | Some b \<Rightarrow> Inr b)"

lemma IndexByte_nth: "distinct xs \<Longrightarrow> i < length xs \<Longrightarrow> IndexByte xs (xs ! i) = int i"
proof (induction xs arbitrary: i)
  case (Cons x xs)
  show ?case
  proof (cases i)
    case (Suc j)
    with Cons have "x \<noteq> xs ! j" "IndexByte xs (xs ! j) = int j" by auto
    with Suc show ?thesis by simp
  qed simp
qed simp

lemma b64_alphabet_facts:
  "distinct b64_alphabet" "length b64_alphabet = 64"
  "CHR 0x0A \<notin> set b64_alphabet" "CHR 0x0D \<notin> set b64_alphabet"
  by code_simp+

lemma unat_6_less: "unat (d :: 6 word) < 64"
  using unsigned_less [of d, where ?'a = nat] by simp

lemma b64_char_in: "b64_char d \<in> set b64_alphabet"
  using unat_6_less [of d] by (simp add: b64_char_def b64_alphabet_facts)

lemma IndexByte_b64_char [simp]: "IndexByte b64_alphabet (b64_char d) = int (unat d)"
  unfolding b64_char_def using unat_6_less [of d]
  by (intro IndexByte_nth) (simp_all add: b64_alphabet_facts)

lemma b64_digits_chars: "b64_digits i (map b64_char ds) = Inr ds"
proof (induction ds arbitrary: i)
  case (Cons d ds)
  have "b64_char d \<noteq> CHR 0x0A" "b64_char d \<noteq> CHR 0x0D"
    using b64_char_in [of d] b64_alphabet_facts(3,4) by metis+
  moreover have "uint d \<noteq> - 1" using unsigned_greater_eq [of d, where ?'a = int] by linarith
  ultimately show ?case using Cons by simp
qed simp

text \<open>The bit arithmetic of one group: each byte is put together again from its two digits.\<close>

lemma nat_less_8: "n < 8 \<longleftrightarrow> n \<in> {0, 1, 2, 3, 4, 5, 6, 7 :: nat}"
  by auto

lemma byte_high_bit: "bit (b :: byte) (Suc (Suc (Suc (Suc (Suc (Suc (Suc (Suc n)))))))) = False"
  using bit_imp_le_length [of b "Suc (Suc (Suc (Suc (Suc (Suc (Suc (Suc n)))))))"] by auto

lemma b64_group_1 [simp]:
  "push_bit 2 (ucast (ucast (drop_bit 2 x) :: 6 word)) OR
     ucast (drop_bit 4 (ucast (push_bit 4 x) OR ucast (drop_bit 4 y) :: 6 word)) = (x :: byte)"
  for y :: byte
  by (rule bit_word_eqI, simp add: bit_simps nat_less_8, elim disjE; simp add: byte_high_bit eval_nat_numeral)

lemma b64_group_2 [simp]:
  "push_bit 4 (ucast (ucast (push_bit 4 x) OR ucast (drop_bit 4 y) :: 6 word)) OR
     ucast (drop_bit 2 (ucast (push_bit 2 y) OR ucast (drop_bit 6 z) :: 6 word)) = (y :: byte)"
  for x z :: byte
  by (rule bit_word_eqI, simp add: bit_simps nat_less_8, elim disjE; simp add: byte_high_bit eval_nat_numeral)

lemma b64_group_3 [simp]:
  "push_bit 6 (ucast (ucast (push_bit 2 y) OR ucast (drop_bit 6 z) :: 6 word)) OR
     ucast (ucast z :: 6 word) = (z :: byte)"
  for y :: byte
  by (rule bit_word_eqI, simp add: bit_simps nat_less_8, elim disjE; simp add: byte_high_bit eval_nat_numeral)

lemma b64_group_short [simp]:
  "push_bit 2 (ucast (ucast (drop_bit 2 x) :: 6 word)) OR
     ucast (drop_bit 4 (ucast (push_bit 4 x) :: 6 word)) = (x :: byte)"
  "push_bit 4 (ucast (ucast (push_bit 4 w) OR ucast (drop_bit 4 y) :: 6 word)) OR
     ucast (drop_bit 2 (ucast (push_bit 2 y) :: 6 word)) = (y :: byte)"
  for w :: byte
  using b64_group_1 [of x 0] b64_group_2 [of w y 0] by simp_all

lemma b64_join_digits [simp]: "b64_join (b64_encode_digits b) = Some b"
  by (induction b rule: b64_encode_digits.induct) (simp_all del: drop_bit_or)

lemma b64_decode_encode [simp]: "b64_decode (b64_encode b) = Inr b"
  by (simp add: b64_decode_def b64_encode_def b64_digits_chars)

lemma b64_encode_chars: "set (b64_encode b) \<subseteq> set b64_alphabet"
  by (auto simp: b64_encode_def b64_char_in)

lemma b64_encode_eq_Nil [simp]: "b64_encode b = [] \<longleftrightarrow> b = []"
  by (cases b rule: b64_encode_digits.cases) (auto simp: b64_encode_def)

lemma b64_encode_clean:
  "c \<notin> set b64_alphabet \<Longrightarrow> c \<notin> set (b64_encode b)"
  using b64_encode_chars by blast

section \<open>Query strings\<close>

definition unhex :: "char \<Rightarrow> nat option" where
  "unhex c = (let n = of_char c :: nat in
     if 48 \<le> n \<and> n \<le> 57 then Some (n - 48)
     else if 97 \<le> n \<and> n \<le> 102 then Some (n - 97 + 10)
     else if 65 \<le> n \<and> n \<le> 70 then Some (n - 65 + 10)
     else None)"

definition hex_char :: "nat \<Rightarrow> char" where
  "hex_char d = ''0123456789ABCDEF'' ! d"

definition EscapeError :: "string \<Rightarrow> go_err" where
  "EscapeError s = Errorf ''invalid URL escape %q'' [AStr s]"

fun QueryUnescape :: "string \<Rightarrow> string result" where
  "QueryUnescape [] = Inr []"
| "QueryUnescape (c # cs) =
     (if c = CHR ''%'' then
        (case cs of
           a # b # rest \<Rightarrow>
             (case (unhex a, unhex b) of
                (Some x, Some y) \<Rightarrow> rbind (QueryUnescape rest) (\<lambda>r. Inr (char_of (16 * x + y) # r))
              | _ \<Rightarrow> Inl (EscapeError (take 3 (c # cs))))
         | _ \<Rightarrow> Inl (EscapeError (take 3 (c # cs))))
      else rbind (QueryUnescape cs) (\<lambda>r. Inr ((if c = CHR ''+'' then CHR '' '' else c) # r)))"

definition unreserved :: string where
  "unreserved = ''ABCDEFGHIJKLMNOPQRSTUVWXYZabcdefghijklmnopqrstuvwxyz0123456789-_.~''"

definition escape_char :: "char \<Rightarrow> string" where
  "escape_char c =
     (if c \<in> set unreserved then [c]
      else if c = CHR '' '' then ''+''
      else [CHR ''%'', hex_char (of_char c div 16), hex_char (of_char c mod 16)])"

definition QueryEscape :: "string \<Rightarrow> string" where
  "QueryEscape s = concat (map escape_char s)"

lemma unhex_hex_char [simp]: "d < 16 \<Longrightarrow> unhex (hex_char d) = Some d"
proof -
  have "\<forall>d \<in> set [0..<16]. unhex (hex_char d) = Some d" by code_simp
  then show "d < 16 \<Longrightarrow> unhex (hex_char d) = Some d" by simp
qed

lemma hex_char_in: "d < 16 \<Longrightarrow> hex_char d \<in> set unreserved"
proof -
  have "\<forall>d \<in> set [0..<16]. hex_char d \<in> set unreserved" by code_simp
  then show "d < 16 \<Longrightarrow> hex_char d \<in> set unreserved" by simp
qed

lemma unreserved_facts: "CHR ''%'' \<notin> set unreserved" "CHR ''+'' \<notin> set unreserved"
  by code_simp+

lemma char_halves: "char_of (16 * (of_char c div 16) + of_char c mod 16 :: nat) = c"
  by (simp only: mult_div_mod_eq char_of_char)

lemma char_div_16 [simp]: "of_char c div 16 < (16 :: nat)"
  using nat_of_char_less_256 [of c] by linarith

lemma QueryUnescape_escape_char:
  "QueryUnescape (escape_char c @ s) = rbind (QueryUnescape s) (\<lambda>r. Inr (c # r))"
proof -
  have "c \<noteq> CHR ''%'' \<and> c \<noteq> CHR ''+''" if "c \<in> set unreserved"
    using that unreserved_facts by metis
  then show ?thesis
    by (auto simp: escape_char_def char_halves simp del: of_char_mod_256)
qed

lemma QueryUnescape_append_escape:
  "QueryUnescape (QueryEscape s @ t) = rbind (QueryUnescape t) (\<lambda>r. Inr (s @ r))"
proof (induction s)
  case Nil
  then show ?case by (cases "QueryUnescape t") (simp_all add: QueryEscape_def)
next
  case (Cons c s)
  then show ?case
    by (cases "QueryUnescape t") (simp_all add: QueryEscape_def QueryUnescape_escape_char)
qed

lemma QueryUnescape_escape [simp]: "QueryUnescape (QueryEscape s) = Inr s"
  using QueryUnescape_append_escape [of s "[]"] by simp

lemma QueryEscape_unreserved: "set s \<subseteq> set unreserved \<Longrightarrow> QueryEscape s = s"
  by (induction s) (auto simp: QueryEscape_def escape_char_def)

lemma QueryEscape_chars: "set (QueryEscape s) \<subseteq> insert (CHR ''%'') (insert (CHR ''+'') (set unreserved))"
proof -
  have "set (escape_char c) \<subseteq> insert (CHR ''%'') (insert (CHR ''+'') (set unreserved))" for c
    by (auto simp: escape_char_def intro!: hex_char_in)
  then show ?thesis by (auto simp: QueryEscape_def)
qed

lemma QueryEscape_clean:
  "c \<notin> set unreserved \<Longrightarrow> c \<noteq> CHR ''%'' \<Longrightarrow> c \<noteq> CHR ''+'' \<Longrightarrow> c \<notin> set (QueryEscape s)"
  using QueryEscape_chars [of s] by blast

text \<open>
  \<open>url.Values\<close>: from keys to the list of their values, each key once.
\<close>

type_synonym url_values = "(string \<times> string list) list"

definition values_get :: "url_values \<Rightarrow> string \<Rightarrow> string" where
  "values_get m k = (case map_of m k of None \<Rightarrow> [] | Some vs \<Rightarrow> (case vs of [] \<Rightarrow> [] | v # _ \<Rightarrow> v))"

definition values_set :: "url_values \<Rightarrow> string \<Rightarrow> string \<Rightarrow> url_values" where
  "values_set m k v = AList.update k [v] m"

definition values_add :: "url_values \<Rightarrow> string \<Rightarrow> string \<Rightarrow> url_values" where
  "values_add m k v =
     AList.update k ((case map_of m k of None \<Rightarrow> [] | Some vs \<Rightarrow> vs) @ [v]) m"

text \<open>\<open>Values.Encode\<close>: the keys in order, every value as \<open>key=value\<close>, joined by \<open>&\<close>.\<close>

definition encode_pair :: "string \<times> string \<Rightarrow> string" where
  "encode_pair p = QueryEscape (fst p) @ ''='' @ QueryEscape (snd p)"

fun join_amp :: "string list \<Rightarrow> string" where
  "join_amp [] = []"
| "join_amp [x] = x"
| "join_amp (x # xs) = x @ ''&'' @ join_amp xs"

definition values_pairs :: "url_values \<Rightarrow> (string \<times> string) list" where
  "values_pairs m =
     concat (map (\<lambda>k. map (Pair k) (case map_of m k of None \<Rightarrow> [] | Some vs \<Rightarrow> vs)) (sort (map fst m)))"

definition values_Encode :: "url_values \<Rightarrow> string" where
  "values_Encode m = join_amp (map encode_pair (values_pairs m))"

text \<open>\<open>url.ParseQuery\<close>: goes on after an error, returns the values read and an error.\<close>

definition first_error :: "go_err option \<Rightarrow> go_err \<Rightarrow> go_err option" where
  "first_error err e = (case err of None \<Rightarrow> Some e | Some e' \<Rightarrow> Some e')"

function parse_query :: "url_values \<Rightarrow> go_err option \<Rightarrow> string \<Rightarrow> url_values \<times> go_err option" where
  "parse_query m err query =
     (if query = [] then (m, err)
      else
        let item = fst (Cut query (CHR ''&'')); rest = snd (Cut query (CHR ''&'')) in
        if CHR '';'' \<in> set item then
          parse_query m (Some (ErrNew ''invalid semicolon separator in query'')) rest
        else if item = [] then parse_query m err rest
        else
          (case QueryUnescape (fst (Cut item (CHR ''=''))) of
             Inl e \<Rightarrow> parse_query m (first_error err e) rest
           | Inr k \<Rightarrow>
               (case QueryUnescape (snd (Cut item (CHR ''=''))) of
                  Inl e \<Rightarrow> parse_query m (first_error err e) rest
                | Inr v \<Rightarrow> parse_query (values_add m k v) err rest)))"
  by pat_completeness auto
termination
  by (relation "measure (\<lambda>(m, err, query). length query)") (auto simp: Cut_shorter)

declare parse_query.simps [simp del]

definition ParseQuery :: "string \<Rightarrow> url_values result" where
  "ParseQuery s = (case parse_query [] None s of (m, None) \<Rightarrow> Inr m | (m, Some e) \<Rightarrow> Inl e)"

lemma parse_query_Nil [simp]: "parse_query m err [] = (m, err)"
  by (subst parse_query.simps) simp

lemma encode_pair_clean: "CHR ''&'' \<notin> set (encode_pair p)" "CHR '';'' \<notin> set (encode_pair p)"
proof -
  have "CHR ''&'' \<notin> set unreserved" "CHR '';'' \<notin> set unreserved" by code_simp+
  then show "CHR ''&'' \<notin> set (encode_pair p)" "CHR '';'' \<notin> set (encode_pair p)"
    by (simp_all add: encode_pair_def QueryEscape_clean)
qed

lemma parse_query_pair:
  assumes "Cut query (CHR ''&'') = (encode_pair (k, v), rest)" "query \<noteq> []"
  shows "parse_query m err query = parse_query (values_add m k v) err rest"
proof -
  have "CHR ''='' \<notin> set unreserved" by code_simp
  then have "Cut (QueryEscape k @ CHR ''='' # QueryEscape v) (CHR ''='') = (QueryEscape k, QueryEscape v)"
    by (intro Cut_present QueryEscape_clean) simp_all
  then have "Cut (encode_pair (k, v)) (CHR ''='') = (QueryEscape k, QueryEscape v)"
    by (simp add: encode_pair_def)
  moreover have "encode_pair (k, v) \<noteq> []" by (simp add: encode_pair_def)
  ultimately show ?thesis
    using assms encode_pair_clean [of "(k, v)"] by (subst parse_query.simps) simp
qed

lemma parse_query_join:
  "parse_query m err (join_amp (map encode_pair ps)) = (fold (\<lambda>(k, v) m. values_add m k v) ps m, err)"
proof (induction ps arbitrary: m)
  case (Cons p ps)
  obtain k v where p: "p = (k, v)" by (cases p)
  have ne: "encode_pair p \<noteq> []" by (simp add: encode_pair_def)
  show ?case
  proof (cases ps)
    case Nil
    have "Cut (encode_pair p) (CHR ''&'') = (encode_pair p, [])"
      by (simp add: encode_pair_clean)
    then show ?thesis using parse_query_pair [of "encode_pair p" k v "[]"] ne Nil p by simp
  next
    case (Cons q qs)
    let ?rest = "join_amp (map encode_pair ps)"
    have "Cut (encode_pair p @ CHR ''&'' # ?rest) (CHR ''&'') = (encode_pair p, ?rest)"
      by (simp add: encode_pair_clean)
    then have "parse_query m err (encode_pair p @ CHR ''&'' # ?rest) = parse_query (values_add m k v) err ?rest"
      by (intro parse_query_pair) (simp_all add: p)
    then show ?thesis using Cons.IH Cons p by simp
  qed
qed simp

end
