(* ===== verification/Queue_URI.thy ===== *)
theory Queue_URI
  imports Transport Auth Go_Strings
begin

text \<open>
  The out-of-band queue address of \<open>smp/queue_uri.go\<close>: its parser, its printer, when printing
  and parsing again gives the address back, and what every address the parser accepts is like.
\<close>

section \<open>The address and its parser\<close>

record SMPQueueURI =
  qu_ServerFingerprint :: key_hash
  qu_Host :: string
  qu_Port :: "16 word"
  qu_SenderID :: bytes
  qu_ClientVRange :: version_range
  qu_DHPubKey :: bytes

definition firstN :: "string \<Rightarrow> nat \<Rightarrow> string" where
  "firstN s n = (if length s \<le> n then s else take n s)"

text \<open>An error of the parser: \<open>fmt.Errorf("%w: ...", ErrBadQueueURI, ...)\<close>.\<close>

definition bad_uri :: "string \<Rightarrow> fmt_arg list \<Rightarrow> go_err" where
  "bad_uri f args = Errorf f (AWrap (Sentinel ErrBadQueueURI) # args)"

definition parsePortSuffix :: "string \<Rightarrow> 16 word result" where
  "parsePortSuffix s =
     (if s = [] then Inr 5223
      else if \<not> HasPrefix s '':''
      then Inl (Errorf ''expected ':' before port, got %q'' [AStr (firstN s 8)])
      else rbind (rwrap ''parse port: %w'' (ParseUint16 (drop 1 s))) (\<lambda>port. Inr (of_nat port)))"

definition parseHostPort :: "string \<Rightarrow> (string \<times> 16 word) result" where
  "parseHostPort s =
     (if HasPrefix s ''['' then
        (let stop = IndexByte s (CHR '']'') in
         if stop = -1 then Inl (ErrNew (''malformed IPv6 host: missing ']'' @ [CHR 0x27]))
         else rbind (parsePortSuffix (drop (nat (stop + 1)) s)) (\<lambda>port.
              Inr (drop 1 (take (nat stop) s), port)))
      else
        (let colon = LastIndexByte s (CHR '':'') in
         if colon = -1 then Inr (s, 5223)
         else rbind (rwrap ''parse port: %w'' (ParseUint16 (drop (nat (colon + 1)) s))) (\<lambda>port.
              Inr (take (nat colon) s, of_nat port))))"

definition parseVersionRange :: "string \<Rightarrow> version_range result" where
  "parseVersionRange s =
     (let dash = IndexByte s (CHR ''-'') in
      if dash = -1 then
        (case ParseUint16 s of
           Inl e \<Rightarrow> Inl (Errorf ''parse version %q: %w'' [AStr s, AWrap e])
         | Inr v \<Rightarrow> Inr \<lparr>vr_Min = of_nat v, vr_Max = of_nat v\<rparr>)
      else
        rbind (rwrap ''parse vrange min: %w'' (ParseUint16 (take (nat dash) s))) (\<lambda>minV.
        rbind (rwrap ''parse vrange max: %w'' (ParseUint16 (drop (nat (dash + 1)) s))) (\<lambda>maxV.
        if minV > maxV
        then Inl (Errorf ''vrange min %d > max %d'' [AInt (int minV), AInt (int maxV)])
        else Inr \<lparr>vr_Min = of_nat minV, vr_Max = of_nat maxV\<rparr>)))"

text \<open>
  The error branch of one step of the parser: \<open>f\<close> is the format, the error is printed into it.
\<close>

definition or_bad :: "string \<Rightarrow> 'a result \<Rightarrow> 'a result" where
  "or_bad f r = (case r of Inl e \<Rightarrow> Inl (bad_uri f [AVal e]) | Inr x \<Rightarrow> Inr x)"

text \<open>The query of the fragment, lines 104 to 128.\<close>

definition parse_fragment :: "string \<Rightarrow> (version_range \<times> bytes) result" where
  "parse_fragment frag =
     rbind (or_bad ''%w: parse fragment query: %v'' (ParseQuery frag)) (\<lambda>q.
     let vrStr = values_get q ''v'' in
     if vrStr = [] then Inl (bad_uri ''%w: missing 'v' query param (version range)'' [])
     else rbind (or_bad ''%w: %v'' (parseVersionRange vrStr)) (\<lambda>vr.
     let dhStr = values_get q ''dh'' in
     if dhStr = [] then Inl (bad_uri ''%w: missing 'dh' query param'' [])
     else rbind (or_bad ''%w: decode dh: %v'' (b64_decode dhStr)) (\<lambda>dh.
     if length dh \<noteq> X25519KeySize
     then Inl (bad_uri ''%w: dh key must be %d bytes, got %d''
                 [AInt (int X25519KeySize), AInt (int (length dh))])
     else Inr (vr, dh))))"

text \<open>The fields before it, lines 78 to 102.\<close>

definition parse_fields :: "string \<Rightarrow> string \<Rightarrow> string \<Rightarrow> (bytes \<times> (string \<times> 16 word) \<times> bytes) result" where
  "parse_fields fpStr hostPortStr sidStr =
     rbind (or_bad ''%w: decode fingerprint: %v'' (b64_decode fpStr)) (\<lambda>fp.
     if length fp \<noteq> 32
     then Inl (bad_uri ''%w: fingerprint must be 32 bytes (SHA-256), got %d'' [AInt (int (length fp))])
     else rbind (or_bad ''%w: %v'' (parseHostPort hostPortStr)) (\<lambda>hp.
     rbind (or_bad ''%w: decode senderId: %v'' (b64_decode sidStr)) (\<lambda>sid.
     if length sid < 16 \<or> length sid > 24
     then Inl (bad_uri ''%w: senderId must be 16-24 bytes, got %d'' [AInt (int (length sid))])
     else Inr (fp, hp, sid))))"

definition ParseSMPQueueURI :: "string \<Rightarrow> SMPQueueURI result" where
  "ParseSMPQueueURI s =
     (if \<not> HasPrefix s ''smp://''
      then Inl (bad_uri ''%w: expected %q prefix, got %q'' [AStr ''smp://'', AStr (firstN s 16)])
      else let rest = drop 6 s; hashIdx = IndexByte rest (CHR ''#'') in
      if hashIdx = -1
      then Inl (bad_uri ''%w: missing '#' fragment with version+dh params'' [])
      else let authPath = take (nat hashIdx) rest;
               frag = TrimPrefix (TrimPrefix (drop (nat (hashIdx + 1)) rest) ''/'') ''?'';
               atIdx = IndexByte authPath (CHR ''@'') in
      if atIdx = -1
      then Inl (bad_uri ''%w: missing '@' between fingerprint and host'' [])
      else let fpStr = take (nat atIdx) authPath; hostPathStr = drop (nat (atIdx + 1)) authPath;
               slashIdx = IndexByte hostPathStr (CHR ''/'') in
      if slashIdx = -1
      then Inl (bad_uri ''%w: missing '/' between host and senderId'' [])
      else let hostPortStr = take (nat slashIdx) hostPathStr;
               sidStr = TrimSuffix (drop (nat (slashIdx + 1)) hostPathStr) ''/'' in
      rbind (parse_fields fpStr hostPortStr sidStr) (\<lambda>(fp, (host, port), sid).
      rbind (parse_fragment frag) (\<lambda>(vr, dh).
      Inr \<lparr>qu_ServerFingerprint = fp, qu_Host = host, qu_Port = port, qu_SenderID = sid,
           qu_ClientVRange = vr, qu_DHPubKey = dh\<rparr>)))"

section \<open>The printer\<close>

definition uri_query :: "SMPQueueURI \<Rightarrow> url_values" where
  "uri_query u =
     values_set
       (values_set [] ''v''
         (decimal (unat (vr_Min (qu_ClientVRange u))) @ ''-'' @ decimal (unat (vr_Max (qu_ClientVRange u)))))
       ''dh'' (b64_encode (qu_DHPubKey u))"

definition SMPQueueURI_String :: "SMPQueueURI \<Rightarrow> string" where
  "SMPQueueURI_String u =
     (let port = (if qu_Port u = 0 then 5223 else qu_Port u) in
      ''smp://'' @ b64_encode (qu_ServerFingerprint u) @ ''@'' @ qu_Host u @ '':'' @ decimal (unat port)
        @ ''/'' @ b64_encode (qu_SenderID u) @ ''#/?'' @ values_Encode (uri_query u))"

section \<open>Printing and parsing again\<close>

text \<open>What every address has that went through the parser.\<close>

definition uri_wf :: "SMPQueueURI \<Rightarrow> bool" where
  "uri_wf u \<longleftrightarrow> length (qu_ServerFingerprint u) = 32
     \<and> 16 \<le> length (qu_SenderID u) \<and> length (qu_SenderID u) \<le> 24
     \<and> length (qu_DHPubKey u) = 32 \<and> vr_Min (qu_ClientVRange u) \<le> vr_Max (qu_ClientVRange u)"

lemma unat_port_bound: "unat (p :: 16 word) \<le> 65535"
  using unsigned_less [of p, where ?'a = nat] by simp

lemma decimal_clean: "c \<notin> set ''0123456789'' \<Longrightarrow> c \<notin> set (decimal n)"
  using decimal_digits [of n] by blast

lemma parseHostPort_print:
  assumes "\<not> HasPrefix h ''[''"
  shows "parseHostPort (h @ CHR '':'' # decimal (unat p)) = Inr (h, p)"
proof -
  have "CHR '':'' \<notin> set (decimal (unat p))" by (rule decimal_clean) simp
  moreover have "\<not> HasPrefix (h @ CHR '':'' # d) ''[''" for d
    using assms by (cases h) auto
  ultimately show ?thesis
    by (simp add: parseHostPort_def Let_def unat_port_bound nat_add_distrib del: HasPrefix.simps)
qed

lemma parseVersionRange_print:
  assumes "vr_Min r \<le> vr_Max r"
  shows "parseVersionRange (decimal (unat (vr_Min r)) @ CHR ''-'' # decimal (unat (vr_Max r))) = Inr r"
proof -
  have "CHR ''-'' \<notin> set (decimal (unat (vr_Min r)))" by (rule decimal_clean) simp
  moreover have "\<not> unat (vr_Max r) < unat (vr_Min r)" using assms by (simp add: word_le_nat_alt)
  ultimately show ?thesis
    by (simp add: parseVersionRange_def Let_def unat_port_bound nat_add_distrib)
qed

lemma uri_query_pairs:
  "values_Encode (uri_query u) = join_amp (map encode_pair
     [(''dh'', b64_encode (qu_DHPubKey u)),
      (''v'', decimal (unat (vr_Min (qu_ClientVRange u))) @ ''-'' @ decimal (unat (vr_Max (qu_ClientVRange u))))])"
proof -
  have "sort [''v'', ''dh''] = [''dh'', ''v'']" by code_simp
  then show ?thesis by (simp add: values_Encode_def values_pairs_def uri_query_def values_set_def)
qed

lemma parse_fragment_print:
  assumes "uri_wf u"
  shows "parse_fragment (values_Encode (uri_query u)) = Inr (qu_ClientVRange u, qu_DHPubKey u)"
proof -
  let ?v = "decimal (unat (vr_Min (qu_ClientVRange u))) @ CHR ''-'' # decimal (unat (vr_Max (qu_ClientVRange u)))"
  have "ParseQuery (values_Encode (uri_query u)) = Inr [(''dh'', [b64_encode (qu_DHPubKey u)]), (''v'', [?v])]"
    by (simp only: uri_query_pairs ParseQuery_def parse_query_join) (simp add: values_add_def)
  moreover have "parseVersionRange ?v = Inr (qu_ClientVRange u)"
    using assms by (intro parseVersionRange_print) (simp add: uri_wf_def)
  moreover have "qu_DHPubKey u \<noteq> []" using assms by (auto simp: uri_wf_def)
  ultimately show ?thesis
    using assms by (simp add: parse_fragment_def values_get_def or_bad_def uri_wf_def key_sizes)
qed

lemma parse_fields_print:
  assumes "uri_wf u" "parseHostPort hp = Inr r"
  shows "parse_fields (b64_encode (qu_ServerFingerprint u)) hp (b64_encode (qu_SenderID u))
    = Inr (qu_ServerFingerprint u, r, qu_SenderID u)"
  using assms by (simp add: parse_fields_def or_bad_def uri_wf_def)

lemma b64_clean [simp]:
  "CHR ''@'' \<notin> set (b64_encode b)" "CHR ''#'' \<notin> set (b64_encode b)" "CHR ''/'' \<notin> set (b64_encode b)"
  by (rule b64_encode_clean, code_simp)+

lemma IndexByte_cut:
  "c \<notin> set xs \<Longrightarrow> IndexByte (xs @ c # ys) c = int (length xs)
     \<and> take (nat (int (length xs))) (xs @ c # ys) = xs
     \<and> drop (nat (int (length xs) + 1)) (xs @ c # ys) = ys"
  by (simp add: nat_add_distrib)

lemma TrimSuffix_clean: "CHR ''/'' \<notin> set s \<Longrightarrow> TrimSuffix s ''/'' = s"
  by (cases s rule: rev_cases) (auto simp: TrimSuffix_def)

lemma ParseSMPQueueURI_parts:
  assumes "CHR ''@'' \<notin> set fp" "CHR ''#'' \<notin> set fp" "CHR ''/'' \<notin> set hp" "CHR ''#'' \<notin> set hp"
    and "CHR ''#'' \<notin> set sid" "CHR ''/'' \<notin> set sid"
  shows "ParseSMPQueueURI (''smp://'' @ fp @ ''@'' @ hp @ ''/'' @ sid @ ''#/?'' @ q) =
    rbind (parse_fields fp hp sid) (\<lambda>(fp, (host, port), sid).
    rbind (parse_fragment q) (\<lambda>(vr, dh).
      Inr \<lparr>qu_ServerFingerprint = fp, qu_Host = host, qu_Port = port, qu_SenderID = sid,
           qu_ClientVRange = vr, qu_DHPubKey = dh\<rparr>))"
proof -
  let ?auth = "fp @ CHR ''@'' # hp @ CHR ''/'' # sid"
  have "CHR ''#'' \<notin> set ?auth" using assms by simp
  from IndexByte_cut [OF this, of "''/?'' @ q"] IndexByte_cut [OF assms(1), of "hp @ CHR ''/'' # sid"]
    IndexByte_cut [OF assms(3), of sid]
  show ?thesis
    using assms(6) by (simp add: ParseSMPQueueURI_def Let_def TrimSuffix_clean TrimPrefix_def)
qed

lemma ParseSMPQueueURI_print:
  assumes "uri_wf u" "qu_Port u \<noteq> 0" "CHR ''#'' \<notin> set (qu_Host u)" "CHR ''/'' \<notin> set (qu_Host u)"
    "\<not> HasPrefix (qu_Host u) ''[''"
  shows "ParseSMPQueueURI (SMPQueueURI_String u) = Inr u"
proof -
  let ?hp = "qu_Host u @ CHR '':'' # decimal (unat (qu_Port u))"
  have "CHR ''#'' \<notin> set (decimal n)" "CHR ''/'' \<notin> set (decimal n)" for n
    by (rule decimal_clean, simp)+
  then have clean: "CHR ''#'' \<notin> set ?hp" "CHR ''/'' \<notin> set ?hp" using assms by simp_all
  have "SMPQueueURI_String u = ''smp://'' @ b64_encode (qu_ServerFingerprint u) @ ''@'' @ ?hp @ ''/''
      @ b64_encode (qu_SenderID u) @ ''#/?'' @ values_Encode (uri_query u)"
    using assms(2) by (simp add: SMPQueueURI_String_def)
  then show ?thesis
    using ParseSMPQueueURI_parts [OF b64_clean(1,2) clean(2,1) b64_clean(2,3)]
      parse_fields_print [OF assms(1) parseHostPort_print [OF assms(5)]] parse_fragment_print [OF assms(1)]
    by simp
qed

section \<open>What the parser accepts\<close>

lemma parseHostPort_host: "parseHostPort s = Inr (h, p) \<Longrightarrow> set h \<subseteq> set s"
  by (auto simp: parseHostPort_def Let_def split: if_splits dest!: in_set_takeD in_set_dropD)

lemma parseVersionRange_le: "parseVersionRange s = Inr r \<Longrightarrow> vr_Min r \<le> vr_Max r"
  by (auto simp: parseVersionRange_def Let_def word_le_nat_alt unat_of_nat
      split: if_splits sum.splits dest!: ParseUint16_bound)

lemma parse_fields_wf:
  "parse_fields a b c = Inr (fp, hp, sid) \<Longrightarrow>
     length fp = 32 \<and> 16 \<le> length sid \<and> length sid \<le> 24 \<and> parseHostPort b = Inr hp"
  by (auto simp: parse_fields_def or_bad_def split: sum.splits if_splits)

lemma parse_fragment_wf: "parse_fragment q = Inr (vr, dh) \<Longrightarrow> length dh = 32 \<and> vr_Min vr \<le> vr_Max vr"
  by (auto simp: parse_fragment_def or_bad_def Let_def key_sizes parseVersionRange_le
      split: sum.splits if_splits)

lemma IndexByte_take_clean: "IndexByte xs c \<noteq> -1 \<Longrightarrow> c \<notin> set (take (nat (IndexByte xs c)) xs)"
  using IndexByte_split [OF refl, of xs c] by blast

lemma ParseSMPQueueURI_wf:
  assumes "ParseSMPQueueURI s = Inr u"
  shows "uri_wf u \<and> CHR ''#'' \<notin> set (qu_Host u) \<and> CHR ''/'' \<notin> set (qu_Host u)"
proof -
  define rest where "rest = drop 6 s"
  define auth where "auth = take (nat (IndexByte rest (CHR ''#''))) rest"
  define path where "path = drop (nat (IndexByte auth (CHR ''@'') + 1)) auth"
  define hp where "hp = take (nat (IndexByte path (CHR ''/''))) path"
  from assms obtain a c q where
    ne: "IndexByte rest (CHR ''#'') \<noteq> -1" "IndexByte path (CHR ''/'') \<noteq> -1"
    and fields: "parse_fields a hp c = Inr (qu_ServerFingerprint u, (qu_Host u, qu_Port u), qu_SenderID u)"
    and frag: "parse_fragment q = Inr (qu_ClientVRange u, qu_DHPubKey u)"
    by (simp add: ParseSMPQueueURI_def Let_def flip: rest_def auth_def path_def hp_def split: if_splits)
      (fastforce simp: hp_def path_def auth_def rest_def)
  have "set hp \<subseteq> set path" "set path \<subseteq> set auth"
    unfolding hp_def path_def by (auto dest: in_set_takeD in_set_dropD)
  moreover have "CHR ''#'' \<notin> set auth" "CHR ''/'' \<notin> set hp"
    unfolding auth_def hp_def
    by (fact IndexByte_take_clean [OF ne(1)], fact IndexByte_take_clean [OF ne(2)])
  moreover have "set (qu_Host u) \<subseteq> set hp"
    by (rule parseHostPort_host [of _ _ "qu_Port u"]) (simp add: parse_fields_wf [OF fields])
  ultimately show ?thesis
    using parse_fields_wf [OF fields] parse_fragment_wf [OF frag] by (auto simp: uri_wf_def)
qed

lemma parseHostPort_bracket:
  assumes "HasPrefix h ''[''"
  shows "parseHostPort (h @ CHR '':'' # decimal n) \<noteq> Inr (h, p)"
proof
  let ?s = "h @ CHR '':'' # decimal n"
  assume eq: "parseHostPort ?s = Inr (h, p)"
  from assms have b: "HasPrefix ?s ''[''" by (cases h) auto
  have "CHR '']'' \<notin> set (decimal n)" by (rule decimal_clean) simp
  moreover have "CHR '']'' \<in> set ?s" using eq b by (auto simp: parseHostPort_def Let_def split: if_splits)
  ultimately have "CHR '']'' \<in> set h" by simp
  then obtain x y where h: "h = x @ CHR '']'' # y" and x: "CHR '']'' \<notin> set x" by (meson split_list_first)
  then have "IndexByte ?s (CHR '']'') = int (length x)" by simp
  with eq b h have "h = drop 1 x" by (auto simp: parseHostPort_def Let_def)
  then have "length h \<le> length x" by simp
  with h show False by simp
qed

text \<open>Every error of the parser is an \<open>ErrBadQueueURI\<close>.\<close>

lemma bad_uri_is [simp]: "errors_is (bad_uri f args) ErrBadQueueURI"
  by (simp add: bad_uri_def)

lemma or_bad_Inl: "or_bad f r = Inl e \<Longrightarrow> errors_is e ErrBadQueueURI"
  by (auto simp: or_bad_def split: sum.splits)

lemma parse_fields_error: "parse_fields a b c = Inl e \<Longrightarrow> errors_is e ErrBadQueueURI"
  by (auto simp: parse_fields_def rbind_eq_Inl dest: or_bad_Inl split: if_splits)

lemma parse_fragment_error: "parse_fragment q = Inl e \<Longrightarrow> errors_is e ErrBadQueueURI"
  by (auto simp: parse_fragment_def Let_def rbind_eq_Inl dest: or_bad_Inl split: if_splits)

lemma ParseSMPQueueURI_error: "ParseSMPQueueURI s = Inl e \<Longrightarrow> errors_is e ErrBadQueueURI"
  by (auto simp: ParseSMPQueueURI_def Let_def rbind_eq_Inl
      dest: parse_fields_error parse_fragment_error split: if_splits)

section \<open>The properties\<close>

text \<open>
  The interface the tools rely on: an address of one's own, printed and handed over out of
  band, is what the other side parses.
\<close>

locale invitation_codec =
  fixes print :: "'a \<Rightarrow> string" and parse :: "string \<Rightarrow> 'a result" and usable :: "'a \<Rightarrow> bool"
  assumes parse_print: "usable a \<Longrightarrow> parse (print a) = Inr a"
begin

lemma print_inj: "usable a \<Longrightarrow> usable b \<Longrightarrow> print a = print b \<Longrightarrow> a = b"
  by (metis parse_print sum.inject(2))

lemma reprint: "parse s = Inr a \<Longrightarrow> usable a \<Longrightarrow> parse (print a) = parse s"
  by (simp add: parse_print)

end

definition uri_printable :: "SMPQueueURI \<Rightarrow> bool" where
  "uri_printable u \<longleftrightarrow> uri_wf u \<and> qu_Port u \<noteq> 0 \<and> CHR ''#'' \<notin> set (qu_Host u)
     \<and> CHR ''/'' \<notin> set (qu_Host u) \<and> \<not> HasPrefix (qu_Host u) ''[''"

interpretation queue_uri: invitation_codec SMPQueueURI_String ParseSMPQueueURI uri_printable
  by unfold_locales (simp add: uri_printable_def ParseSMPQueueURI_print)

lemma unprintable_host:
  assumes "ParseSMPQueueURI (SMPQueueURI_String u) = Inr u"
  shows "\<not> HasPrefix (qu_Host u) ''['' \<and> qu_Port u \<noteq> 0"
proof -
  let ?port = "if qu_Port u = 0 then 5223 else qu_Port u"
  let ?hp = "qu_Host u @ CHR '':'' # decimal (unat ?port)"
  have "CHR ''#'' \<notin> set (decimal n)" "CHR ''/'' \<notin> set (decimal n)" for n
    by (rule decimal_clean, simp)+
  then have clean: "CHR ''#'' \<notin> set ?hp" "CHR ''/'' \<notin> set ?hp"
    using ParseSMPQueueURI_wf [OF assms] by simp_all
  have "SMPQueueURI_String u = ''smp://'' @ b64_encode (qu_ServerFingerprint u) @ ''@'' @ ?hp @ ''/''
      @ b64_encode (qu_SenderID u) @ ''#/?'' @ values_Encode (uri_query u)"
    by (simp add: SMPQueueURI_String_def Let_def)
  with assms have "parse_fields (b64_encode (qu_ServerFingerprint u)) ?hp (b64_encode (qu_SenderID u))
      = Inr (qu_ServerFingerprint u, (qu_Host u, qu_Port u), qu_SenderID u)"
    using ParseSMPQueueURI_parts [OF b64_clean(1,2) clean(2,1) b64_clean(2,3)] by auto
  then have host: "parseHostPort ?hp = Inr (qu_Host u, qu_Port u)"
    using parse_fields_wf by blast
  then have b: "\<not> HasPrefix (qu_Host u) ''[''" using parseHostPort_bracket by metis
  with host have "?port = qu_Port u" using parseHostPort_print [OF b, of ?port] by simp
  with b show ?thesis by (auto split: if_splits)
qed

text \<open>C24: Printing an address with \<open>String\<close> and parsing the text gives the address back exactly
  when it is one the parser could have produced (a 32-byte fingerprint, a queue id of 16 to 24
  bytes, a 32-byte key, an ordered version range, no \<open>#\<close> or \<open>/\<close> in the host), its port is not
  0 and its host does not start with \<open>[\<close>: \<open>String\<close> writes 5223 for port 0 and leaves out the
  brackets of an IPv6 host.\<close>

theorem SMPQueueURI_roundtrip:
  "ParseSMPQueueURI (SMPQueueURI_String u) = Inr u \<longleftrightarrow> uri_printable u"
proof
  assume "ParseSMPQueueURI (SMPQueueURI_String u) = Inr u"
  then show "uri_printable u"
    using ParseSMPQueueURI_wf [of "SMPQueueURI_String u" u] unprintable_host [of u]
    by (simp only: uri_printable_def simp_thms)
qed (rule queue_uri.parse_print)

text \<open>C25: Whatever text it is given, \<open>ParseSMPQueueURI\<close> fails with an error that is
  \<open>ErrBadQueueURI\<close>, or returns an address with a 32-byte fingerprint, a queue id of 16 to 24
  bytes, a 32-byte key, an ordered version range and a host without \<open>#\<close> and \<open>/\<close>.\<close>

theorem ParseSMPQueueURI_total:
  "(case ParseSMPQueueURI s of
      Inl e \<Rightarrow> errors_is e ErrBadQueueURI
    | Inr u \<Rightarrow> uri_wf u \<and> CHR ''#'' \<notin> set (qu_Host u) \<and> CHR ''/'' \<notin> set (qu_Host u))"
  using ParseSMPQueueURI_wf [of s] ParseSMPQueueURI_error [of s] by (auto split: sum.split)

end
