(* ===== verification/Go_Time.thy ===== *)
theory Go_Time
  imports Go_Strings
begin

text \<open>
  The calendar of Go's \<open>time\<close> package as far as \<open>kozi-cli\<close> uses it: an instant is a number of
  seconds since the Unix epoch, \<open>UTC()\<close> its proleptic Gregorian date and time, and \<open>Format\<close> the
  layout of an hour. The date determines the instant's hour, so the text does.
\<close>

section \<open>Dates\<close>

definition is_leap :: "int \<Rightarrow> bool" where
  "is_leap y \<longleftrightarrow> y mod 4 = 0 \<and> (y mod 100 \<noteq> 0 \<or> y mod 400 = 0)"

text \<open>Year and day of the year, both from 0, of a day counted from 1 January of the year 1: whole
  400-year cycles, centuries, 4-year cycles, years.\<close>

definition year_yday :: "int \<Rightarrow> int \<times> int" where
  "year_yday d =
     (let n400 = d div 146097; d1 = d mod 146097;
          n100 = min 3 (d1 div 36524); d2 = d1 - 36524 * n100;
          n4 = d2 div 1461; d3 = d2 mod 1461;
          n1 = min 3 (d3 div 365); yday = d3 - 365 * n1
      in (400 * n400 + 100 * n100 + 4 * n4 + n1, yday))"

definition month_lengths :: "bool \<Rightarrow> nat list" where
  "month_lengths leap = [31, if leap then 29 else 28, 31, 30, 31, 30, 31, 31, 30, 31, 30, 31]"

fun month_day :: "nat list \<Rightarrow> nat \<Rightarrow> nat \<Rightarrow> nat \<times> nat" where
  "month_day [] m d = (m, d + 1)"
| "month_day (l # ls) m d = (if d < l then (m, d + 1) else month_day ls (m + 1) (d - l))"

text \<open>Year, month and day of an instant.\<close>

definition unix_day :: "int \<Rightarrow> int" where
  "unix_day t = t div 86400 + 719162"

definition civil :: "int \<Rightarrow> int \<times> nat \<times> nat" where
  "civil day =
     (case year_yday day of (y, yday) \<Rightarrow> (y + 1, month_day (month_lengths (is_leap (y + 1))) 1 (nat yday)))"

definition hour_of :: "int \<Rightarrow> nat" where
  "hour_of t = nat (t mod 86400 div 3600)"

section \<open>Formatting\<close>

definition zero_pad :: "nat \<Rightarrow> string \<Rightarrow> string" where
  "zero_pad w s = replicate (w - length s) (CHR ''0'') @ s"

definition year_text :: "int \<Rightarrow> string" where
  "year_text y = (if y < 0 then ''-'' else []) @ zero_pad 4 (decimal (nat \<bar>y\<bar>))"

text \<open>The layout \<open>2006-01-02T15\<close>.\<close>

definition format_hour :: "int \<Rightarrow> string" where
  "format_hour t =
     (case civil (unix_day t) of (y, m, d) \<Rightarrow>
        year_text y @ ''-'' @ zero_pad 2 (decimal m) @ ''-'' @ zero_pad 2 (decimal d)
          @ ''T'' @ zero_pad 2 (decimal (hour_of t)))"

section \<open>A date names one day\<close>

text \<open>The four counts of \<^const>\<open>year_yday\<close> and their bounds.\<close>

lemma quarter:
  fixes x k :: int
  assumes "0 \<le> x" "x \<le> 4 * k" "0 < k" "q = min 3 (x div k)"
  shows "0 \<le> q" "q \<le> 3" "0 \<le> x - k * q" "x - k * q < k \<or> x = 4 * k \<and> q = 3"
proof -
  define p where "p = x div k"
  have "k * p + x mod k = x" by (simp add: p_def)
  moreover have "0 \<le> p" using assms(1,3) by (simp add: p_def pos_imp_zdiv_nonneg_iff)
  ultimately have p: "k * p \<le> x" "x < k * p + k" "0 \<le> p"
    using pos_mod_bound [OF assms(3), of x] pos_mod_sign [OF assms(3), of x] by linarith+
  have "k * p \<le> 4 * k" using p(1) assms(2) by simp
  then have "p \<le> 4" using assms(3) by (simp add: mult.commute)
  with p(3) have "p \<in> {0, 1, 2, 3, 4}" by auto
  with p assms show "0 \<le> q" "q \<le> 3" "0 \<le> x - k * q" "x - k * q < k \<or> x = 4 * k \<and> q = 3"
    unfolding p_def [symmetric] by auto
qed

lemma year_yday_counts:
  assumes "year_yday d = (y, yday)"
  obtains a b c e where "y = 400 * a + 100 * b + 4 * c + e"
    "d = 146097 * a + 36524 * b + 1461 * c + 365 * e + yday"
    "0 \<le> b" "b \<le> 3" "0 \<le> c" "c \<le> 24" "0 \<le> e" "e \<le> 3" "0 \<le> yday"
    "yday < 365 \<or> yday = 365 \<and> e = 3 \<and> (c < 24 \<or> b = 3)"
proof -
  define a where "a = d div 146097"
  define d1 where "d1 = d mod 146097"
  define b where "b = min 3 (d1 div 36524)"
  define d2 where "d2 = d1 - 36524 * b"
  define c where "c = d2 div 1461"
  define d3 where "d3 = d2 mod 1461"
  define e where "e = min 3 (d3 div 365)"
  have y: "y = 400 * a + 100 * b + 4 * c + e" "yday = d3 - 365 * e"
    using assms
    by (simp_all only: year_yday_def Let_def prod.inject
        flip: a_def d1_def b_def d2_def c_def d3_def e_def)
  have d1: "d = 146097 * a + d1" "0 \<le> d1" "d1 < 146097" by (simp_all add: a_def d1_def)
  have d2: "0 \<le> b" "b \<le> 3" "0 \<le> d2" "d2 < 36524 \<or> d2 = 36524 \<and> b = 3"
    using quarter [of d1 36524 b] d1(2,3) by (auto simp: b_def d2_def)
  have d3: "d2 = 1461 * c + d3" "0 \<le> d3" "d3 < 1461" by (simp_all add: c_def d3_def)
  then have c: "0 \<le> c" "c \<le> 24" "d3 = 1460 \<Longrightarrow> c < 24 \<or> b = 3" using d2 by auto
  have e: "0 \<le> e" "e \<le> 3" "0 \<le> yday" "yday < 365 \<or> yday = 365 \<and> e = 3 \<and> d3 = 1460"
    using quarter [of d3 365 e] d3(2,3) by (auto simp: e_def y(2))
  show ?thesis
    by (rule that [of a b c e]) (use y d1 d2 d3 c e in \<open>auto simp: d2_def\<close>)
qed

lemma year_yday_inverse:
  assumes "year_yday d = (y, yday)"
  shows "d = 365 * y + y div 4 - y div 100 + y div 400 + yday" "0 \<le> yday"
    "yday < 365 + of_bool (is_leap (y + 1))"
proof -
  from year_yday_counts [OF assms] obtain a b c e where y: "y = 400 * a + 100 * b + 4 * c + e"
    and d: "d = 146097 * a + 36524 * b + 1461 * c + 365 * e + yday"
    and bd: "0 \<le> b" "b \<le> 3" "0 \<le> c" "c \<le> 24" "0 \<le> e" "e \<le> 3"
    and yd: "0 \<le> yday" "yday < 365 \<or> yday = 365 \<and> e = 3 \<and> (c < 24 \<or> b = 3)"
    by blast
  have "y div 4 = 100 * a + 25 * b + c"
    by (rule int_div_pos_eq [of _ _ _ e]) (use y bd in simp_all)
  moreover have "y div 100 = 4 * a + b"
    by (rule int_div_pos_eq [of _ _ _ "4 * c + e"]) (use y bd in simp_all)
  moreover have "y div 400 = a"
    by (rule int_div_pos_eq [of _ _ _ "100 * b + 4 * c + e"]) (use y bd in simp_all)
  ultimately show "d = 365 * y + y div 4 - y div 100 + y div 400 + yday" using y d by simp
  show "0 \<le> yday" by (fact yd(1))
  have "is_leap (y + 1)" if "e = 3" "c < 24 \<or> b = 3"
  proof -
    have "y + 1 = (100 * a + 25 * b + c + 1) * 4" using y that(1) by simp
    then have m4: "(y + 1) mod 4 = 0" by (simp only: mod_mult_self2_is_0)
    show ?thesis
    proof (cases "c < 24")
      case True
      have "y + 1 = (4 * c + 4) + (4 * a + b) * 100" using y that(1) by simp
      then have "(y + 1) mod 100 = (4 * c + 4) mod 100" by (simp only: mod_mult_self1)
      also have "\<dots> = 4 * c + 4" using True bd(3) by (intro mod_pos_pos_trivial) simp_all
      finally have "(y + 1) mod 100 = 4 * c + 4" .
      with m4 bd(3) show ?thesis by (simp add: is_leap_def)
    next
      case False
      with that bd y have "y + 1 = 400 * (a + 1)" by simp
      then have "(y + 1) mod 400 = 0" by (simp only: mod_mult_self1_is_0)
      with m4 show ?thesis by (simp add: is_leap_def)
    qed
  qed
  with yd(2) show "yday < 365 + of_bool (is_leap (y + 1))" by auto
qed

lemma month_day_inverse:
  "month_day ls m d = (m', x) \<Longrightarrow> m \<le> m' \<and> d + 1 = sum_list (take (m' - m) ls) + x"
proof (induction ls m d rule: month_day.induct)
  case (2 l ls m d)
  show ?case
  proof (cases "d < l")
    case False
    with 2 have ih: "m + 1 \<le> m'" "d - l + 1 = sum_list (take (m' - (m + 1)) ls) + x" by simp_all
    from ih(1) have "m' - m = Suc (m' - (m + 1))" by simp
    with ih False show ?thesis by simp
  qed (use 2 in simp)
qed simp

lemma month_day_bounds:
  "month_day ls m d = (m', x) \<Longrightarrow> d < sum_list ls \<Longrightarrow> (\<forall>l \<in> set ls. l \<le> 31) \<Longrightarrow>
     m' < m + length ls \<and> 1 \<le> x \<and> x \<le> 31"
proof (induction ls m d rule: month_day.induct)
  case (2 l ls m d)
  then show ?case by (cases "d < l") auto
qed simp

lemma civil_inj:
  assumes "civil a = civil b"
  shows "a = b"
proof -
  obtain ya da yb db where y: "year_yday a = (ya, da)" "year_yday b = (yb, db)"
    by (metis surj_pair)
  let ?ls = "month_lengths (is_leap (ya + 1))"
  obtain m x where m: "month_day ?ls 1 (nat da) = (m, x)" by (metis surj_pair)
  from assms y have "ya = yb" by (simp add: civil_def)
  with assms y m have "month_day ?ls 1 (nat db) = (m, x)" by (simp add: civil_def)
  with m have "nat da = nat db" using month_day_inverse by (metis add_right_imp_eq)
  with year_yday_inverse(2) [OF y(1)] year_yday_inverse(2) [OF y(2)] have "da = db" by simp
  with \<open>ya = yb\<close> year_yday_inverse(1) [OF y(1)] year_yday_inverse(1) [OF y(2)] show ?thesis by simp
qed

lemma month_lengths_facts:
  "sum_list (month_lengths leap) = 365 + of_bool leap" "length (month_lengths leap) = 12"
  "\<forall>l \<in> set (month_lengths leap). l \<le> 31"
  by (simp_all add: month_lengths_def)

lemma civil_bounds:
  assumes "civil day = (y, m, d)"
  shows "1 \<le> m \<and> m \<le> 12 \<and> 1 \<le> d \<and> d \<le> 31"
proof -
  obtain y' yday where y: "year_yday day = (y', yday)" by (metis surj_pair)
  let ?ls = "month_lengths (is_leap (y' + 1))"
  have md: "month_day ?ls 1 (nat yday) = (m, d)" using assms y by (simp add: civil_def del: One_nat_def) blast
  have "nat yday < sum_list ?ls"
    using year_yday_inverse(2,3) [OF y] by (simp add: month_lengths_facts nat_less_iff)
  from month_day_bounds [OF md this month_lengths_facts(3)] month_day_inverse [OF md] show ?thesis
    by (simp add: month_lengths_facts)
qed

section \<open>The text of an hour names the hour\<close>

lemma dec_val_pad: "dec_val (zero_pad w s) = dec_val s"
proof -
  have "digit_val (CHR ''0'') = Some 0" by code_simp
  then have "foldl (\<lambda>n c. n * 10 + (case digit_val c of Some d \<Rightarrow> d | None \<Rightarrow> 0)) 0 (replicate k (CHR ''0'')) = 0" for k
    by (induction k) simp_all
  then show ?thesis by (simp add: dec_val_def zero_pad_def)
qed

lemma pad_decimal_inj: "zero_pad w (decimal a) = zero_pad w (decimal b) \<longleftrightarrow> a = b"
  by (metis dec_val_decimal dec_val_pad)

lemma length_pad_2: "n < 100 \<Longrightarrow> length (zero_pad 2 (decimal n)) = 2"
  by (cases "n < 10") (simp_all add: zero_pad_def decimal.simps [of n] decimal.simps [of "n div 10"] less_mult_imp_div_less)

lemma year_text_inj: "year_text a = year_text b \<longleftrightarrow> a = b"
proof
  assume eq: "year_text a = year_text b"
  have clean: "CHR ''-'' \<notin> set (zero_pad 4 (decimal n))" for n
    using decimal_digits [of n] by (auto simp: zero_pad_def)
  have sign: "CHR ''-'' \<in> set (year_text y) \<longleftrightarrow> y < 0" for y
    using clean [of "nat \<bar>y\<bar>"] by (simp add: year_text_def)
  have "(a < 0) = (b < 0)" using eq sign [of a] sign [of b] by metis
  moreover from this eq have "nat \<bar>a\<bar> = nat \<bar>b\<bar>"
    by (simp add: year_text_def pad_decimal_inj split: if_splits)
  ultimately show "a = b" by linarith
qed simp

lemma hour_of_bound: "hour_of t < 24"
  by (simp add: hour_of_def)

lemma hour_of_split: "t div 3600 = 24 * (t div 86400) + int (hour_of t)"
proof -
  have "t mod 86400 = 3600 * (t div 3600 mod 24) + t mod 3600"
    using zmod_zmult2_eq [of 24 t 3600] by simp
  moreover have "(3600 * x + t mod 3600) div 3600 = x" for x :: int
    by (rule int_div_pos_eq [of _ _ _ "t mod 3600"]) simp_all
  ultimately have "t mod 86400 div 3600 = t div 3600 mod 24" by simp
  moreover have "t div 86400 = t div 3600 div 24"
    using zdiv_zmult2_eq [of 24 t 3600] by simp
  ultimately show ?thesis by (simp add: hour_of_def)
qed

lemma day_hour_eq:
  fixes q q' :: int
  assumes "h < 24" "h' < 24"
  shows "24 * q + int h = 24 * q' + int h' \<longleftrightarrow> q = q' \<and> h = h'"
proof
  assume eq: "24 * q + int h = 24 * q' + int h'"
  have "(24 * q + int h) div 24 = q" by (rule int_div_pos_eq [OF refl]) (use assms in simp_all)
  moreover have "(24 * q' + int h') div 24 = q'" by (rule int_div_pos_eq [OF refl]) (use assms in simp_all)
  ultimately show "q = q' \<and> h = h'" using eq by simp
qed simp

lemma format_hour_eq_iff: "format_hour t = format_hour t' \<longleftrightarrow> t div 3600 = t' div 3600"
proof -
  obtain y m d where c: "civil (unix_day t) = (y, m, d)" by (metis surj_pair)
  obtain y' m' d' where c': "civil (unix_day t') = (y', m', d')" by (metis surj_pair)
  have len: "length (zero_pad 2 (decimal n)) = 2" if "n < 32" for n
    using that by (simp add: length_pad_2)
  have b: "m < 32" "d < 32" "m' < 32" "d' < 32" "hour_of t < 32" "hour_of t' < 32"
    using civil_bounds [OF c] civil_bounds [OF c'] hour_of_bound [of t] hour_of_bound [of t'] by auto
  have "format_hour t = format_hour t' \<longleftrightarrow> civil (unix_day t) = civil (unix_day t') \<and> hour_of t = hour_of t'"
    by (simp add: format_hour_def c c' b len pad_decimal_inj year_text_inj)
  also have "\<dots> \<longleftrightarrow> t div 86400 = t' div 86400 \<and> hour_of t = hour_of t'"
    using civil_inj [of "unix_day t" "unix_day t'"] by (auto simp: unix_day_def)
  also have "\<dots> \<longleftrightarrow> t div 3600 = t' div 3600"
    unfolding hour_of_split [of t] hour_of_split [of t']
    using day_hour_eq [OF hour_of_bound hour_of_bound] by simp
  finally show ?thesis .
qed

end
