(* ===== verification/Go_UTF8.thy ===== *)
theory Go_UTF8
  imports Go_Strings
begin

text \<open>
  UTF-8 as Go's \<open>unicode/utf8\<close> and \<open>encoding/json\<close> read and write it: the runes of a string, the
  encoding of a code point, and the replacement of bytes that are part of none.
\<close>

section \<open>Runes\<close>

text \<open>The length of the rune a string starts with, 0 when its first byte starts none.\<close>

definition in_range :: "nat \<Rightarrow> nat \<Rightarrow> char \<Rightarrow> bool" where
  "in_range lo hi c \<longleftrightarrow> lo \<le> of_char c \<and> of_char c \<le> hi"

fun continues :: "nat \<Rightarrow> string \<Rightarrow> bool" where
  "continues 0 s = True"
| "continues (Suc n) [] = False"
| "continues (Suc n) (c # s) = (in_range 0x80 0xBF c \<and> continues n s)"

definition second_in :: "nat \<Rightarrow> nat \<Rightarrow> string \<Rightarrow> bool" where
  "second_in lo hi s \<longleftrightarrow> s \<noteq> [] \<and> in_range lo hi (hd s)"

fun rune_size :: "string \<Rightarrow> nat" where
  "rune_size [] = 0"
| "rune_size (c # s) =
     (if in_range 0 0x7F c then 1
      else if in_range 0xC2 0xDF c then (if continues 1 s then 2 else 0)
      else if in_range 0xE0 0xEF c then
        (if continues 2 s \<and> (in_range 0xE0 0xE0 c \<longrightarrow> second_in 0xA0 0xBF s)
           \<and> (in_range 0xED 0xED c \<longrightarrow> second_in 0x80 0x9F s) then 3 else 0)
      else if in_range 0xF0 0xF4 c then
        (if continues 3 s \<and> (in_range 0xF0 0xF0 c \<longrightarrow> second_in 0x90 0xBF s)
           \<and> (in_range 0xF4 0xF4 c \<longrightarrow> second_in 0x80 0x8F s) then 4 else 0)
      else 0)"

text \<open>\<open>utf8.EncodeRune\<close>; what is no Unicode scalar value is written as U+FFFD.\<close>

definition rune_bytes :: "nat list \<Rightarrow> string" where
  "rune_bytes ns = map char_of ns"

definition encode_rune :: "nat \<Rightarrow> string" where
  "encode_rune r =
     (if r \<le> 0x7F then rune_bytes [r]
      else if r \<le> 0x7FF then rune_bytes [0xC0 + r div 64, 0x80 + r mod 64]
      else if 0xD800 \<le> r \<and> r \<le> 0xDFFF \<or> 0x10FFFF < r then rune_bytes [0xEF, 0xBF, 0xBD]
      else if r \<le> 0xFFFF then rune_bytes [0xE0 + r div 4096, 0x80 + r div 64 mod 64, 0x80 + r mod 64]
      else rune_bytes [0xF0 + r div 262144, 0x80 + r div 4096 mod 64, 0x80 + r div 64 mod 64, 0x80 + r mod 64])"

section \<open>Well-formed text\<close>

text \<open>\<open>strings.ToValidUTF8\<close> byte by byte: each byte that is not part of a rune becomes U+FFFD.\<close>

function to_valid :: "string \<Rightarrow> string" where
  "to_valid [] = []"
| "to_valid (c # s) =
     (let n = rune_size (c # s) in
      if n = 0 then [CHR 0xEF, CHR 0xBF, CHR 0xBD] @ to_valid s
      else c # take (n - 1) s @ to_valid (drop (n - 1) s))"
  by pat_completeness auto
termination by (relation "measure length") auto

definition utf8_valid :: "string \<Rightarrow> bool" where
  "utf8_valid s \<longleftrightarrow> to_valid s = s"

definition is_ascii :: "string \<Rightarrow> bool" where
  "is_ascii s \<longleftrightarrow> list_all (in_range 0 0x7F) s"

lemma ascii_valid: "is_ascii s \<Longrightarrow> utf8_valid s"
  by (induction s) (simp_all add: is_ascii_def utf8_valid_def)

text \<open>What is stored once is not changed by storing it again.\<close>

lemma continues_take: "continues k s \<Longrightarrow> continues k (take k s @ t)"
  by (induction k s rule: continues.induct) auto

lemma continues_length: "continues k s \<Longrightarrow> k \<le> length s"
  by (induction k s rule: continues.induct) auto

lemma rune_size_take:
  assumes "rune_size (c # s) = n" "n \<noteq> 0"
  shows "rune_size (c # take (n - 1) s @ t) = n"
proof -
  have take: "second_in lo hi (take (Suc k) s @ t) = second_in lo hi s" if "continues (Suc k) s" for lo hi k
    using that continues_length [OF that] by (cases s) (simp_all add: second_in_def)
  from assms show ?thesis
    using continues_take [of 1 s t] continues_take [of 2 s t] continues_take [of 3 s t]
      take [of 1] take [of 2]
    by (auto simp: numeral_2_eq_2 numeral_3_eq_3 split: if_splits simp del: continues.simps)
qed

lemma rune_size_bound: "rune_size (c # s) \<le> Suc (length s)"
  using continues_length [of 1 s] continues_length [of 2 s] continues_length [of 3 s]
  by (auto simp del: continues.simps)

lemma to_valid_idem: "to_valid (to_valid s) = to_valid s"
proof (induction s rule: to_valid.induct)
  case (2 c s)
  let ?n = "rune_size (c # s)"
  show ?case
  proof (cases "?n = 0")
    case True
    have "rune_size (CHR 0xEF # CHR 0xBF # CHR 0xBD # t) = 3" for t
      by (simp add: in_range_def second_in_def numeral_2_eq_2)
    with 2(1) [OF refl] True show ?thesis by simp
  next
    case False
    from rune_size_take [OF refl False] have "rune_size (c # take (?n - 1) s @ to_valid (drop (?n - 1) s)) = ?n" .
    moreover have "length (take (?n - 1) s) = ?n - 1" using rune_size_bound [of c s] by auto
    ultimately show ?thesis using 2(2) [OF refl False] False by (simp add: Let_def del: rune_size.simps)
  qed
qed simp

lemma to_valid_Nil_iff [simp]: "to_valid s = [] \<longleftrightarrow> s = []"
  by (cases s) (simp_all add: Let_def)

text \<open>Runes, and the runes of code points, are kept.\<close>

lemma to_valid_rune:
  assumes "rune_size (c # s) = n" "n \<noteq> 0"
  shows "to_valid (c # take (n - 1) s @ t) = c # take (n - 1) s @ to_valid t"
proof -
  have "length (take (n - 1) s) = n - 1" using rune_size_bound [of c s] assms(1) by simp
  then show ?thesis using rune_size_take [OF assms, of t] assms(2) by (simp add: Let_def del: rune_size.simps)
qed

lemma in_range_char_of [simp]: "n < 256 \<Longrightarrow> in_range lo hi (char_of n) \<longleftrightarrow> lo \<le> n \<and> n \<le> hi"
  by (simp add: in_range_def)

lemma to_valid_full:
  assumes "rune_size r = length r" "r \<noteq> []"
  shows "to_valid (r @ t) = r @ to_valid t"
proof -
  obtain c s where r: "r = c # s" using assms(2) by (cases r) auto
  from to_valid_rune [of c s "length r" t] assms(1) r show ?thesis by simp
qed

lemma div_64_64: "r div 64 = 64 * (r div 4096) + r div 64 mod 64" "r div 4096 = 64 * (r div 262144) + r div 4096 mod 64"
  for r :: nat
proof -
  have "r div 4096 = r div 64 div 64" "r div 262144 = r div 4096 div 64" by (simp_all flip: div_mult2_eq)
  then show "r div 64 = 64 * (r div 4096) + r div 64 mod 64" "r div 4096 = 64 * (r div 262144) + r div 4096 mod 64"
    by (simp_all only: mult_div_mod_eq)
qed

lemma encode_rune_size: "rune_size (encode_rune r) = length (encode_rune r)" "encode_rune r \<noteq> []"
proof -
  have m: "r mod 64 \<le> 63" "r div 64 mod 64 \<le> 63" "r div 4096 mod 64 \<le> 63"
    using mod_less_divisor [of 64 r] mod_less_divisor [of 64 "r div 64"] mod_less_divisor [of 64 "r div 4096"] by linarith+
  note le = div_le_mono [of _ _ 64] div_le_mono [of _ _ 4096] div_le_mono [of _ _ 262144]
  show "encode_rune r \<noteq> []" by (simp add: encode_rune_def rune_bytes_def)
  consider "r \<le> 0x7F" | "0x7F < r" "r \<le> 0x7FF" | "0x7FF < r" "0xD800 \<le> r \<and> r \<le> 0xDFFF \<or> 0x10FFFF < r"
    | "0x7FF < r" "r < 0xD800 \<or> 0xDFFF < r" "r \<le> 0xFFFF" | "0xFFFF < r" "r \<le> 0x10FFFF" by linarith
  then show "rune_size (encode_rune r) = length (encode_rune r)"
  proof cases
    case 1
    then show ?thesis by (simp add: encode_rune_def rune_bytes_def)
  next
    case 2
    then have "2 \<le> r div 64" "r div 64 \<le> 31" using le(1) [of 128 r] le(1) [of r 2047] by simp_all
    with 2 m(1) show ?thesis by (simp add: encode_rune_def rune_bytes_def numeral_2_eq_2)
  next
    case 3
    then have "encode_rune r = rune_bytes [0xEF, 0xBF, 0xBD]" by (simp add: encode_rune_def)
    then show ?thesis by (simp add: rune_bytes_def numeral_2_eq_2)
  next
    case 4
    have q: "r div 4096 \<le> 15" using le(2) [of r 65535] 4 by simp
    have e0: "32 \<le> r div 64 mod 64" if "r div 4096 = 0"
      using div_64_64(1) [of r] that le(1) [of 2048 r] 4 by simp
    have ed: "r div 64 mod 64 \<le> 31" if "r div 4096 = 13"
    proof -
      have "r < 57344" using that by (simp add: div_eq_dividend_iff flip: less_Suc_eq_le)
      with 4 have "r \<le> 55295" by linarith
      then show ?thesis using div_64_64(1) [of r] that le(1) [of r 55295] by simp
    qed
    have r: "encode_rune r = rune_bytes [0xE0 + r div 4096, 0x80 + r div 64 mod 64, 0x80 + r mod 64]"
      using 4 by (auto simp: encode_rune_def)
    show ?thesis
      using q e0 ed m(1,2) by (cases "r div 4096 = 0") (auto simp: r rune_bytes_def second_in_def numeral_2_eq_2)
  next
    case 5
    have q: "r div 262144 \<le> 4" using le(3) [of r 1114111] 5 by simp
    have f0: "16 \<le> r div 4096 mod 64" if "r div 262144 = 0"
      using div_64_64(2) [of r] that le(2) [of 65536 r] 5 by simp
    have f4: "r div 4096 mod 64 \<le> 15" if "r div 262144 = 4"
      using div_64_64(2) [of r] that le(2) [of r 1114111] 5 by simp
    have r: "encode_rune r = rune_bytes [0xF0 + r div 262144, 0x80 + r div 4096 mod 64, 0x80 + r div 64 mod 64, 0x80 + r mod 64]"
      using 5 by (simp add: encode_rune_def)
    show ?thesis
      using q f0 f4 m by (cases "r div 262144 = 0") (auto simp: r rune_bytes_def second_in_def numeral_3_eq_3)
  qed
qed

lemma to_valid_encode_rune: "to_valid (encode_rune r @ t) = encode_rune r @ to_valid t"
  by (rule to_valid_full [OF encode_rune_size])

end
