(* ===== verification/Go_JSON.thy ===== *)
theory Go_JSON
  imports Go_UTF8
begin

text \<open>
  The text of JSON documents as \<open>encoding/json\<close> reads and writes it: the scanner, one step per
  byte with the stack of the open arrays and objects, which here also collects the document;
  string literals in both directions; and the layout of \<open>MarshalIndent\<close> with two spaces.
  What is printed is read back, and no proper beginning of an object's text is a document.
\<close>

section \<open>Documents\<close>

text \<open>Strings and numbers are the text of their literals, strings without the quotes.\<close>

datatype json =
    JNull
  | JBool bool
  | JNum string
  | JStr string
  | JArr "json list"
  | JObj "(string \<times> json) list"

section \<open>The scanner\<close>

datatype num_state = NNeg | N0 | N1 | NDot | NDot0 | NE | NESign | NE0

datatype scan_state =
    BeginValue
  | BeginValueOrEmpty
  | BeginString
  | BeginStringOrEmpty
  | InString string
  | InStringEsc string
  | InStringEscU nat string
  | InNumber num_state string
  | InLiteral string json
  | EndValue json
  | EndTop json
  | ScanError

text \<open>An open array with its elements; an open object with its members, before and after the
  colon of the current one.\<close>

datatype frame = InArray "json list" | InObjectKey "(string \<times> json) list" | InObjectValue "(string \<times> json) list" string

type_synonym scanner = "scan_state \<times> frame list"

definition maxNestingDepth :: nat where "maxNestingDepth = 10000"

definition is_space :: "char \<Rightarrow> bool" where
  "is_space c \<longleftrightarrow> c = CHR '' '' \<or> c = CHR 0x0A \<or> c = CHR 0x0D \<or> c = CHR 0x09"

definition is_digit :: "char \<Rightarrow> bool" where
  "is_digit c \<longleftrightarrow> in_range 48 57 c"

definition is_hex :: "char \<Rightarrow> bool" where
  "is_hex c \<longleftrightarrow> in_range 48 57 c \<or> in_range 97 102 c \<or> in_range 65 70 c"

definition quote_char :: char where "quote_char = CHR 0x22"
definition backslash :: char where "backslash = CHR 0x5C"
definition newline_char :: char where "newline_char = CHR 0x0A"

definition push_state :: "frame \<Rightarrow> scan_state \<Rightarrow> frame list \<Rightarrow> scanner" where
  "push_state f next st = (if length st < maxNestingDepth then (next, f # st) else (ScanError, f # st))"

text \<open>A value is complete, and so is the document when nothing is open.\<close>

definition pop_state :: "json \<Rightarrow> frame list \<Rightarrow> scanner" where
  "pop_state v st = (if st = [] then EndTop v else EndValue v, st)"

definition begin_string :: "char \<Rightarrow> frame list \<Rightarrow> scanner" where
  "begin_string c st =
     (if is_space c then (BeginString, st)
      else if c = quote_char then (InString [], st)
      else (ScanError, st))"

definition begin_value :: "char \<Rightarrow> frame list \<Rightarrow> scanner" where
  "begin_value c st =
     (if is_space c then (BeginValue, st)
      else if c = CHR ''{'' then push_state (InObjectKey []) BeginStringOrEmpty st
      else if c = CHR ''['' then push_state (InArray []) BeginValueOrEmpty st
      else if c = quote_char then (InString [], st)
      else if c = CHR ''-'' then (InNumber NNeg [c], st)
      else if c = CHR ''0'' then (InNumber N0 [c], st)
      else if c = CHR ''t'' then (InLiteral ''rue'' (JBool True), st)
      else if c = CHR ''f'' then (InLiteral ''alse'' (JBool False), st)
      else if c = CHR ''n'' then (InLiteral ''ull'' JNull, st)
      else if is_digit c then (InNumber N1 [c], st)
      else (ScanError, st))"

fun literal_text :: "json \<Rightarrow> string" where
  "literal_text (JStr s) = s"
| "literal_text _ = []"

fun end_value :: "json \<Rightarrow> char \<Rightarrow> frame list \<Rightarrow> scanner" where
  "end_value v c [] = (if is_space c then EndTop v else ScanError, [])"
| "end_value v c (f # st) =
     (if is_space c then (EndValue v, f # st)
      else case f of
          InObjectKey ms \<Rightarrow>
            if c = CHR '':'' then (BeginValue, InObjectValue ms (literal_text v) # st) else (ScanError, f # st)
        | InObjectValue ms k \<Rightarrow>
            if c = CHR '','' then (BeginString, InObjectKey (ms @ [(k, v)]) # st)
            else if c = CHR ''}'' then pop_state (JObj (ms @ [(k, v)])) st
            else (ScanError, f # st)
        | InArray vs \<Rightarrow>
            if c = CHR '','' then (BeginValue, InArray (vs @ [v]) # st)
            else if c = CHR '']'' then pop_state (JArr (vs @ [v])) st
            else (ScanError, f # st))"

definition in_string :: "char \<Rightarrow> string \<Rightarrow> scan_state" where
  "in_string c s =
     (if c = quote_char then EndValue (JStr s)
      else if c = backslash then InStringEsc (s @ [c])
      else if in_range 0 0x1F c then ScanError
      else InString (s @ [c]))"

definition in_escape :: "char \<Rightarrow> string \<Rightarrow> scan_state" where
  "in_escape c s =
     (if c \<in> set ''bfnrt/'' \<or> c = backslash \<or> c = quote_char then InString (s @ [c])
      else if c = CHR ''u'' then InStringEscU 4 (s @ [c])
      else ScanError)"

definition in_escape_u :: "nat \<Rightarrow> char \<Rightarrow> string \<Rightarrow> scan_state" where
  "in_escape_u k c s =
     (if is_hex c then (if k \<le> 1 then InString (s @ [c]) else InStringEscU (k - 1) (s @ [c])) else ScanError)"

text \<open>In a number; \<open>None\<close> when the byte is the first one after it.\<close>

definition state_0 :: "char \<Rightarrow> string \<Rightarrow> scan_state option" where
  "state_0 c s =
     (if c = CHR ''.'' then Some (InNumber NDot (s @ [c]))
      else if c = CHR ''e'' \<or> c = CHR ''E'' then Some (InNumber NE (s @ [c])) else None)"

definition state_e_sign :: "char \<Rightarrow> string \<Rightarrow> scan_state option" where
  "state_e_sign c s = Some (if is_digit c then InNumber NE0 (s @ [c]) else ScanError)"

fun in_number :: "num_state \<Rightarrow> char \<Rightarrow> string \<Rightarrow> scan_state option" where
  "in_number NNeg c s = Some (if c = CHR ''0'' then InNumber N0 (s @ [c])
     else if is_digit c then InNumber N1 (s @ [c]) else ScanError)"
| "in_number N1 c s = (if is_digit c then Some (InNumber N1 (s @ [c])) else state_0 c s)"
| "in_number N0 c s = state_0 c s"
| "in_number NDot c s = Some (if is_digit c then InNumber NDot0 (s @ [c]) else ScanError)"
| "in_number NDot0 c s = (if is_digit c then Some (InNumber NDot0 (s @ [c]))
     else if c = CHR ''e'' \<or> c = CHR ''E'' then Some (InNumber NE (s @ [c])) else None)"
| "in_number NE c s = (if c = CHR ''+'' \<or> c = CHR ''-'' then Some (InNumber NESign (s @ [c])) else state_e_sign c s)"
| "in_number NESign c s = state_e_sign c s"
| "in_number NE0 c s = (if is_digit c then Some (InNumber NE0 (s @ [c])) else None)"

fun scan_step :: "char \<Rightarrow> scanner \<Rightarrow> scanner" where
  "scan_step c (BeginValue, st) = begin_value c st"
| "scan_step c (BeginValueOrEmpty, st) =
     (if is_space c then (BeginValueOrEmpty, st)
      else if c = CHR '']'' then pop_state (JArr []) (tl st)
      else begin_value c st)"
| "scan_step c (BeginString, st) = begin_string c st"
| "scan_step c (BeginStringOrEmpty, st) =
     (if is_space c then (BeginStringOrEmpty, st)
      else if c = CHR ''}'' then pop_state (JObj []) (tl st)
      else begin_string c st)"
| "scan_step c (InString s, st) = (in_string c s, st)"
| "scan_step c (InStringEsc s, st) = (in_escape c s, st)"
| "scan_step c (InStringEscU k s, st) = (in_escape_u k c s, st)"
| "scan_step c (InNumber n s, st) =
     (case in_number n c s of Some q \<Rightarrow> (q, st) | None \<Rightarrow> end_value (JNum s) c st)"
| "scan_step c (InLiteral [] v, st) = end_value v c st"
| "scan_step c (InLiteral (x # xs) v, st) =
     (if c = x then (if xs = [] then EndValue v else InLiteral xs v, st) else (ScanError, st))"
| "scan_step c (EndValue v, st) = end_value v c st"
| "scan_step c (EndTop v, st) = (if is_space c then EndTop v else ScanError, st)"
| "scan_step c (ScanError, st) = (ScanError, st)"

text \<open>At the end of the text one more space completes a number.\<close>

definition scan_eof :: "scanner \<Rightarrow> json option" where
  "scan_eof s =
     (case fst s of
        EndTop v \<Rightarrow> Some v
      | _ \<Rightarrow> (case fst (scan_step (CHR '' '') s) of EndTop v \<Rightarrow> Some v | _ \<Rightarrow> None))"

definition scan :: "string \<Rightarrow> scanner \<Rightarrow> scanner" where
  "scan = fold scan_step"

definition parse_json :: "string \<Rightarrow> json option" where
  "parse_json s = scan_eof (scan s (BeginValue, []))"

section \<open>String literals\<close>

text \<open>What the encoder writes between the quotes; it also escapes the characters that are special
  in HTML and two line separators.\<close>

definition hex_digit :: "nat \<Rightarrow> char" where
  "hex_digit d = ''0123456789abcdef'' ! d"

definition escape_char :: "char \<Rightarrow> string" where
  "escape_char c =
     (if c = quote_char \<or> c = backslash then [backslash, c]
      else if c = CHR 0x08 then backslash # ''b''
      else if c = CHR 0x0C then backslash # ''f''
      else if c = CHR 0x0A then backslash # ''n''
      else if c = CHR 0x0D then backslash # ''r''
      else if c = CHR 0x09 then backslash # ''t''
      else if in_range 0 0x1F c \<or> c \<in> set ''<>&''
        then backslash # ''u00'' @ [hex_digit (of_char c div 16), hex_digit (of_char c mod 16)]
      else [c])"

definition escape_rune :: "string \<Rightarrow> string" where
  "escape_rune r =
     (if r = [CHR 0xE2, CHR 0x80, CHR 0xA8] then backslash # ''u2028''
      else if r = [CHR 0xE2, CHR 0x80, CHR 0xA9] then backslash # ''u2029''
      else r)"

function quote_json :: "string \<Rightarrow> string" where
  "quote_json [] = []"
| "quote_json (c # s) =
     (if in_range 0 0x7F c then escape_char c @ quote_json s
      else let n = rune_size (c # s) in
        if n = 0 then (backslash # ''ufffd'') @ quote_json s
        else escape_rune (c # take (n - 1) s) @ quote_json (drop (n - 1) s))"
  by pat_completeness auto
termination by (relation "measure length") auto

text \<open>Four hexadecimal digits; \<open>getu4\<close>, the whole escape.\<close>

definition hex_val :: "char \<Rightarrow> nat" where
  "hex_val c =
     (if in_range 48 57 c then of_char c - 48 else if in_range 97 102 c then of_char c - 87 else of_char c - 55)"

definition hex4 :: "string \<Rightarrow> nat option" where
  "hex4 s =
     (if length s \<ge> 4 \<and> list_all is_hex (take 4 s) then Some (foldl (\<lambda>n c. 16 * n + hex_val c) 0 (take 4 s)) else None)"

definition getu4 :: "string \<Rightarrow> nat option" where
  "getu4 s = (if take 2 s = [backslash, CHR ''u''] then hex4 (drop 2 s) else None)"

text \<open>\<open>utf16.DecodeRune\<close>: the code point of a surrogate pair.\<close>

definition surrogate_pair :: "nat \<Rightarrow> nat option \<Rightarrow> nat option" where
  "surrogate_pair r1 o2 =
     (case o2 of
        None \<Rightarrow> None
      | Some r2 \<Rightarrow> if 0xD800 \<le> r1 \<and> r1 < 0xDC00 \<and> 0xDC00 \<le> r2 \<and> r2 < 0xE000
          then Some ((r1 - 0xD800) * 1024 + (r2 - 0xDC00) + 0x10000) else None)"

definition simple_escape :: "char \<Rightarrow> char option" where
  "simple_escape c =
     (if c = quote_char \<or> c = backslash \<or> c = CHR ''/'' \<or> c = CHR 0x27 then Some c
      else if c = CHR ''b'' then Some (CHR 0x08)
      else if c = CHR ''f'' then Some (CHR 0x0C)
      else if c = CHR ''n'' then Some (CHR 0x0A)
      else if c = CHR ''r'' then Some (CHR 0x0D)
      else if c = CHR ''t'' then Some (CHR 0x09)
      else None)"

text \<open>\<open>unquoteBytes\<close> on the text between the quotes.\<close>

function unquote_json :: "string \<Rightarrow> string option" where
  "unquote_json [] = Some []"
| "unquote_json (c # s) =
     (if c = backslash then
        (case s of
           [] \<Rightarrow> None
         | x # t \<Rightarrow>
             if x = CHR ''u'' then
               (case hex4 t of
                  None \<Rightarrow> None
                | Some r \<Rightarrow>
                    (case surrogate_pair r (getu4 (drop 4 t)) of
                       Some r' \<Rightarrow> map_option ((@) (encode_rune r')) (unquote_json (drop 10 t))
                     | None \<Rightarrow> map_option ((@) (encode_rune r)) (unquote_json (drop 4 t))))
             else
               (case simple_escape x of None \<Rightarrow> None | Some y \<Rightarrow> map_option ((#) y) (unquote_json t)))
      else if c = quote_char \<or> in_range 0 0x1F c then None
      else if in_range 0 0x7F c then map_option ((#) c) (unquote_json s)
      else let n = rune_size (c # s) in
        if n = 0 then map_option ((@) [CHR 0xEF, CHR 0xBF, CHR 0xBD]) (unquote_json s)
        else map_option ((@) (c # take (n - 1) s)) (unquote_json (drop (n - 1) s)))"
  by pat_completeness auto
termination by (relation "measure length") auto

section \<open>Layout\<close>

definition newline :: "nat \<Rightarrow> string" where
  "newline d = newline_char # replicate (2 * d) (CHR '' '')"

definition quoted :: "string \<Rightarrow> string" where
  "quoted s = quote_char # s @ [quote_char]"

text \<open>A list of printed items between brackets, one line each.\<close>

fun layout :: "nat \<Rightarrow> char \<Rightarrow> char \<Rightarrow> string list \<Rightarrow> string" where
  "layout d l r [] = [l, r]"
| "layout d l r (x # xs) =
     l # newline (Suc d) @ x @ concat (map (\<lambda>y. CHR '','' # newline (Suc d) @ y) xs) @ newline d @ [r]"

fun indent_json :: "nat \<Rightarrow> json \<Rightarrow> string" where
  "indent_json d JNull = ''null''"
| "indent_json d (JBool b) = (if b then ''true'' else ''false'')"
| "indent_json d (JNum s) = s"
| "indent_json d (JStr s) = quoted s"
| "indent_json d (JArr vs) = layout d (CHR ''['') (CHR '']'') (map (indent_json (Suc d)) vs)"
| "indent_json d (JObj ms) =
     layout d (CHR ''{'') (CHR ''}'') (map (\<lambda>m. quoted (fst m) @ '': '' @ indent_json (Suc d) (snd m)) ms)"

section \<open>What is printed is read back\<close>

lemma scan_simps [simp]:
  "scan [] s = s" "scan (c # t) s = scan t (scan_step c s)" "scan (t @ u) s = scan u (scan t s)"
  by (simp_all add: scan_def)

lemma scan_spaces: "(\<And>c. is_space c \<Longrightarrow> scan_step c s = s) \<Longrightarrow> list_all is_space t \<Longrightarrow> scan t s = s"
  by (induction t) simp_all

lemma is_space_newline: "is_space newline_char" "is_space (CHR '' '')" "list_all is_space (newline d)"
  by (simp_all add: is_space_def newline_char_def newline_def list_all_iff)

lemma scan_newline [simp]:
  "scan (newline d) (BeginValue, st) = (BeginValue, st)"
  "scan (newline d) (BeginValueOrEmpty, st) = (BeginValueOrEmpty, st)"
  "scan (newline d) (BeginString, st) = (BeginString, st)"
  "scan (newline d) (BeginStringOrEmpty, st) = (BeginStringOrEmpty, st)"
  "scan (newline d) (EndValue v, f # st) = (EndValue v, f # st)"
  by (rule scan_spaces; simp add: begin_value_def begin_string_def is_space_newline)+

text \<open>Literals the scanner takes as they are.\<close>

definition literal_ok :: "string \<Rightarrow> bool" where
  "literal_ok s \<longleftrightarrow> (\<forall>acc st. scan s (InString acc, st) = (InString (acc @ s), st))"

definition ends_value :: "char \<Rightarrow> bool" where
  "ends_value c \<longleftrightarrow> is_space c \<or> c = CHR '',''"

definition number_ok :: "string \<Rightarrow> bool" where
  "number_ok s \<longleftrightarrow> s \<noteq> [] \<and> \<not> is_space (hd s) \<and> hd s \<noteq> CHR '']''
     \<and> (\<forall>c st. ends_value c \<longrightarrow> scan (s @ [c]) (BeginValue, st) = end_value (JNum s) c st)"

text \<open>Literals the scanner takes, and at most \<open>n\<close> arrays and objects inside each other.\<close>

fun printable :: "nat \<Rightarrow> json \<Rightarrow> bool" where
  "printable n JNull = True"
| "printable n (JBool b) = True"
| "printable n (JNum s) = number_ok s"
| "printable n (JStr s) = literal_ok s"
| "printable n (JArr vs) = (0 < n \<and> (\<forall>v \<in> set vs. printable (n - 1) v))"
| "printable n (JObj ms) = (0 < n \<and> (\<forall>m \<in> set ms. literal_ok (fst m) \<and> printable (n - 1) (snd m)))"

lemma literal_ok_append: "literal_ok s \<Longrightarrow> literal_ok t \<Longrightarrow> literal_ok (s @ t)"
  by (simp add: literal_ok_def)

lemma literal_ok_Nil [simp]: "literal_ok []"
  by (simp add: literal_ok_def)

lemma scan_quoted:
  assumes "literal_ok s" "q \<in> {BeginValue, BeginValueOrEmpty, BeginString, BeginStringOrEmpty}"
  shows "scan (quoted s) (q, st) = (EndValue (JStr s), st)"
  using assms
  by (auto simp: quoted_def literal_ok_def begin_value_def begin_string_def in_string_def is_space_def quote_char_def)

lemma end_value_pop: "ends_value c \<Longrightarrow> scan_step c (pop_state v st) = end_value v c st"
  by (cases st) (auto simp: pop_state_def)

text \<open>The first byte of a value is neither a space nor a closing bracket.\<close>

lemma layout_Cons: "\<exists>t. layout d l r xs = l # t"
  by (cases xs) simp_all

lemma indent_json_start:
  "printable n j \<Longrightarrow> \<exists>x t. indent_json d j = x # t \<and> \<not> is_space x \<and> x \<noteq> CHR '']''"
proof (cases j)
  case (JArr vs)
  obtain t where "indent_json d j = CHR ''['' # t"
    using layout_Cons [of d "CHR ''[''" "CHR '']''"] JArr by (simp only: indent_json.simps) blast
  then show ?thesis by (simp add: is_space_def)
next
  case (JObj ms)
  obtain t where "indent_json d j = CHR ''{'' # t"
    using layout_Cons [of d "CHR ''{''" "CHR ''}''"] JObj by (simp only: indent_json.simps) blast
  then show ?thesis by (simp add: is_space_def)
next
  case (JNum s)
  then show "printable n j \<Longrightarrow> ?thesis" by (cases s) (simp_all add: number_ok_def)
qed (simp_all add: quoted_def quote_char_def is_space_def)

lemma begin_array_value:
  "printable n j \<Longrightarrow> scan (indent_json d j @ t) (BeginValueOrEmpty, st) = scan (indent_json d j @ t) (BeginValue, st)"
  using indent_json_start [of n j d] by auto

definition elements_text :: "nat \<Rightarrow> char \<Rightarrow> string list \<Rightarrow> string" where
  "elements_text d r xs = concat (map (\<lambda>y. CHR '','' # newline (Suc d) @ y) xs) @ newline d @ [r]"

lemma elements_text_simps:
  "elements_text d r [] = newline d @ [r]"
  "elements_text d r (x # xs) = CHR '','' # newline (Suc d) @ x @ elements_text d r xs"
  by (simp_all add: elements_text_def)

definition reads_value :: "string \<Rightarrow> json \<Rightarrow> frame list \<Rightarrow> bool" where
  "reads_value s v st \<longleftrightarrow> (\<forall>c t. ends_value c \<longrightarrow> scan (s @ c # t) (BeginValue, st) = scan t (end_value v c st))"

lemma not_space [simp]:
  "\<not> is_space (CHR '','')" "\<not> is_space (CHR '']'')" "\<not> is_space (CHR ''}'')" "\<not> is_space (CHR '':'')"
  by (simp_all add: is_space_def)

lemma reads_value_comma:
  "reads_value s v st \<Longrightarrow> scan (s @ CHR '','' # t) (BeginValue, st) = scan t (end_value v (CHR '','') st)"
  unfolding reads_value_def ends_value_def by blast

lemma reads_value_newline:
  assumes "reads_value s v (f # st)"
  shows "scan (s @ newline d @ t) (BeginValue, f # st) = scan t (EndValue v, f # st)"
proof -
  have e: "end_value v newline_char (f # st) = (EndValue v, f # st)" by (simp add: is_space_newline)
  have "ends_value newline_char" by (simp add: ends_value_def is_space_newline)
  with assms have "scan (s @ newline d @ t) (BeginValue, f # st)
      = scan (replicate (2 * d) (CHR '' '') @ t) (EndValue v, f # st)"
    unfolding reads_value_def newline_def append_Cons by (simp only: e)
  also have "scan (replicate (2 * d) (CHR '' '')) (EndValue v, f # st) = (EndValue v, f # st)"
    by (rule scan_spaces) (simp_all add: is_space_newline list_all_iff)
  then have "scan (replicate (2 * d) (CHR '' '') @ t) (EndValue v, f # st) = scan t (EndValue v, f # st)" by simp
  finally show ?thesis .
qed

lemma scan_elements:
  assumes "\<And>u xs. u \<in> set (v # vs) \<Longrightarrow> reads_value (f u) u (InArray xs # st)"
  shows "scan (f v @ elements_text d (CHR '']'') (map f vs)) (BeginValue, InArray ws # st) = pop_state (JArr (ws @ v # vs)) st"
  using assms
proof (induction vs arbitrary: v ws)
  case Nil
  then have "reads_value (f v) v (InArray ws # st)" by simp
  from reads_value_newline [OF this, of d "'']''"] show ?case
    by (simp add: elements_text_simps del: scan_simps(3))
next
  case (Cons u vs)
  then have "reads_value (f v) v (InArray ws # st)" by simp
  from reads_value_comma [OF this, of "newline (Suc d) @ f u @ elements_text d (CHR '']'') (map f vs)"]
  have "scan (f v @ elements_text d (CHR '']'') (map f (u # vs))) (BeginValue, InArray ws # st)
    = scan (newline (Suc d) @ f u @ elements_text d (CHR '']'') (map f vs)) (BeginValue, InArray (ws @ [v]) # st)"
    by (simp add: elements_text_simps del: scan_simps(3))
  also have "\<dots> = scan (f u @ elements_text d (CHR '']'') (map f vs)) (BeginValue, InArray (ws @ [v]) # st)"
    by (subst scan_simps(3)) (simp only: scan_newline)
  also have "\<dots> = pop_state (JArr ((ws @ [v]) @ u # vs)) st"
    by (rule Cons.IH) (use Cons.prems in auto)
  finally show ?case by simp
qed

definition member_text :: "(json \<Rightarrow> string) \<Rightarrow> string \<times> json \<Rightarrow> string" where
  "member_text f m = quoted (fst m) @ '': '' @ f (snd m)"

lemma scan_member:
  assumes "literal_ok (fst m)" "q \<in> {BeginString, BeginStringOrEmpty}"
  shows "scan (member_text f m @ t) (q, InObjectKey ms # st) = scan (f (snd m) @ t) (BeginValue, InObjectValue ms (fst m) # st)"
proof -
  have "scan (quoted (fst m)) (q, InObjectKey ms # st) = (EndValue (JStr (fst m)), InObjectKey ms # st)"
    by (rule scan_quoted) (use assms in auto)
  moreover have "scan '': '' (EndValue (JStr (fst m)), InObjectKey ms # st) = (BeginValue, InObjectValue ms (fst m) # st)"
    by (simp add: begin_value_def is_space_newline)
  ultimately show ?thesis unfolding member_text_def by (simp only: append_assoc scan_simps(3))
qed

lemma scan_members:
  assumes "\<And>u xs. u \<in> set (m # ms) \<Longrightarrow> literal_ok (fst u) \<and> reads_value (f (snd u)) (snd u) (InObjectValue xs (fst u) # st)"
    and "q \<in> {BeginString, BeginStringOrEmpty}"
  shows "scan (member_text f m @ elements_text d (CHR ''}'') (map (member_text f) ms)) (q, InObjectKey xs # st)
    = pop_state (JObj (xs @ m # ms)) st"
  using assms
proof (induction ms arbitrary: m xs q)
  case Nil
  then have m: "literal_ok (fst m)" "reads_value (f (snd m)) (snd m) (InObjectValue xs (fst m) # st)" by simp_all
  from reads_value_newline [OF m(2), of d "''}''"] show ?case
    by (simp add: elements_text_simps scan_member [OF m(1) Nil.prems(2)] del: scan_simps(3))
next
  case (Cons u ms)
  then have m: "literal_ok (fst m)" "reads_value (f (snd m)) (snd m) (InObjectValue xs (fst m) # st)" by simp_all
  let ?rest = "newline (Suc d) @ member_text f u @ elements_text d (CHR ''}'') (map (member_text f) ms)"
  from reads_value_comma [OF m(2), of ?rest]
  have "scan (member_text f m @ elements_text d (CHR ''}'') (map (member_text f) (u # ms))) (q, InObjectKey xs # st)
    = scan ?rest (BeginString, InObjectKey (xs @ [m]) # st)"
    by (simp add: elements_text_simps scan_member [OF m(1) Cons.prems(2)] del: scan_simps(3))
  also have "\<dots> = scan (member_text f u @ elements_text d (CHR ''}'') (map (member_text f) ms)) (BeginString, InObjectKey (xs @ [m]) # st)"
    by (subst scan_simps(3)) (simp only: scan_newline)
  also have "\<dots> = pop_state (JObj ((xs @ [m]) @ u # ms)) st"
    by (rule Cons.IH) (use Cons.prems in auto)
  finally show ?case by simp
qed

text \<open>A printed value is read, whatever ends it.\<close>

lemma reads_value_pop:
  assumes "scan s (BeginValue, st) = pop_state v st"
  shows "reads_value s v st"
  unfolding reads_value_def by (simp add: assms end_value_pop)

lemma reads_value_literal:
  assumes "scan s (BeginValue, st) = (EndValue v, st)"
  shows "reads_value s v st"
  unfolding reads_value_def by (simp add: assms)

lemma layout_elements:
  "layout d l r (x # xs) = l # newline (Suc d) @ x @ elements_text d r xs"
  by (simp add: elements_text_def)

lemma indent_json_reads:
  "printable n j \<Longrightarrow> length st + n \<le> maxNestingDepth \<Longrightarrow> reads_value (indent_json d j) j st"
proof (induction d j arbitrary: n st rule: indent_json.induct)
  case (1 d)
  show ?case by (rule reads_value_literal) (simp add: begin_value_def is_space_def quote_char_def)
next
  case (2 d b)
  show ?case by (rule reads_value_literal) (simp add: begin_value_def is_space_def quote_char_def)
next
  case (3 d s)
  then show ?case by (simp add: number_ok_def reads_value_def)
next
  case (4 d s)
  then show ?case by (intro reads_value_literal) (simp add: scan_quoted)
next
  case (5 d vs)
  then have n: "length st < maxNestingDepth" "length (InArray xs # st) + (n - 1) \<le> maxNestingDepth" for xs by auto
  have b: "scan_step (CHR ''['') (BeginValue, st) = (BeginValueOrEmpty, InArray [] # st)"
    using n(1) by (simp add: begin_value_def push_state_def is_space_def)
  show ?case
  proof (rule reads_value_pop, cases vs)
    case Nil
    then show "scan (indent_json d (JArr vs)) (BeginValue, st) = pop_state (JArr vs) st" using b by simp
  next
    case (Cons v ws)
    have p: "printable (n - 1) v" using 5 Cons by simp
    have "reads_value (indent_json (Suc d) u) u (InArray xs # st)" if "u \<in> set (v # ws)" for u xs
      by (rule 5(1) [OF _ _ n(2)]) (use 5(2) Cons that in auto)
    from scan_elements [of v ws "indent_json (Suc d)", OF this] begin_array_value [OF p] b
    show "scan (indent_json d (JArr vs)) (BeginValue, st) = pop_state (JArr vs) st"
      by (simp only: Cons indent_json.simps list.map layout_elements scan_simps(2))
        (simp only: scan_simps(3) [of "newline _"] scan_newline append_Nil)
  qed
next
  case (6 d ms)
  then have n: "length st < maxNestingDepth" "length (InObjectValue xs k # st) + (n - 1) \<le> maxNestingDepth" for xs k by auto
  have b: "scan_step (CHR ''{'') (BeginValue, st) = (BeginStringOrEmpty, InObjectKey [] # st)"
    using n(1) by (simp add: begin_value_def push_state_def is_space_def)
  have f: "indent_json d (JObj ms) = layout d (CHR ''{'') (CHR ''}'') (map (member_text (indent_json (Suc d))) ms)"
    by (simp add: member_text_def [abs_def])
  show ?case
  proof (rule reads_value_pop, cases ms)
    case Nil
    then show "scan (indent_json d (JObj ms)) (BeginValue, st) = pop_state (JObj ms) st" using b by simp
  next
    case (Cons m ws)
    have "literal_ok (fst u) \<and> reads_value (indent_json (Suc d) (snd u)) (snd u) (InObjectValue xs (fst u) # st)"
      if "u \<in> set (m # ws)" for u xs
    proof -
      have u: "u \<in> set ms" "literal_ok (fst u)" "printable (n - 1) (snd u)" using 6(2) Cons that by auto
      from 6(1) [OF u(1) u(3) n(2)] u(2) show ?thesis by simp
    qed
    from scan_members [of m ws "indent_json (Suc d)" st BeginStringOrEmpty, OF this] b
    show "scan (indent_json d (JObj ms)) (BeginValue, st) = pop_state (JObj ms) st"
      by (simp only: f) (simp only: Cons list.map layout_elements scan_simps(2)
          scan_simps(3) [of "newline _"] scan_newline append_Nil insert_iff simp_thms)
  qed
qed

lemma parse_indent_json:
  assumes "printable maxNestingDepth j"
  shows "parse_json (indent_json 0 j) = Some j"
proof -
  have "reads_value (indent_json 0 j) j []" by (rule indent_json_reads [OF assms]) simp
  then have e: "scan_step (CHR '' '') (scan (indent_json 0 j) (BeginValue, [])) = (EndTop j, [])"
  proof -
    have "scan (indent_json 0 j @ [CHR '' '']) (BeginValue, []) = scan [] (end_value j (CHR '' '') [])"
      using \<open>reads_value (indent_json 0 j) j []\<close> unfolding reads_value_def ends_value_def
      by (simp only: is_space_newline simp_thms)
    then show ?thesis by (simp add: is_space_newline)
  qed
  obtain q st where q: "scan (indent_json 0 j) (BeginValue, []) = (q, st)" by (metis surj_pair)
  with e show ?thesis
    by (cases q) (auto simp: parse_json_def scan_eof_def is_space_newline)
qed

section \<open>A torn document is none\<close>

text \<open>The states in which the text could end: nothing is open. From them no closing brace is accepted.\<close>

fun scalar_state :: "scanner \<Rightarrow> bool" where
  "scalar_state (InNumber n s, st) = (st = [])"
| "scalar_state (EndValue v, st) = (st = [])"
| "scalar_state (EndTop v, st) = (st = [])"
| "scalar_state (ScanError, st) = True"
| "scalar_state (InLiteral r v, st) = (st = [] \<and> CHR ''}'' \<notin> set r)"
| "scalar_state (q, st) = False"

lemma in_number_scalar: "in_number n c s = Some q \<Longrightarrow> scalar_state (q, [])"
  by (cases n) (auto simp: state_0_def state_e_sign_def split: if_splits)

lemma scalar_step: "scalar_state s \<Longrightarrow> scalar_state (scan_step c s)"
  by (cases "(c, s)" rule: scan_step.cases) (auto dest: in_number_scalar split: option.split)

lemma scalar_scan: "scalar_state s \<Longrightarrow> scalar_state (scan t s)"
  by (induction t arbitrary: s) (simp_all add: scalar_step)

lemma in_number_brace: "in_number n (CHR ''}'') s = Some q \<Longrightarrow> q = ScanError"
  by (cases n) (auto simp: state_0_def state_e_sign_def is_digit_def in_range_def)

lemma scalar_brace: "scalar_state s \<Longrightarrow> fst (scan_step (CHR ''}'') s) = ScanError"
  by (cases "(CHR ''}'', s)" rule: scan_step.cases) (auto dest: in_number_brace split: option.split)

text \<open>In every state of a run the end is reached with nothing open.\<close>

fun scanner_ok :: "scanner \<Rightarrow> bool" where
  "scanner_ok (EndTop v, st) = (st = [])"
| "scanner_ok (InLiteral r v, st) = (CHR ''}'' \<notin> set r)"
| "scanner_ok (q, st) = True"

lemma in_number_ok: "in_number n c s = Some q \<Longrightarrow> scanner_ok (q, st)"
  by (cases n) (auto simp: state_0_def state_e_sign_def split: if_splits)

lemma scanner_ok_parts:
  "scanner_ok (begin_value c st)" "scanner_ok (begin_string c st)" "scanner_ok (pop_state v st)"
  "scanner_ok (in_string c s, st)" "scanner_ok (in_escape c s, st)" "scanner_ok (in_escape_u k c s, st)"
  by (simp_all add: begin_value_def begin_string_def pop_state_def push_state_def in_string_def
      in_escape_def in_escape_u_def)

lemma end_value_ok: "scanner_ok (end_value v c st)"
  by (cases st) (simp_all add: scanner_ok_parts split: frame.split)

lemma scanner_ok_step: "scanner_ok s \<Longrightarrow> scanner_ok (scan_step c s)"
  by (cases "(c, s)" rule: scan_step.cases)
    (auto dest: in_number_ok simp: scanner_ok_parts end_value_ok split: option.split simp del: end_value.simps)

lemma scanner_ok_scan: "scanner_ok s \<Longrightarrow> scanner_ok (scan t s)"
  by (induction t arbitrary: s) (simp_all add: scanner_ok_step)

lemma end_value_top: "fst (end_value v c st) = EndTop w \<Longrightarrow> is_space c \<Longrightarrow> st = []"
  by (cases st) simp_all

lemma accepted_scalar:
  assumes "scan_eof s = Some v" "scanner_ok s"
  shows "scalar_state s"
proof -
  obtain q st where s: "s = (q, st)" by (metis surj_pair)
  show ?thesis
  proof (cases "\<exists>w. q = EndTop w")
    case False
    with assms(1) obtain w where w: "fst (scan_step (CHR '' '') (q, st)) = EndTop w"
      by (auto simp: scan_eof_def s split: scan_state.splits)
    have n: "in_number n (CHR '' '') t \<noteq> Some (EndTop w)" for n t
      by (cases n) (auto simp: state_0_def state_e_sign_def split: if_splits)
    show ?thesis
      using w assms(2) False s
      by (cases "(CHR '' '', q, st)" rule: scan_step.cases)
        (auto simp: n is_space_newline begin_value_def begin_string_def in_string_def in_escape_def in_escape_u_def
          dest: end_value_top split: if_splits option.splits simp del: end_value.simps)
  qed (use assms s in auto)
qed

lemma torn_object:
  assumes "parse_json (p @ t @ ''}'') = Some j"
  shows "parse_json p = None"
proof (rule ccontr)
  let ?s = "scan p (BeginValue, [])"
  assume "parse_json p \<noteq> None"
  then obtain v where "scan_eof ?s = Some v" by (auto simp: parse_json_def)
  moreover have "scanner_ok ?s" by (rule scanner_ok_scan) simp
  ultimately have "scalar_state (scan t ?s)" by (intro scalar_scan accepted_scalar)
  then have "fst (scan_step (CHR ''}'') (scan t ?s)) = ScanError" by (rule scalar_brace)
  then have "scan_eof (scan (p @ t @ ''}'') (BeginValue, [])) = None"
    by (cases "scan_step (CHR ''}'') (scan t ?s)") (simp add: scan_eof_def)
  with assms show False by (simp add: parse_json_def)
qed

section \<open>String literals are read back\<close>

lemma hex_digit_facts: "d < 16 \<Longrightarrow> is_hex (hex_digit d)" "d < 16 \<Longrightarrow> hex_val (hex_digit d) = d"
proof -
  have "\<forall>d \<in> set [0..<16]. is_hex (hex_digit d) \<and> hex_val (hex_digit d) = d" by code_simp
  then show "d < 16 \<Longrightarrow> is_hex (hex_digit d)" "d < 16 \<Longrightarrow> hex_val (hex_digit d) = d" by auto
qed

lemma plain_char_ok: "c \<noteq> quote_char \<Longrightarrow> c \<noteq> backslash \<Longrightarrow> \<not> in_range 0 0x1F c \<Longrightarrow> literal_ok [c]"
  by (simp add: literal_ok_def in_string_def)

lemma literal_ok_plain:
  "list_all (\<lambda>c. c \<noteq> quote_char \<and> c \<noteq> backslash \<and> \<not> in_range 0 0x1F c) s \<Longrightarrow> literal_ok s"
proof (induction s)
  case (Cons c s)
  then show ?case using literal_ok_append [OF plain_char_ok [of c], of s] by simp
qed simp

lemma escape_pair_ok: "x \<in> set ''bfnrt/'' \<or> x = backslash \<or> x = quote_char \<Longrightarrow> literal_ok [backslash, x]"
proof -
  have "backslash \<noteq> quote_char" by (simp add: backslash_def quote_char_def)
  then show "x \<in> set ''bfnrt/'' \<or> x = backslash \<or> x = quote_char \<Longrightarrow> literal_ok [backslash, x]"
    by (simp only: literal_ok_def scan_simps scan_step.simps in_string_def in_escape_def if_True if_False
        append_assoc append_Cons append_Nil simp_thms)
qed

lemma escape_u_ok:
  assumes "list_all is_hex [a, b, c, d]"
  shows "literal_ok (backslash # CHR ''u'' # [a, b, c, d])"
proof -
  have "backslash \<noteq> quote_char" "CHR ''u'' \<noteq> backslash" "CHR ''u'' \<noteq> quote_char" "CHR ''u'' \<notin> set ''bfnrt/''"
    by (simp_all add: backslash_def quote_char_def)
  with assms show ?thesis
    by (simp add: literal_ok_def in_string_def in_escape_def in_escape_u_def)
qed

lemma of_char_16: "in_range 0 0x7F c \<Longrightarrow> of_char c div 16 < (16 :: nat)"
  by (simp add: in_range_def)

text \<open>An escape is a backslash with one character or with four digits, or the character itself.\<close>

lemma escape_char_cases:
  obtains (pair) x where "escape_char c = [backslash, x]" "x \<in> set ''bfnrt'' \<or> x = backslash \<or> x = quote_char"
      "simple_escape x = Some c"
  | (digits) "escape_char c = backslash # CHR ''u'' # [CHR ''0'', CHR ''0'', hex_digit (of_char c div 16), hex_digit (of_char c mod 16)]"
  | (plain) "escape_char c = [c]" "c \<noteq> quote_char" "c \<noteq> backslash" "\<not> in_range 0 0x1F c"
proof -
  have q: "quote_char \<noteq> backslash" by (simp add: quote_char_def backslash_def)
  show thesis
  proof (cases "c = quote_char \<or> c = backslash")
    case True
    then show ?thesis by (intro pair [of c]) (auto simp: escape_char_def simple_escape_def)
  next
    case special: False
    show ?thesis
    proof (cases "c \<in> {CHR 0x08, CHR 0x0C, CHR 0x0A, CHR 0x0D, CHR 0x09}")
      case True
      then obtain x where "(c, x) \<in> {(CHR 0x08, CHR ''b''), (CHR 0x0C, CHR ''f''), (CHR 0x0A, CHR ''n''),
          (CHR 0x0D, CHR ''r''), (CHR 0x09, CHR ''t'')}" by blast
      then show ?thesis
        by (intro pair [of x]) (auto simp: escape_char_def simple_escape_def quote_char_def backslash_def)
    next
      case False
      then have e: "escape_char c = (if in_range 0 0x1F c \<or> c \<in> set ''<>&''
        then backslash # ''u00'' @ [hex_digit (of_char c div 16), hex_digit (of_char c mod 16)] else [c])"
        using special unfolding escape_char_def by (simp only: insert_iff de_Morgan_disj if_False simp_thms)
      show ?thesis
      proof (cases "in_range 0 0x1F c \<or> c \<in> set ''<>&''")
        case True
        with e show ?thesis by (intro digits) (simp only: if_True append_Cons append_Nil)
      next
        case False
        with e have "escape_char c = [c]" by (simp only: if_False)
        with False special show ?thesis by (intro plain) blast+
      qed
    qed
  qed
qed

lemma hex_escape_digits:
  assumes "in_range 0 0x7F c"
  shows "list_all is_hex [CHR ''0'', CHR ''0'', hex_digit (of_char c div 16), hex_digit (of_char c mod 16)]"
  using hex_digit_facts(1) [OF of_char_16 [OF assms]] hex_digit_facts(1) [of "of_char c mod 16"]
  by (simp add: is_hex_def in_range_def)

lemma escape_char_ok: "in_range 0 0x7F c \<Longrightarrow> literal_ok (escape_char c)"
  by (cases rule: escape_char_cases [of c])
    (use escape_u_ok [OF hex_escape_digits [of c]] in \<open>auto intro: escape_pair_ok plain_char_ok\<close>)

lemma unquote_escape_char:
  assumes "in_range 0 0x7F c"
  shows "unquote_json (escape_char c @ t) = map_option ((#) c) (unquote_json t)"
proof (cases rule: escape_char_cases [of c])
  case (pair x)
  then have "x \<noteq> CHR ''u''" by (auto simp: backslash_def quote_char_def)
  with pair show ?thesis by simp
next
  case digits
  let ?h = "[CHR ''0'', CHR ''0'', hex_digit (of_char c div 16), hex_digit (of_char c mod 16)]"
  have z: "hex_val (CHR ''0'') = 0" by (simp add: hex_val_def in_range_def)
  have "hex4 (?h @ t) = Some (of_char c)"
    using hex_escape_digits [OF assms] hex_digit_facts(2) [OF of_char_16 [OF assms]]
      hex_digit_facts(2) [of "of_char c mod 16"]
    by (simp add: hex4_def z)
  moreover have n: "of_char c \<le> (127 :: nat)" using assms by (simp add: in_range_def)
  then have "surrogate_pair (of_char c) r = None" for r by (simp add: surrogate_pair_def split: option.split)
  moreover have "encode_rune (of_char c) = [c]" using n by (simp add: encode_rune_def rune_bytes_def)
  moreover have "(@) [c] = (#) c" by (rule ext) simp
  ultimately show ?thesis by (simp add: digits)
next
  case plain
  with assms show ?thesis by simp
qed

lemma hex_escape:
  assumes "list_all is_hex h" "length h = 4" "foldl (\<lambda>n c. 16 * n + hex_val c) 0 h = r" "r < 0xD800 \<or> 0xDFFF < r"
  shows "unquote_json ((backslash # CHR ''u'' # h) @ t) = map_option ((@) (encode_rune r)) (unquote_json t)"
proof -
  have "hex4 (h @ t) = Some r" using assms(1-3) by (simp add: hex4_def)
  moreover have "surrogate_pair r x = None" for x using assms(4) by (auto simp: surrogate_pair_def split: option.split)
  ultimately show ?thesis using assms(2) by simp
qed

lemma named_escapes:
  "unquote_json ((backslash # ''u2028'') @ t) = map_option ((@) [CHR 0xE2, CHR 0x80, CHR 0xA8]) (unquote_json t)"
  "unquote_json ((backslash # ''u2029'') @ t) = map_option ((@) [CHR 0xE2, CHR 0x80, CHR 0xA9]) (unquote_json t)"
  "unquote_json ((backslash # ''ufffd'') @ t) = map_option ((@) [CHR 0xEF, CHR 0xBF, CHR 0xBD]) (unquote_json t)"
proof -
  have h: "list_all is_hex ''2028''" "list_all is_hex ''2029''" "list_all is_hex ''fffd''"
    "foldl (\<lambda>n c. 16 * n + hex_val c) 0 ''2028'' = 0x2028" "foldl (\<lambda>n c. 16 * n + hex_val c) 0 ''2029'' = 0x2029"
    "foldl (\<lambda>n c. 16 * n + hex_val c) 0 ''fffd'' = 0xFFFD"
    "length ''2028'' = 4" "length ''2029'' = 4" "length ''fffd'' = 4"
    by (simp_all add: is_hex_def hex_val_def in_range_def)
  have c: "(0x2028 :: nat) < 0xD800 \<or> 0xDFFF < (0x2028 :: nat)" "(0x2029 :: nat) < 0xD800 \<or> 0xDFFF < (0x2029 :: nat)"
    "(0xFFFD :: nat) < 0xD800 \<or> 0xDFFF < (0xFFFD :: nat)" by simp_all
  have r: "encode_rune 0x2028 = [CHR 0xE2, CHR 0x80, CHR 0xA8]" "encode_rune 0x2029 = [CHR 0xE2, CHR 0x80, CHR 0xA9]"
    "encode_rune 0xFFFD = [CHR 0xEF, CHR 0xBF, CHR 0xBD]"
    by (simp_all add: encode_rune_def rune_bytes_def char_of_def bit_Suc_0_iff)
  show "unquote_json ((backslash # ''u2028'') @ t) = map_option ((@) [CHR 0xE2, CHR 0x80, CHR 0xA8]) (unquote_json t)"
    by (simp only: hex_escape [OF h(1,7,4) c(1)] r)
  show "unquote_json ((backslash # ''u2029'') @ t) = map_option ((@) [CHR 0xE2, CHR 0x80, CHR 0xA9]) (unquote_json t)"
    by (simp only: hex_escape [OF h(2,8,5) c(2)] r)
  show "unquote_json ((backslash # ''ufffd'') @ t) = map_option ((@) [CHR 0xEF, CHR 0xBF, CHR 0xBD]) (unquote_json t)"
    by (simp only: hex_escape [OF h(3,9,6) c(3)] r)
qed

lemma continues_range: "continues k s \<Longrightarrow> list_all (in_range 0x80 0xBF) (take k s)"
  by (induction k s rule: continues.induct) auto

text \<open>A rune of several bytes has none that is special in a literal.\<close>

lemma rune_plain:
  assumes "\<not> in_range 0 0x7F c" "rune_size (c # s) = n" "n \<noteq> 0"
  shows "list_all (\<lambda>x. \<not> in_range 0 0x7F x) (c # take (n - 1) s)"
proof -
  have "list_all (in_range 0x80 0xBF) (take (n - 1) s)"
    using assms continues_range [of 1 s] continues_range [of 2 s] continues_range [of 3 s]
    by (auto split: if_splits simp del: continues.simps)
  then show ?thesis using assms(1) by (auto simp: list_all_iff in_range_def)
qed

lemma not_ascii_plain: "\<not> in_range 0 0x7F c \<Longrightarrow> c \<noteq> quote_char \<and> c \<noteq> backslash \<and> \<not> in_range 0 0x1F c"
  by (auto simp: in_range_def quote_char_def backslash_def)

lemma escape_rune_cases:
  "r = [CHR 0xE2, CHR 0x80, CHR 0xA8] \<and> escape_rune r = backslash # ''u2028''
   \<or> r = [CHR 0xE2, CHR 0x80, CHR 0xA9] \<and> escape_rune r = backslash # ''u2029'' \<or> escape_rune r = r"
  by (simp add: escape_rune_def)

lemma named_escapes_ok: "literal_ok (backslash # ''u2028'')" "literal_ok (backslash # ''u2029'')" "literal_ok (backslash # ''ufffd'')"
proof -
  have "list_all is_hex ''2028''" "list_all is_hex ''2029''" "list_all is_hex ''fffd''" by code_simp+
  then show "literal_ok (backslash # ''u2028'')" "literal_ok (backslash # ''u2029'')" "literal_ok (backslash # ''ufffd'')"
    by (simp_all only: escape_u_ok)
qed

lemma escape_rune_ok:
  assumes "list_all (\<lambda>x. \<not> in_range 0 0x7F x) r"
  shows "literal_ok (escape_rune r)"
proof -
  have "list_all (\<lambda>c. c \<noteq> quote_char \<and> c \<noteq> backslash \<and> \<not> in_range 0 0x1F c) r"
    using assms not_ascii_plain unfolding list_all_iff by blast
  then have "literal_ok r" by (rule literal_ok_plain)
  with escape_rune_cases [of r] named_escapes_ok(1,2) show ?thesis by (elim disjE conjE) simp_all
qed

lemma quote_json_ok: "literal_ok (quote_json s)"
proof (induction s rule: quote_json.induct)
  case (2 c s)
  let ?n = "rune_size (c # s)"
  consider "in_range 0 0x7F c" | "\<not> in_range 0 0x7F c" "?n = 0" | "\<not> in_range 0 0x7F c" "?n \<noteq> 0" by blast
  then show ?case
  proof cases
    case 1
    with 2(1) show ?thesis by (simp add: literal_ok_append escape_char_ok)
  next
    case c: 2
    with 2(2) [OF c(1) refl] literal_ok_append [OF named_escapes_ok(3)] show ?thesis by (simp add: Let_def)
  next
    case c: 3
    from literal_ok_append [OF escape_rune_ok [OF rune_plain [OF c(1) refl c(2)]] 2(3) [OF c(1) refl c(2)]] c
    show ?thesis by (simp only: quote_json.simps Let_def if_False simp_thms)
  qed
qed simp

lemma unquote_rune:
  assumes "\<not> in_range 0 0x7F c" "rune_size (c # s) = n" "n \<noteq> 0"
  shows "unquote_json (escape_rune (c # take (n - 1) s) @ t) = map_option ((@) (c # take (n - 1) s)) (unquote_json t)"
  using escape_rune_cases [of "c # take (n - 1) s"]
proof (elim disjE conjE)
  assume "escape_rune (c # take (n - 1) s) = c # take (n - 1) s"
  moreover have "rune_size (c # take (n - 1) s @ t) = n" by (rule rune_size_take [OF assms(2,3)])
  moreover have "length (take (n - 1) s) = n - 1" using rune_size_bound [of c s] assms(2) by simp
  ultimately show ?thesis
    using assms(1,3) not_ascii_plain [OF assms(1)] by (simp add: Let_def del: rune_size.simps)
qed (simp_all only: named_escapes)

lemma unquote_quote_json: "unquote_json (quote_json s) = Some (to_valid s)"
proof (induction s rule: quote_json.induct)
  case (2 c s)
  let ?n = "rune_size (c # s)"
  consider "in_range 0 0x7F c" | "\<not> in_range 0 0x7F c" "?n = 0" | "\<not> in_range 0 0x7F c" "?n \<noteq> 0" by blast
  then show ?case
  proof cases
    case 1
    with 2(1) show ?thesis by (simp add: unquote_escape_char)
  next
    case c: 2
    with 2(2) [OF c(1) refl] named_escapes(3) show ?thesis by (simp add: Let_def)
  next
    case c: 3
    from unquote_rune [OF c(1) refl c(2)] 2(3) [OF c(1) refl c(2)] c
    show ?thesis by (simp only: quote_json.simps to_valid.simps Let_def if_False simp_thms option.map append_Cons)
  qed
qed simp

section \<open>Integers\<close>

definition int_text :: "int \<Rightarrow> string" where
  "int_text i = (if i < 0 then CHR ''-'' # decimal (nat (- i)) else decimal (nat i))"

text \<open>\<open>strconv.ParseInt(s, 10, 64)\<close>.\<close>

definition ParseInt64 :: "string \<Rightarrow> int option" where
  "ParseInt64 s =
     (let neg = (take 1 s = ''-''); t = (if neg \<or> take 1 s = ''+'' then drop 1 s else s);
          i = (if neg then - int (dec_val t) else int (dec_val t))
      in if t = [] \<or> \<not> list_all is_digit t then None
         else if - (2 ^ 63) \<le> i \<and> i < 2 ^ 63 then Some i else None)"

lemma digit_char_facts:
  "d < 10 \<Longrightarrow> is_digit (digit_char d)"
  "d < 10 \<Longrightarrow> digit_char d \<noteq> CHR ''-'' \<and> digit_char d \<noteq> CHR ''+'' \<and> \<not> is_space (digit_char d) \<and> digit_char d \<noteq> CHR '']''"
  "0 < d \<Longrightarrow> d < 10 \<Longrightarrow> begin_value (digit_char d) st = (InNumber N1 [digit_char d], st)"
  "0 < d \<Longrightarrow> d < 10 \<Longrightarrow> digit_char d \<noteq> CHR ''0''"
proof -
  have a: "\<forall>d \<in> set [0..<10]. is_digit (digit_char d) \<and> digit_char d \<noteq> CHR ''-'' \<and> digit_char d \<noteq> CHR ''+''
      \<and> \<not> is_space (digit_char d) \<and> digit_char d \<noteq> CHR '']'' \<and> (0 < d \<longrightarrow> digit_char d \<noteq> CHR ''0'')
      \<and> digit_char d \<notin> set ''{[tfn'' \<and> digit_char d \<noteq> quote_char"
    by code_simp
  then show "d < 10 \<Longrightarrow> is_digit (digit_char d)"
    "d < 10 \<Longrightarrow> digit_char d \<noteq> CHR ''-'' \<and> digit_char d \<noteq> CHR ''+'' \<and> \<not> is_space (digit_char d) \<and> digit_char d \<noteq> CHR '']''"
    "0 < d \<Longrightarrow> d < 10 \<Longrightarrow> digit_char d \<noteq> CHR ''0''" by simp_all
  from a show "0 < d \<Longrightarrow> d < 10 \<Longrightarrow> begin_value (digit_char d) st = (InNumber N1 [digit_char d], st)"
    by (simp add: begin_value_def)
qed

lemma decimal_start:
  "0 < n \<Longrightarrow> \<exists>d t. decimal n = digit_char d # t \<and> 0 < d \<and> d < 10 \<and> list_all is_digit t"
proof (induction n rule: decimal.induct)
  case (1 n)
  show ?case
  proof (cases "n < 10")
    case True
    then show ?thesis using 1(2) by (simp add: decimal.simps [of n]) blast
  next
    case False
    then have "decimal n = decimal (n div 10) @ [digit_char (n mod 10)]" by (subst decimal.simps) simp
    moreover from 1 False obtain d t where "decimal (n div 10) = digit_char d # t" "0 < d" "d < 10" "list_all is_digit t"
      using div_greater_zero_iff [of n 10] by auto
    ultimately have "decimal n = digit_char d # t @ [digit_char (n mod 10)] \<and> 0 < d \<and> d < 10
        \<and> list_all is_digit (t @ [digit_char (n mod 10)])" by (simp add: digit_char_facts)
    then show ?thesis by blast
  qed
qed

lemma scan_digits: "list_all is_digit t \<Longrightarrow> scan t (InNumber N1 s, st) = (InNumber N1 (s @ t), st)"
  by (induction t arbitrary: s) simp_all

lemma ends_number: "ends_value c \<Longrightarrow> \<not> is_digit c \<and> in_number N1 c s = None \<and> in_number N0 c s = None \<and> state_0 c s = None"
  by (auto simp: ends_value_def is_space_def is_digit_def in_range_def state_0_def)

lemma decimal_zero: "decimal 0 = ''0''"
proof -
  have "digit_char 0 = CHR ''0''" by code_simp
  then show ?thesis by (simp add: decimal.simps [of 0])
qed

lemma number_ok_int: "number_ok (int_text i)"
proof (cases "i = 0")
  case True
  have "begin_value (CHR ''0'') st = (InNumber N0 ''0'', st)" for st
    by (simp add: begin_value_def is_space_def quote_char_def)
  then show ?thesis using True by (simp add: number_ok_def int_text_def decimal_zero is_space_def ends_number)
next
  case False
  then obtain d t where d: "decimal (nat \<bar>i\<bar>) = digit_char d # t" "0 < d" "d < 10" "list_all is_digit t"
    using decimal_start [of "nat \<bar>i\<bar>"] by auto
  have m: "begin_value (CHR ''-'') st = (InNumber NNeg ''-'', st)" for st
    by (simp add: begin_value_def is_space_def quote_char_def)
  from d show ?thesis
    by (cases "i < 0")
      (simp_all add: number_ok_def int_text_def digit_char_facts scan_digits ends_number m, simp add: is_space_def)
qed

lemma ParseInt64_text: "- (2 ^ 63) \<le> i \<Longrightarrow> i < 2 ^ 63 \<Longrightarrow> ParseInt64 (int_text i) = Some i"
proof -
  assume i: "- (2 ^ 63) \<le> i" "i < 2 ^ 63"
  have d: "list_all is_digit (decimal n) \<and> take 1 (decimal n) \<noteq> ''-'' \<and> take 1 (decimal n) \<noteq> ''+''" for n
  proof (cases "n = 0")
    case True
    then show ?thesis by (simp add: decimal_zero is_digit_def in_range_def)
  next
    case False
    then obtain d t where "decimal n = digit_char d # t" "0 < d" "d < 10" "list_all is_digit t"
      using decimal_start [of n] by auto
    then show ?thesis by (simp add: digit_char_facts)
  qed
  from i d [of "nat \<bar>i\<bar>"] show ?thesis
    by (cases "i < 0") (simp_all add: int_text_def ParseInt64_def Let_def dec_val_decimal)
qed

lemma printable_mono: "printable n j \<Longrightarrow> n \<le> k \<Longrightarrow> printable k j"
proof (induction n j arbitrary: k rule: printable.induct)
  case (5 n vs)
  then have "printable (k - 1) v" if "v \<in> set vs" for v using that by auto
  with 5 show ?case by simp
next
  case (6 n ms)
  then have "printable (k - 1) (snd m)" if "m \<in> set ms" for m using that by (cases m) auto
  with 6 show ?case by simp
qed simp_all

text \<open>What is read is well-formed UTF-8, whatever the literal.\<close>

lemma to_valid_ascii: "in_range 0 0x7F c \<Longrightarrow> to_valid (c # t) = c # to_valid t"
  by simp

lemma simple_escape_ascii: "simple_escape x = Some y \<Longrightarrow> in_range 0 0x7F y"
  by (auto simp: simple_escape_def quote_char_def backslash_def in_range_def split: if_splits)

lemma unquote_json_valid: "unquote_json s = Some r \<Longrightarrow> to_valid r = r"
proof (induction s arbitrary: r rule: unquote_json.induct)
  case (2 c s)
  have fffd: "to_valid ([CHR 0xEF, CHR 0xBF, CHR 0xBD] @ t) = [CHR 0xEF, CHR 0xBF, CHR 0xBD] @ to_valid t" for t
    by (rule to_valid_full) (simp_all add: in_range_def second_in_def numeral_2_eq_2)
  let ?n = "rune_size (c # s)"
  consider (esc) "c = backslash" | (plain) "c \<noteq> backslash" "\<not> (c = quote_char \<or> in_range 0 0x1F c)" "in_range 0 0x7F c"
    | (bad) "c \<noteq> backslash" "\<not> (c = quote_char \<or> in_range 0 0x1F c)" "\<not> in_range 0 0x7F c" "?n = 0"
    | (rune) "c \<noteq> backslash" "\<not> (c = quote_char \<or> in_range 0 0x1F c)" "\<not> in_range 0 0x7F c" "?n \<noteq> 0"
  proof -
    have "c = backslash \<or> \<not> (c = quote_char \<or> in_range 0 0x1F c)"
      using 2(7) by (auto simp del: rune_size.simps)
    then show thesis using that by blast
  qed
  then show ?case
  proof cases
    case esc
    then obtain x t where s: "s = x # t" using 2(7) by (cases s) auto
    show ?thesis
    proof (cases "x = CHR ''u''")
      case True
      then obtain u where u: "hex4 t = Some u" using 2(7) esc s by (auto split: option.splits)
      show ?thesis
      proof (cases "surrogate_pair u (getu4 (drop 4 t))")
        case None
        with 2(7) esc s True u obtain r' where "unquote_json (drop 4 t) = Some r'" "r = encode_rune u @ r'" by auto
        with 2(1) [OF esc s True u None] show ?thesis by (simp add: to_valid_encode_rune)
      next
        case (Some v)
        with 2(7) esc s True u obtain r' where "unquote_json (drop 10 t) = Some r'" "r = encode_rune v @ r'" by auto
        with 2(2) [OF esc s True u Some] show ?thesis by (simp add: to_valid_encode_rune)
      qed
    next
      case False
      with 2(7) esc s obtain y r' where y: "simple_escape x = Some y" "unquote_json t = Some r'" "r = y # r'"
        by (auto split: option.splits)
      with 2(3) [OF esc s False y(1)] to_valid_ascii [OF simple_escape_ascii [OF y(1)]] show ?thesis by simp
    qed
  next
    case plain
    with 2(7) obtain r' where "unquote_json s = Some r'" "r = c # r'" by auto
    with 2(4) [OF plain] plain(3) show ?thesis by simp
  next
    case bad
    with 2(7) obtain r' where "unquote_json s = Some r'" "r = [CHR 0xEF, CHR 0xBF, CHR 0xBD] @ r'"
      by (auto simp del: rune_size.simps)
    with 2(5) [OF bad(1-3) refl bad(4)] fffd [of r'] show ?thesis by simp
  next
    case rune
    with 2(7) obtain r' where "unquote_json (drop (?n - 1) s) = Some r'" "r = (c # take (?n - 1) s) @ r'"
      by (auto simp: Let_def simp del: rune_size.simps)
    with 2(6) [OF rune(1-3) refl rune(4)] to_valid_rune [OF refl rune(4), of r'] show ?thesis by simp
  qed
qed simp

end
