(* ===== verification/Go_RFC3339.thy ===== *)
theory Go_RFC3339
  imports Go_Time Go_JSON
begin

text \<open>
  Go's \<open>time.Time\<close> as \<open>kozi-cli\<close> uses it: a wall clock with its zone, \<open>Format(time.RFC3339)\<close>,
  \<open>MarshalJSON\<close> and \<open>UnmarshalJSON\<close>. A time that can be marshalled is read back unchanged.
\<close>

section \<open>Times\<close>

text \<open>
  Seconds since 1 January of the year 1 on the clock of the time's zone, nanoseconds, and the
  zone's offset from UTC in seconds. The zone of a parsed time is the one its text names.
\<close>

record gotime =
  t_local :: int
  t_nsec :: nat
  t_offset :: int

definition zero_time :: gotime where "zero_time = \<lparr>t_local = 0, t_nsec = 0, t_offset = 0\<rparr>"

definition IsZero :: "gotime \<Rightarrow> bool" where
  "IsZero t \<longleftrightarrow> t_local t - t_offset t = 0 \<and> t_nsec t = 0"

text \<open>Seconds since the Unix epoch.\<close>

definition unix_time :: "gotime \<Rightarrow> int" where
  "unix_time t = t_local t - t_offset t - 62135596800"

section \<open>Printing\<close>

definition two_digits :: "nat \<Rightarrow> string" where
  "two_digits n = zero_pad 2 (decimal n)"

definition clock_text :: "gotime \<Rightarrow> string" where
  "clock_text t =
     (case civil (t_local t div 86400) of (y, m, d) \<Rightarrow>
        let s = nat (t_local t mod 86400) in
        year_text y @ ''-'' @ two_digits m @ ''-'' @ two_digits d @ ''T''
          @ two_digits (s div 3600) @ '':'' @ two_digits (s div 60 mod 60) @ '':'' @ two_digits (s mod 60))"

text \<open>The fraction without its trailing zeros.\<close>

definition strip_zeros :: "string \<Rightarrow> string" where
  "strip_zeros s = rev (dropWhile (\<lambda>c. c = CHR ''0'') (rev s))"

definition fraction_text :: "nat \<Rightarrow> string" where
  "fraction_text n = (if n = 0 then [] else CHR ''.'' # strip_zeros (zero_pad 9 (decimal n)))"

text \<open>The offset in minutes, rounded towards zero.\<close>

definition zone_minutes :: "int \<Rightarrow> nat" where
  "zone_minutes offset = nat \<bar>offset\<bar> div 60"

definition zone_text :: "int \<Rightarrow> string" where
  "zone_text offset =
     (if offset = 0 then ''Z''
      else (if offset < 0 \<and> zone_minutes offset > 0 then CHR ''-'' else CHR ''+'')
        # two_digits (zone_minutes offset div 60) @ '':'' @ two_digits (zone_minutes offset mod 60))"

definition FormatRFC3339 :: "gotime \<Rightarrow> string" where
  "FormatRFC3339 t = clock_text t @ zone_text (t_offset t)"

definition FormatRFC3339Nano :: "gotime \<Rightarrow> string" where
  "FormatRFC3339Nano t = clock_text t @ fraction_text (t_nsec t) @ zone_text (t_offset t)"

text \<open>\<open>MarshalJSON\<close>, without the quotes.\<close>

definition Time_MarshalJSON :: "gotime \<Rightarrow> string result" where
  "Time_MarshalJSON t =
     (let y = fst (civil (t_local t div 86400)) in
      if y < 0 \<or> 9999 < y then Inl (ErrNew ''Time.MarshalJSON: year outside of range [0,9999]'')
      else if t_offset t \<noteq> 0 \<and> zone_minutes (t_offset t) div 60 \<ge> 24
      then Inl (ErrNew ''Time.MarshalJSON: timezone hour outside of range [0,23]'')
      else Inr (FormatRFC3339Nano t))"

section \<open>Reading\<close>

definition parse_uint :: "string \<Rightarrow> nat \<Rightarrow> nat \<Rightarrow> nat option" where
  "parse_uint s lo hi =
     (if list_all is_digit s \<and> lo \<le> dec_val s \<and> dec_val s \<le> hi then Some (dec_val s) else None)"

definition slice :: "string \<Rightarrow> nat \<Rightarrow> nat \<Rightarrow> string" where
  "slice s i j = take (j - i) (drop i s)"

definition days_in :: "nat \<Rightarrow> nat \<Rightarrow> nat" where
  "days_in m y = month_lengths (is_leap (int y)) ! (m - 1)"

text \<open>Days from 1 January of the year 1.\<close>

definition day_number :: "int \<Rightarrow> nat \<Rightarrow> nat \<Rightarrow> int" where
  "day_number y m d =
     365 * (y - 1) + (y - 1) div 4 - (y - 1) div 100 + (y - 1) div 400
       + int (sum_list (take (m - 1) (month_lengths (is_leap y)))) + int d - 1"

definition wall_clock :: "nat \<Rightarrow> nat \<Rightarrow> nat \<Rightarrow> nat \<Rightarrow> nat \<Rightarrow> nat \<Rightarrow> int" where
  "wall_clock y mo d h mi s = 86400 * day_number (int y) mo d + 3600 * int h + 60 * int mi + int s"

text \<open>Digits after the separator; those from the tenth on are ignored.\<close>

definition nanoseconds :: "string \<Rightarrow> nat" where
  "nanoseconds ds = dec_val (take 9 ds) * 10 ^ (9 - length (take 9 ds))"

definition read_fraction :: "string \<Rightarrow> string \<Rightarrow> nat \<times> string" where
  "read_fraction seps s =
     (if length s \<ge> 2 \<and> hd s \<in> set seps \<and> is_digit (s ! 1)
      then (let ds = takeWhile is_digit (tl s) in (nanoseconds ds, drop (length ds) (tl s)))
      else (0, s))"

definition zone_offset :: "char \<Rightarrow> nat \<Rightarrow> nat \<Rightarrow> int" where
  "zone_offset sign hr mm = (if sign = CHR ''-'' then -1 else 1) * (int hr * 60 + int mm) * 60"

text \<open>\<open>parseRFC3339\<close>: the fixed layout.\<close>

definition read_zone_fixed :: "string \<Rightarrow> int option" where
  "read_zone_fixed s =
     (if s = ''Z'' then Some 0
      else if length s \<noteq> 6 \<or> s ! 0 \<notin> set ''+-'' \<or> s ! 3 \<noteq> CHR '':'' then None
      else Option.bind (parse_uint (slice s 1 3) 0 23) (\<lambda>hr.
           Option.bind (parse_uint (slice s 4 6) 0 59) (\<lambda>mm. Some (zone_offset (s ! 0) hr mm))))"

definition parse_fixed :: "string \<Rightarrow> gotime option" where
  "parse_fixed s =
     (if length s < 19 then None
      else
        Option.bind (parse_uint (slice s 0 4) 0 9999) (\<lambda>y.
        Option.bind (parse_uint (slice s 5 7) 1 12) (\<lambda>mo.
        Option.bind (parse_uint (slice s 8 10) 1 (days_in mo y)) (\<lambda>d.
        Option.bind (parse_uint (slice s 11 13) 0 23) (\<lambda>h.
        Option.bind (parse_uint (slice s 14 16) 0 59) (\<lambda>mi.
        Option.bind (parse_uint (slice s 17 19) 0 59) (\<lambda>sec.
        if s ! 4 = CHR ''-'' \<and> s ! 7 = CHR ''-'' \<and> s ! 10 = CHR ''T'' \<and> s ! 13 = CHR '':'' \<and> s ! 16 = CHR '':''
        then (case read_fraction ''.'' (drop 19 s) of (ns, r) \<Rightarrow>
          map_option (\<lambda>off. \<lparr>t_local = wall_clock y mo d h mi sec, t_nsec = ns, t_offset = off\<rparr>) (read_zone_fixed r))
        else None)))))))"

text \<open>
  \<open>Parse\<close> with the layout \<open>time.RFC3339\<close>, which \<open>parseStrictRFC3339\<close> falls back on: it also takes
  an hour of one digit, a comma before the fraction, and offsets of 24 hours or 60 minutes.
\<close>

definition getnum :: "bool \<Rightarrow> string \<Rightarrow> (nat \<times> string) option" where
  "getnum fixed s =
     (case s of
        [] \<Rightarrow> None
      | a # t \<Rightarrow>
          if \<not> is_digit a then None
          else if t = [] \<or> \<not> is_digit (hd t) then (if fixed then None else Some (dec_val [a], t))
          else Some (dec_val [a, hd t], tl t))"

definition skip_char :: "char \<Rightarrow> string \<Rightarrow> string option" where
  "skip_char c s = (case s of [] \<Rightarrow> None | x # t \<Rightarrow> if x = c then Some t else None)"

definition read_zone :: "string \<Rightarrow> (int \<times> string) option" where
  "read_zone s =
     (if take 1 s = ''Z'' then Some (0, drop 1 s)
      else if length s < 6 \<or> s ! 3 \<noteq> CHR '':'' \<or> s ! 0 \<notin> set ''+-'' then None
      else Option.bind (getnum True (slice s 1 3)) (\<lambda>(hr, _).
           Option.bind (getnum True (slice s 4 6)) (\<lambda>(mm, _).
           if hr > 24 \<or> mm > 60 then None else Some (zone_offset (s ! 0) hr mm, drop 6 s))))"

definition read_year :: "string \<Rightarrow> (nat \<times> string) option" where
  "read_year s = (if length s < 4 then None else map_option (\<lambda>y. (y, drop 4 s)) (parse_uint (take 4 s) 0 9999))"

definition guard :: "bool \<Rightarrow> unit option" where
  "guard b = (if b then Some () else None)"

definition parse_layout :: "string \<Rightarrow> gotime option" where
  "parse_layout s =
     Option.bind (read_year s) (\<lambda>(y, s).
     Option.bind (skip_char (CHR ''-'') s) (\<lambda>s.
     Option.bind (getnum True s) (\<lambda>(mo, s).
     Option.bind (guard (1 \<le> mo \<and> mo \<le> 12)) (\<lambda>_.
     Option.bind (skip_char (CHR ''-'') s) (\<lambda>s.
     Option.bind (getnum True s) (\<lambda>(d, s).
     Option.bind (skip_char (CHR ''T'') s) (\<lambda>s.
     Option.bind (getnum False s) (\<lambda>(h, s).
     Option.bind (guard (h < 24)) (\<lambda>_.
     Option.bind (skip_char (CHR '':'') s) (\<lambda>s.
     Option.bind (getnum True s) (\<lambda>(mi, s).
     Option.bind (guard (mi < 60)) (\<lambda>_.
     Option.bind (skip_char (CHR '':'') s) (\<lambda>s.
     Option.bind (getnum True s) (\<lambda>(sec, s).
     Option.bind (guard (sec < 60)) (\<lambda>_.
     (case read_fraction ''.,'' s of (ns, s) \<Rightarrow>
     Option.bind (read_zone s) (\<lambda>(off, s).
     Option.bind (guard (s = [] \<and> 1 \<le> d \<and> d \<le> days_in mo y)) (\<lambda>_.
     Some \<lparr>t_local = wall_clock y mo d h mi sec, t_nsec = ns, t_offset = off\<rparr>))))))))))))))))))"

text \<open>\<open>UnmarshalJSON\<close> of the text between the quotes.\<close>

definition Time_UnmarshalJSON :: "string \<Rightarrow> gotime option" where
  "Time_UnmarshalJSON s = (case parse_fixed s of Some t \<Rightarrow> Some t | None \<Rightarrow> parse_layout s)"

section \<open>What is printed is read back\<close>

text \<open>Times \<open>MarshalJSON\<close> accepts, in a zone of whole minutes.\<close>

definition time_ok :: "gotime \<Rightarrow> bool" where
  "time_ok t \<longleftrightarrow> t_nsec t < 10 ^ 9 \<and> t_offset t mod 60 = 0 \<and> \<bar>t_offset t\<bar> < 86400
     \<and> 0 \<le> fst (civil (t_local t div 86400)) \<and> fst (civil (t_local t div 86400)) \<le> 9999"

lemma zone_hours: "\<bar>off\<bar> < 86400 \<longleftrightarrow> zone_minutes off div 60 < 24"
proof -
  have "zone_minutes off div 60 = nat \<bar>off\<bar> div 3600" by (simp add: zone_minutes_def flip: div_mult2_eq)
  moreover have "nat \<bar>off\<bar> div 3600 < 24 \<longleftrightarrow> nat \<bar>off\<bar> < 24 * 3600" by (rule div_less_iff_less_mult) simp
  ultimately show ?thesis by (simp add: nat_less_iff)
qed

lemma Time_MarshalJSON_ok: "time_ok t \<Longrightarrow> Time_MarshalJSON t = Inr (FormatRFC3339Nano t)"
  by (simp add: time_ok_def Time_MarshalJSON_def Let_def zone_hours)

lemma day_number_civil:
  assumes "civil day = (y, m, d)"
  shows "day_number y m d = day" "0 \<le> y \<Longrightarrow> d \<le> days_in m (nat y)"
proof -
  obtain y' yday where y: "year_yday day = (y', yday)" by (metis surj_pair)
  let ?ls = "month_lengths (is_leap (y' + 1))"
  have md: "month_day ?ls 1 (nat yday) = (m, d)" and yy: "y = y' + 1"
    using assms y by (auto simp: civil_def simp del: One_nat_def)
  from month_day_inverse [OF md] have s: "nat yday + 1 = sum_list (take (m - 1) ?ls) + d" by blast
  note yd = year_yday_inverse [OF y]
  have "int (nat yday) + 1 = int (sum_list (take (m - 1) ?ls)) + int d" using s by linarith
  with yd(1,2) show "day_number y m d = day" by (simp add: day_number_def yy)
  have lt: "nat yday < sum_list ?ls"
    using yd(2,3) by (simp add: month_lengths_facts nat_less_iff)
  have "x \<le> ls ! (m' - k)" if "month_day ls k n = (m', x)" "n < sum_list ls" for ls k n m' x
    using that
  proof (induction ls k n rule: month_day.induct)
    case (2 l ls k n)
    show ?case
    proof (cases "n < l")
      case False
      with 2 have "x \<le> ls ! (m' - (k + 1))" "k + 1 \<le> m'" using month_day_inverse [of ls "k + 1" "n - l"] by auto
      then have "m' - k = Suc (m' - (k + 1))" by simp
      with \<open>x \<le> ls ! (m' - (k + 1))\<close> show ?thesis by simp
    qed (use 2 in auto)
  qed simp
  from this [OF md lt] show "0 \<le> y \<Longrightarrow> d \<le> days_in m (nat y)" by (simp add: days_in_def yy)
qed

lemma parse_uint_pad:
  assumes "lo \<le> n" "n \<le> hi"
  shows "parse_uint (zero_pad w (decimal n)) lo hi = Some n"
proof -
  have z: "is_digit (CHR ''0'')" by (simp add: is_digit_def in_range_def)
  have "list_all is_digit (decimal n)"
    using decimal_start [of n] by (cases "n = 0") (auto simp: decimal_zero z digit_char_facts)
  then have "list_all is_digit (zero_pad w (decimal n))" by (auto simp: zero_pad_def list_all_iff z)
  with assms show ?thesis by (simp add: parse_uint_def dec_val_pad dec_val_decimal)
qed

lemma length_decimal: "0 < k \<Longrightarrow> n < 10 ^ k \<Longrightarrow> length (decimal n) \<le> k"
proof (induction k arbitrary: n)
  case (Suc k)
  show ?case
  proof (cases "n < 10")
    case True
    then show ?thesis by (simp add: decimal.simps [of n])
  next
    case False
    then have "0 < k" using Suc.prems by (cases k) simp_all
    moreover have "n div 10 < 10 ^ k" using Suc.prems(2) by (simp add: div_less_iff_less_mult mult.commute)
    ultimately have "length (decimal (n div 10)) \<le> k" by (rule Suc.IH)
    with False show ?thesis by (subst decimal.simps) simp
  qed
qed simp

lemma length_pad: "0 < w \<Longrightarrow> n < 10 ^ w \<Longrightarrow> length (zero_pad w (decimal n)) = w"
  using length_decimal [of w n] by (simp add: zero_pad_def)

text \<open>Fractions.\<close>

lemma dec_val_zeros: "dec_val (s @ replicate k (CHR ''0'')) = dec_val s * 10 ^ k"
proof (induction k arbitrary: s)
  case (Suc k)
  have "digit_val (CHR ''0'') = Some 0" by code_simp
  then have "dec_val (s @ ''0'') = dec_val s * 10" by (simp add: dec_val_def)
  with Suc [of "s @ ''0''"] show ?case by (simp add: replicate_append_same [symmetric])
qed simp

lemma strip_zeros_split: "s = strip_zeros s @ replicate (length s - length (strip_zeros s)) (CHR ''0'')"
proof -
  let ?P = "\<lambda>c. c = CHR ''0''"
  have "takeWhile ?P xs = replicate (length (takeWhile ?P xs)) (CHR ''0'')" for xs
    by (induction xs) simp_all
  then have "rev (takeWhile ?P (rev s)) = replicate (length (takeWhile ?P (rev s))) (CHR ''0'')"
    by (metis rev_replicate)
  moreover have "s = strip_zeros s @ rev (takeWhile ?P (rev s))"
    unfolding strip_zeros_def by (metis rev_append rev_rev_ident takeWhile_dropWhile_id)
  moreover from this have "length (takeWhile ?P (rev s)) = length s - length (strip_zeros s)"
    by (metis add_diff_cancel_left' length_append length_rev)
  ultimately show ?thesis by metis
qed

lemma read_fraction_text:
  assumes "n < 10 ^ 9" "r \<noteq> []" "\<not> is_digit (hd r)" "hd r \<noteq> CHR ''.''"
  shows "read_fraction ''.'' (fraction_text n @ r) = (n, r)"
proof (cases "n = 0")
  case True
  with assms show ?thesis by (simp add: fraction_text_def read_fraction_def)
next
  case False
  let ?p = "zero_pad 9 (decimal n)"
  let ?ds = "strip_zeros ?p"
  have len: "length ?p = 9" using length_pad [of 9 n] assms(1) by simp
  note sp = strip_zeros_split [of ?p]
  then have "length ?ds \<le> 9" using len by (metis length_append le_add1)
  moreover have "dec_val ?ds * 10 ^ (9 - length ?ds) = n"
    using arg_cong [OF sp, of dec_val] len by (simp add: dec_val_zeros dec_val_pad dec_val_decimal)
  ultimately have ns: "nanoseconds ?ds = n" by (simp add: nanoseconds_def)
  have "?ds \<noteq> []" using ns False by (auto simp: nanoseconds_def dec_val_def)
  have p: "list_all is_digit ?p" using parse_uint_pad [of 0 n n 9] by (simp add: parse_uint_def split: if_splits)
  have "set ?ds \<subseteq> set ?p" by (subst (2) sp) simp
  with p have ds: "list_all is_digit ?ds" by (auto simp: list_all_iff)
  have "takeWhile is_digit (?ds @ r) = ?ds"
    using ds assms(2,3) by (subst takeWhile_append2) (auto simp: list_all_iff neq_Nil_conv)
  moreover obtain d ds' where "?ds = d # ds'" "is_digit d" using \<open>?ds \<noteq> []\<close> ds by (cases ?ds) auto
  ultimately show ?thesis using False ns assms(2) by (simp add: fraction_text_def read_fraction_def Let_def)
qed

text \<open>Zones.\<close>

lemma length_two_digits: "n < 100 \<Longrightarrow> length (two_digits n) = 2"
  by (simp add: two_digits_def length_pad_2)

lemma zone_text_start: "zone_text off \<noteq> []" "\<not> is_digit (hd (zone_text off))" "hd (zone_text off) \<noteq> CHR ''.''"
  by (simp_all add: zone_text_def is_digit_def in_range_def)

lemma read_zone_text:
  assumes "off mod 60 = 0" "\<bar>off\<bar> < 86400"
  shows "read_zone_fixed (zone_text off) = Some off"
proof (cases "off = 0")
  case False
  let ?z = "zone_minutes off"
  have off60: "\<bar>off\<bar> = int ?z * 60"
  proof -
    have "\<bar>off\<bar> mod 60 = 0" using assms(1) by (simp add: abs_if zmod_zminus1_eq_if)
    moreover have "int (nat \<bar>off\<bar> mod 60) = \<bar>off\<bar> mod 60" by (simp add: zmod_int)
    ultimately have "nat \<bar>off\<bar> mod 60 = 0" by linarith
    then have "nat \<bar>off\<bar> = 60 * ?z"
      using mult_div_mod_eq [of 60 "nat \<bar>off\<bar>"] unfolding zone_minutes_def by linarith
    then show ?thesis by linarith
  qed
  have pos: "0 < ?z" using off60 False by linarith
  have h: "?z div 60 < 24" using zone_hours assms(2) by blast
  have m: "?z mod 60 < 60" by simp
  have len: "length (two_digits (?z div 60)) = 2" "length (two_digits (?z mod 60)) = 2"
    using h m by (simp_all add: length_two_digits)
  obtain a b where ab: "two_digits (?z div 60) = [a, b]" using len(1) by (auto simp: numeral_2_eq_2 length_Suc_conv)
  obtain c d where cd: "two_digits (?z mod 60) = [c, d]" using len(2) by (auto simp: numeral_2_eq_2 length_Suc_conv)
  have "parse_uint [a, b] 0 23 = Some (?z div 60)"
    using parse_uint_pad [of 0 "?z div 60" 23 2] h ab by (simp add: two_digits_def)
  moreover have "parse_uint [c, d] 0 59 = Some (?z mod 60)"
    using parse_uint_pad [of 0 "?z mod 60" 59 2] m cd by (simp add: two_digits_def)
  moreover have "int (?z div 60) * 60 + int (?z mod 60) = int ?z"
    by (metis div_mult_mod_eq of_nat_add of_nat_mult of_nat_numeral)
  ultimately show ?thesis
    using False pos off60 by (simp add: read_zone_fixed_def zone_text_def ab cd slice_def zone_offset_def) arith
qed (simp add: read_zone_fixed_def zone_text_def)

lemma split_seconds:
  fixes s :: nat
  shows "s = 3600 * (s div 3600) + 60 * (s div 60 mod 60) + s mod 60"
proof -
  have "s div 60 = 60 * (s div 60 div 60) + s div 60 mod 60" by simp
  moreover have "s div 60 div 60 = s div 3600" by (simp flip: div_mult2_eq)
  ultimately have "s div 60 = 60 * (s div 3600) + s div 60 mod 60" by simp
  moreover have "s = 60 * (s div 60) + s mod 60" by simp
  ultimately show ?thesis by linarith
qed

lemma four_chars: "length s = 4 \<Longrightarrow> \<exists>a b c d. s = [a, b, c, d]"
  by (auto simp: numeral_eq_Suc length_Suc_conv)

lemma two_digits_chars: "n < 100 \<Longrightarrow> \<exists>a b. two_digits n = [a, b]"
  using length_two_digits [of n] by (auto simp: numeral_eq_Suc length_Suc_conv)

theorem Time_UnmarshalJSON_print:
  assumes "time_ok t"
  shows "Time_UnmarshalJSON (FormatRFC3339Nano t) = Some t"
proof -
  obtain y m d where c: "civil (t_local t div 86400) = (y, m, d)" by (metis surj_pair)
  define s where "s = nat (t_local t mod 86400)"
  have y: "0 \<le> y" "y \<le> 9999" using assms c by (simp_all add: time_ok_def)
  note cb = civil_bounds [OF c]
  have dm: "d \<le> days_in m (nat y)" using day_number_civil(2) [OF c] y(1) by simp
  have sb: "s < 86400" by (simp add: s_def nat_less_iff)
  then have hb: "s div 3600 \<le> 23" "s div 60 mod 60 \<le> 59" "s mod 60 \<le> 59"
    by (simp_all add: less_mult_imp_div_less flip: less_Suc_eq_le)
  have ytext: "year_text y = zero_pad 4 (decimal (nat y))" using y by (simp add: year_text_def)
  have "length (year_text y) = 4" using y length_pad [of 4 "nat y"] by (simp add: ytext)
  then obtain y1 y2 y3 y4 where Y: "year_text y = [y1, y2, y3, y4]" using four_chars by blast
  obtain m1 m2 where M: "two_digits m = [m1, m2]" using two_digits_chars [of m] cb by auto
  obtain d1 d2 where D: "two_digits d = [d1, d2]" using two_digits_chars [of d] cb by auto
  obtain h1 h2 where H: "two_digits (s div 3600) = [h1, h2]"
    using two_digits_chars [of "s div 3600"] hb by auto
  obtain n1 n2 where N: "two_digits (s div 60 mod 60) = [n1, n2]"
    using two_digits_chars [of "s div 60 mod 60"] hb by auto
  obtain s1 s2 where S: "two_digits (s mod 60) = [s1, s2]"
    using two_digits_chars [of "s mod 60"] hb by auto
  have p: "parse_uint [y1, y2, y3, y4] 0 9999 = Some (nat y)" "parse_uint [m1, m2] 1 12 = Some m"
    "parse_uint [d1, d2] 1 (days_in m (nat y)) = Some d" "parse_uint [h1, h2] 0 23 = Some (s div 3600)"
    "parse_uint [n1, n2] 0 59 = Some (s div 60 mod 60)" "parse_uint [s1, s2] 0 59 = Some (s mod 60)"
    using parse_uint_pad [of 0 "nat y" 9999 4] parse_uint_pad [of 1 m 12 2] parse_uint_pad [of 1 d "days_in m (nat y)" 2]
      parse_uint_pad [of 0 "s div 3600" 23 2] parse_uint_pad [of 0 "s div 60 mod 60" 59 2]
      parse_uint_pad [of 0 "s mod 60" 59 2] y cb dm hb Y M D H N S
    by (simp_all add: ytext two_digits_def)
  let ?tail = "fraction_text (t_nsec t) @ zone_text (t_offset t)"
  have fmt: "FormatRFC3339Nano t = [y1, y2, y3, y4, CHR ''-'', m1, m2, CHR ''-'', d1, d2, CHR ''T'', h1, h2,
      CHR '':'', n1, n2, CHR '':'', s1, s2] @ ?tail"
    by (simp add: FormatRFC3339Nano_def clock_text_def c Y M D Let_def flip: s_def) (simp add: H N S)
  have "read_fraction ''.'' ?tail = (t_nsec t, zone_text (t_offset t))"
    using read_fraction_text zone_text_start assms by (simp add: time_ok_def)
  moreover have "read_zone_fixed (zone_text (t_offset t)) = Some (t_offset t)"
    using read_zone_text assms by (simp add: time_ok_def)
  moreover have "wall_clock (nat y) m d (s div 3600) (s div 60 mod 60) (s mod 60) = t_local t"
  proof -
    have "int s = 3600 * int (s div 3600) + 60 * int (s div 60 mod 60) + int (s mod 60)"
      using arg_cong [OF split_seconds [of s], of int] by simp
    moreover have "int s = t_local t mod 86400" by (simp add: s_def)
    moreover have "86400 * (t_local t div 86400) + t_local t mod 86400 = t_local t" by simp
    ultimately show ?thesis using day_number_civil(1) [OF c] y(1) by (simp add: wall_clock_def)
  qed
  ultimately have "parse_fixed (FormatRFC3339Nano t) = Some t"
    by (simp add: parse_fixed_def fmt slice_def p del: One_nat_def)
  then show ?thesis by (simp add: Time_UnmarshalJSON_def)
qed

text \<open>The text of a time is a literal without escapes.\<close>

definition time_alphabet :: string where "time_alphabet = ''0123456789-:.TZ+''"

lemma padded_alphabet: "set (zero_pad w (decimal n)) \<subseteq> set time_alphabet"
proof -
  have a: "set ''0123456789'' \<subseteq> set time_alphabet" "CHR ''0'' \<in> set time_alphabet" by code_simp+
  have "set (replicate k (CHR ''0'')) \<subseteq> set time_alphabet" for k using a(2) by (cases k) (simp_all only: set_replicate_Suc, simp_all)
  then show ?thesis
    unfolding zero_pad_def set_append by (intro Un_least order_trans [OF decimal_digits a(1)])
qed

lemma separators:
  "CHR ''-'' \<in> set time_alphabet" "CHR '':'' \<in> set time_alphabet" "CHR ''.'' \<in> set time_alphabet"
  "CHR ''T'' \<in> set time_alphabet" "CHR ''Z'' \<in> set time_alphabet" "CHR ''+'' \<in> set time_alphabet"
  by (simp_all add: time_alphabet_def)

lemma Format_alphabet: "set (FormatRFC3339Nano t) \<subseteq> set time_alphabet"
proof -
  have y: "set (year_text y) \<subseteq> set time_alphabet" for y
    using padded_alphabet [of 4] by (auto simp: year_text_def separators split: if_splits)
  have d: "set (two_digits n) \<subseteq> set time_alphabet" for n
    using padded_alphabet by (simp add: two_digits_def)
  have "set (strip_zeros s) \<subseteq> set s" for s
    by (subst (2) strip_zeros_split) simp
  then have "set (fraction_text n) \<subseteq> set time_alphabet" for n
    using padded_alphabet [of 9 n] by (auto simp: fraction_text_def separators)
  moreover have "set (zone_text off) \<subseteq> set time_alphabet" for off
    by (simp add: zone_text_def d separators)
  moreover obtain yr mo day where "civil (t_local t div 86400) = (yr, mo, day)" by (metis surj_pair)
  then have "set (clock_text t) \<subseteq> set time_alphabet"
    by (simp add: clock_text_def Let_def y d separators)
  ultimately show ?thesis by (simp add: FormatRFC3339Nano_def)
qed

lemma Format_literal_ok: "literal_ok (FormatRFC3339Nano t)"
proof -
  have "list_all (\<lambda>c. c \<noteq> quote_char \<and> c \<noteq> backslash \<and> \<not> in_range 0 0x1F c) time_alphabet" by code_simp
  then have "list_all (\<lambda>c. c \<noteq> quote_char \<and> c \<noteq> backslash \<and> \<not> in_range 0 0x1F c) (FormatRFC3339Nano t)"
    using Format_alphabet [of t] by (auto simp: list_all_iff)
  then show ?thesis by (rule literal_ok_plain)
qed

section \<open>Every date is the date of its day\<close>

definition year_start :: "int \<Rightarrow> int" where
  "year_start k = 365 * k + k div 4 - k div 100 + k div 400"

lemma div_Suc_int:
  fixes k n :: int
  assumes "0 < n"
  shows "(k + 1) div n = k div n + of_bool ((k + 1) mod n = 0)"
proof (cases "k mod n = n - 1")
  case True
  have "k + 1 = n * (k div n) + n" using True mult_div_mod_eq [of n k] by linarith
  then have "k + 1 = n * (k div n + 1)" by (simp add: distrib_left)
  then show ?thesis using assms by simp
next
  case False
  have b: "0 \<le> k mod n + 1" "k mod n + 1 < n"
    using False pos_mod_bound [OF assms, of k] pos_mod_sign [OF assms, of k] by linarith+
  have "k + 1 = n * (k div n) + (k mod n + 1)" using mult_div_mod_eq [of n k] by linarith
  then have "(k + 1) div n = k div n" "(k + 1) mod n = k mod n + 1"
    using b by (rule int_div_pos_eq, rule int_mod_pos_eq)
  then show ?thesis using pos_mod_sign [OF assms, of k] by simp
qed

lemma year_start_step: "year_start (k + 1) = year_start k + 365 + of_bool (is_leap (k + 1))"
proof -
  let ?y = "k + 1"
  have d: "?y mod 100 = 0 \<Longrightarrow> ?y mod 4 = 0" "?y mod 400 = 0 \<Longrightarrow> ?y mod 100 = 0"
  proof -
    have "100 dvd ?y \<Longrightarrow> 4 dvd ?y" "400 dvd ?y \<Longrightarrow> 100 dvd ?y"
      using dvd_trans [of 4 100 ?y] dvd_trans [of 100 400 ?y] by simp_all
    then show "?y mod 100 = 0 \<Longrightarrow> ?y mod 4 = 0" "?y mod 400 = 0 \<Longrightarrow> ?y mod 100 = 0"
      by (metis mod_0_imp_dvd dvd_imp_mod_0)+
  qed
  have sum: "365 * (i + 1) + a' - b' + c' = (365 * i + a - b + c) + 365 + (x - y + z)"
    if "a' = a + x" "b' = b + y" "c' = c + z" for i a b c x y z a' b' c' :: int
    using that by simp
  have "year_start ?y = year_start k + 365 + (of_bool (?y mod 4 = 0) - of_bool (?y mod 100 = 0) + of_bool (?y mod 400 = 0))"
    unfolding year_start_def by (rule sum; rule div_Suc_int; rule zero_less_numeral)
  also have "(of_bool (?y mod 4 = 0) - of_bool (?y mod 100 = 0) + of_bool (?y mod 400 = 0)) = (of_bool (is_leap ?y) :: int)"
    unfolding is_leap_def using d
    by (cases "?y mod 4 = 0"; cases "?y mod 100 = 0"; cases "?y mod 400 = 0"; simp only: of_bool_eq simp_thms)
  finally show ?thesis .
qed

lemma year_start_mono: "a \<le> b \<Longrightarrow> year_start a \<le> year_start b"
proof (induction b rule: int_ge_induct)
  case (step i)
  then show ?case using year_start_step [of i] by (simp add: of_bool_def split: if_splits)
qed simp

lemma year_unique:
  assumes "year_yday d = (y, yday)" "d = year_start y' + x" "0 \<le> x" "x < 365 + of_bool (is_leap (y' + 1))"
  shows "y = y'" "yday = x"
proof -
  note yd = year_yday_inverse [OF assms(1), folded year_start_def]
  have "\<not> y < y'" using year_start_mono [of "y + 1" y'] year_start_step [of y] yd assms(2,3) by auto
  moreover have "\<not> y' < y" using year_start_mono [of "y' + 1" y] year_start_step [of y'] yd assms(2,4) by auto
  ultimately show "y = y'" by simp
  with yd(1) assms(2) show "yday = x" by simp
qed

lemma month_day_eq:
  "i < length ls \<Longrightarrow> d < ls ! i \<Longrightarrow> month_day ls k (sum_list (take i ls) + d) = (k + i, d + 1)"
proof (induction ls arbitrary: i k)
  case (Cons l ls)
  show ?case
  proof (cases i)
    case (Suc j)
    with Cons.IH [of j "k + 1"] Cons.prems show ?thesis by simp
  qed (use Cons.prems in simp)
qed simp

lemma civil_day_number:
  assumes "1 \<le> m" "m \<le> 12" "1 \<le> d" "d \<le> month_lengths (is_leap y) ! (m - 1)"
  shows "civil (day_number y m d) = (y, m, d)"
proof -
  let ?ls = "month_lengths (is_leap y)"
  let ?x = "sum_list (take (m - 1) ?ls) + (d - 1)"
  have m: "m - 1 < length ?ls" using assms(1,2) by (simp add: month_lengths_facts)
  have "sum_list (take (m - 1) ?ls) + ?ls ! (m - 1) = sum_list (take (Suc (m - 1)) ?ls)"
    using m by (simp add: take_Suc_conv_app_nth)
  also have "\<dots> \<le> sum_list ?ls" by (metis append_take_drop_id le_add1 sum_list_append)
  finally have x: "?x < sum_list ?ls" using assms(3,4) by linarith
  have day: "day_number y m d = year_start (y - 1) + int ?x"
    using assms(3) by (simp add: day_number_def year_start_def)
  obtain y' yday where yd: "year_yday (day_number y m d) = (y', yday)" by (metis surj_pair)
  have "?x < 365 + of_bool (is_leap y)" using x by (simp only: month_lengths_facts)
  then have "int ?x < int (365 + of_bool (is_leap y))" by (simp only: of_nat_less_iff)
  also have "\<dots> = 365 + of_bool (is_leap (y - 1 + 1))" by simp
  finally have "int ?x < 365 + of_bool (is_leap (y - 1 + 1))" .
  from year_unique [OF yd day _ this] have "y' = y - 1" "yday = int ?x" by simp_all
  moreover have "month_day ?ls 1 ?x = (m, d)"
    using month_day_eq [OF m, of "d - 1" 1] assms by simp
  ultimately show ?thesis using yd by (simp only: civil_def prod.case nat_int diff_add_cancel)
qed

section \<open>What reading gives\<close>

text \<open>What every time read from a text satisfies; of these, \<open>MarshalJSON\<close> refuses exactly the ones
  whose zone is 24 hours or more from UTC.\<close>

definition time_typed :: "gotime \<Rightarrow> bool" where
  "time_typed t \<longleftrightarrow> t_nsec t < 10 ^ 9 \<and> t_offset t mod 60 = 0
     \<and> 0 \<le> fst (civil (t_local t div 86400)) \<and> fst (civil (t_local t div 86400)) \<le> 9999"

lemma wall_clock_year:
  assumes "1 \<le> m" "m \<le> 12" "1 \<le> d" "d \<le> days_in m y" "h < 24" "mi < 60" "s < 60"
  shows "fst (civil (wall_clock y m d h mi s div 86400)) = int y"
proof -
  have "wall_clock y m d h mi s = 86400 * day_number (int y) m d + int (3600 * h + 60 * mi + s)"
    by (simp add: wall_clock_def)
  moreover have "int (3600 * h + 60 * mi + s) < 86400" using assms(5-7) by simp
  ultimately have "wall_clock y m d h mi s div 86400 = day_number (int y) m d"
    by (intro int_div_pos_eq [where r = "int (3600 * h + 60 * mi + s)"]) simp_all
  then show ?thesis using civil_day_number [of m d "int y"] assms(1-4) by (simp add: days_in_def)
qed

lemma parse_uint_bounds: "parse_uint s lo hi = Some n \<Longrightarrow> lo \<le> n \<and> n \<le> hi"
  by (auto simp: parse_uint_def split: if_splits)

lemma guard_Some: "guard b = Some u \<longleftrightarrow> b"
  by (simp add: guard_def)

lemma parse_fixed_year:
  assumes "parse_fixed s = Some t"
  shows "\<exists>y\<le>9999. fst (civil (t_local t div 86400)) = int y"
proof -
  from assms obtain y mo d h mi sec where
    p: "parse_uint (slice s 0 4) 0 9999 = Some y" "parse_uint (slice s 5 7) 1 12 = Some mo"
      "parse_uint (slice s 8 10) 1 (days_in mo y) = Some d" "parse_uint (slice s 11 13) 0 23 = Some h"
      "parse_uint (slice s 14 16) 0 59 = Some mi" "parse_uint (slice s 17 19) 0 59 = Some sec"
    and t: "t_local t = wall_clock y mo d h mi sec"
    by (auto simp: parse_fixed_def Option.bind_eq_Some_conv split: if_splits prod.splits)
  note b = p [THEN parse_uint_bounds]
  have "fst (civil (t_local t div 86400)) = int y" unfolding t
    by (rule wall_clock_year) (use b in \<open>simp_all add: less_Suc_eq_le [symmetric]\<close>)
  with b(1) show ?thesis by blast
qed

lemma parse_layout_year:
  assumes "parse_layout s = Some t"
  shows "\<exists>y\<le>9999. fst (civil (t_local t div 86400)) = int y"
proof -
  from assms obtain y mo d h mi sec r where
    y: "read_year s = Some (y, r)" and b: "1 \<le> mo" "mo \<le> 12" "1 \<le> d" "d \<le> days_in mo y" "h < 24" "mi < 60" "sec < 60"
    and t: "t_local t = wall_clock y mo d h mi sec"
    by (auto simp: parse_layout_def Option.bind_eq_Some_conv guard_Some case_prod_beta)
  have "y \<le> 9999" using y by (auto simp: read_year_def dest: parse_uint_bounds split: if_splits)
  with wall_clock_year [OF b] t show ?thesis by auto
qed

lemma Time_UnmarshalJSON_year:
  "Time_UnmarshalJSON s = Some t \<Longrightarrow>
     0 \<le> fst (civil (t_local t div 86400)) \<and> fst (civil (t_local t div 86400)) \<le> 9999"
  using parse_fixed_year [of s t] parse_layout_year [of s t]
  by (auto simp: Time_UnmarshalJSON_def split: option.splits)

lemma dec_val_less: "dec_val s < 10 ^ length s"
proof (induction s rule: rev_induct)
  case (snoc c s)
  have "(case digit_val c of Some d \<Rightarrow> d | None \<Rightarrow> 0) < (10 :: nat)"
    using digit_val_less [of c] by (auto split: option.split)
  moreover have "dec_val (s @ [c]) = dec_val s * 10 + (case digit_val c of Some d \<Rightarrow> d | None \<Rightarrow> 0)"
    by (simp add: dec_val_def)
  ultimately show ?case using snoc by simp
qed (simp add: dec_val_def)

lemma nanoseconds_less: "nanoseconds ds < 10 ^ 9"
proof -
  let ?d = "take 9 ds"
  have "dec_val ?d * 10 ^ (9 - length ?d) < 10 ^ length ?d * 10 ^ (9 - length ?d)"
    using dec_val_less [of ?d] by (intro mult_strict_right_mono) simp_all
  also have "\<dots> = 10 ^ 9" by (simp flip: power_add)
  finally show ?thesis by (simp add: nanoseconds_def)
qed

lemma read_fraction_less: "read_fraction seps s = (n, r) \<Longrightarrow> n < 10 ^ 9"
  using nanoseconds_less by (auto simp: read_fraction_def Let_def split: if_splits)

lemma zone_offset_mod: "zone_offset c h m mod 60 = 0"
  by (simp add: zone_offset_def)

lemma read_zone_fixed_mod: "read_zone_fixed s = Some off \<Longrightarrow> off mod 60 = 0"
  by (auto simp: read_zone_fixed_def zone_offset_mod Option.bind_eq_Some_conv split: if_splits)

lemma read_zone_mod: "read_zone s = Some (off, r) \<Longrightarrow> off mod 60 = 0"
  by (auto simp: read_zone_def zone_offset_mod Option.bind_eq_Some_conv split: if_splits)

lemma Time_UnmarshalJSON_fields:
  "Time_UnmarshalJSON s = Some t \<Longrightarrow> t_nsec t < 10 ^ 9 \<and> t_offset t mod 60 = 0"
  by (auto simp: Time_UnmarshalJSON_def parse_fixed_def parse_layout_def Option.bind_eq_Some_conv
      split: option.splits if_splits prod.splits dest!: read_fraction_less read_zone_fixed_mod read_zone_mod)

lemma Time_UnmarshalJSON_typed: "Time_UnmarshalJSON s = Some t \<Longrightarrow> time_typed t"
  using Time_UnmarshalJSON_fields Time_UnmarshalJSON_year by (simp add: time_typed_def)

lemma time_typed_ok_iff: "time_ok t \<longleftrightarrow> time_typed t \<and> \<bar>t_offset t\<bar> < 86400"
  by (auto simp: time_typed_def time_ok_def)

lemma time_typed_ok: "time_typed t \<Longrightarrow> Time_MarshalJSON t = Inr s \<Longrightarrow> time_ok t"
  using zone_hours [of "t_offset t"]
  by (auto simp: time_typed_def time_ok_def Time_MarshalJSON_def Let_def split: if_splits)

lemma Time_MarshalJSON_iff: "time_typed t \<Longrightarrow> (\<exists>s. Time_MarshalJSON t = Inr s) \<longleftrightarrow> \<bar>t_offset t\<bar> < 86400"
  using time_typed_ok Time_MarshalJSON_ok by (auto simp: time_typed_ok_iff)

lemma zero_time_ok: "time_ok zero_time" "time_typed zero_time" "IsZero zero_time"
proof -
  have "civil 0 = (1, 1, 1)" by code_simp
  then show "time_ok zero_time" by (simp add: time_ok_def zero_time_def)
  then show "time_typed zero_time" by (simp add: time_typed_ok_iff)
qed (simp add: zero_time_def IsZero_def)

end
