(* ===== verification/Kozi_State.thy ===== *)
theory Kozi_State
  imports Queue_URI Go_RFC3339 Transmission
begin

text \<open>
  The persisted state of \<open>kozi-cli\<close>, \<open>cmd/kozi-cli/state.go\<close>: the two structs, what
  \<open>encoding/json\<close> makes of them and of any text read back, and \<open>loadState\<close> and \<open>saveState\<close>
  on a file system whose every call may fail, and whose writes may break off.
\<close>

section \<open>Structs\<close>

record buddy =
  bd_Name :: string
  bd_SharedSecret :: string
  bd_SimpleXLink :: string
  bd_LastSeenGrid :: string
  bd_LastSeenAt :: gotime

record kozi_state =
  ks_Version :: int
  ks_CurrentLocation :: string
  ks_Buddies :: "buddy list"

definition stateVersion :: int where "stateVersion = 1"

definition zero_buddy :: buddy where
  "zero_buddy = \<lparr>bd_Name = [], bd_SharedSecret = [], bd_SimpleXLink = [], bd_LastSeenGrid = [],
     bd_LastSeenAt = zero_time\<rparr>"

definition zero_state :: kozi_state where
  "zero_state = \<lparr>ks_Version = 0, ks_CurrentLocation = [], ks_Buddies = []\<rparr>"

section \<open>JSON documents\<close>

text \<open>
  The document of a state. \<open>omitempty\<close> leaves out empty strings; it has no effect on a
  \<open>time.Time\<close>, whose \<open>MarshalJSON\<close> may fail.
\<close>

definition str_value :: "string \<Rightarrow> json" where
  "str_value s = JStr (quote_json s)"

definition omit_empty :: "string \<Rightarrow> string \<Rightarrow> (string \<times> json) list" where
  "omit_empty k s = (if s = [] then [] else [(k, str_value s)])"

definition marshal_time :: "gotime \<Rightarrow> json result" where
  "marshal_time t =
     (case Time_MarshalJSON t of
        Inl e \<Rightarrow> Inl (wrapf ''json: error calling MarshalJSON for type time.Time: %w'' e)
      | Inr s \<Rightarrow> Inr (JStr s))"

definition marshal_buddy :: "buddy \<Rightarrow> json result" where
  "marshal_buddy b =
     rbind (marshal_time (bd_LastSeenAt b)) (\<lambda>t. Inr (JObj (
       [(''name'', str_value (bd_Name b)), (''shared_secret'', str_value (bd_SharedSecret b))]
         @ omit_empty ''smp_contact_link'' (bd_SimpleXLink b)
         @ omit_empty ''last_seen_grid'' (bd_LastSeenGrid b)
         @ [(''last_seen_at'', t)])))"

fun marshal_buddies :: "buddy list \<Rightarrow> json list result" where
  "marshal_buddies [] = Inr []"
| "marshal_buddies (b # l) = rbind (marshal_buddy b) (\<lambda>j. rbind (marshal_buddies l) (\<lambda>js. Inr (j # js)))"

definition marshal_state :: "kozi_state \<Rightarrow> json result" where
  "marshal_state s =
     rbind (marshal_buddies (ks_Buddies s)) (\<lambda>js. Inr (JObj (
       [(''version'', JNum (int_text (ks_Version s)))]
         @ omit_empty ''current_location'' (ks_CurrentLocation s)
         @ [(''buddies'', JArr js)])))"

text \<open>\<open>json.MarshalIndent(s, "", "  ")\<close>.\<close>

definition MarshalIndent :: "kozi_state \<Rightarrow> string result" where
  "MarshalIndent s = rbind (marshal_state s) (\<lambda>j. Inr (indent_json 0 j))"

text \<open>
  \<open>Unmarshal\<close> into a variable: members in order, the key compared with the tag without regard
  to case (U+017F and U+212A fold to the letters s and k), unknown keys skipped, \<open>null\<close> without
  effect (on \<open>Buddies\<close> it means nil), and an error (\<open>None\<close>) for any value of the wrong kind. An
  array is written over the elements its slice has room for, also those beyond its length, so
  these are kept beside the state.
\<close>

fun fold_name :: "string \<Rightarrow> string" where
  "fold_name [] = []"
| "fold_name (c # s) =
     (if c = CHR 0xC5 \<and> take 1 s = [CHR 0xBF] then CHR ''S'' # fold_name (drop 1 s)
      else if c = CHR 0xE2 \<and> take 2 s = [CHR 0x84, CHR 0xAA] then CHR ''K'' # fold_name (drop 2 s)
      else (if in_range 97 122 c then char_of (of_char c - (32 :: nat)) else c) # fold_name s)"

definition is_field :: "string \<Rightarrow> string \<Rightarrow> bool" where
  "is_field k f \<longleftrightarrow> fold_name k = fold_name f"

fun read_string :: "string \<Rightarrow> json \<Rightarrow> string option" where
  "read_string old (JStr s) = unquote_json s"
| "read_string old JNull = Some old"
| "read_string old _ = None"

fun read_int :: "int \<Rightarrow> json \<Rightarrow> int option" where
  "read_int old (JNum s) = ParseInt64 s"
| "read_int old JNull = Some old"
| "read_int old _ = None"

text \<open>\<open>UnmarshalJSON\<close> gets the literal as it stands, escapes included.\<close>

fun read_time :: "gotime \<Rightarrow> json \<Rightarrow> gotime option" where
  "read_time old (JStr s) = Time_UnmarshalJSON s"
| "read_time old JNull = Some old"
| "read_time old _ = None"

definition read_buddy_member :: "string \<times> json \<Rightarrow> buddy \<Rightarrow> buddy option" where
  "read_buddy_member m b =
     (case m of (lit, j) \<Rightarrow>
       (case unquote_json lit of
          None \<Rightarrow> None
        | Some k \<Rightarrow>
            if is_field k ''name'' then map_option (\<lambda>s. b\<lparr>bd_Name := s\<rparr>) (read_string (bd_Name b) j)
            else if is_field k ''shared_secret'' then map_option (\<lambda>s. b\<lparr>bd_SharedSecret := s\<rparr>) (read_string (bd_SharedSecret b) j)
            else if is_field k ''smp_contact_link'' then map_option (\<lambda>s. b\<lparr>bd_SimpleXLink := s\<rparr>) (read_string (bd_SimpleXLink b) j)
            else if is_field k ''last_seen_grid'' then map_option (\<lambda>s. b\<lparr>bd_LastSeenGrid := s\<rparr>) (read_string (bd_LastSeenGrid b) j)
            else if is_field k ''last_seen_at'' then map_option (\<lambda>t. b\<lparr>bd_LastSeenAt := t\<rparr>) (read_time (bd_LastSeenAt b) j)
            else Some b))"

fun fold_members :: "('m \<Rightarrow> 'a \<Rightarrow> 'a option) \<Rightarrow> 'm list \<Rightarrow> 'a \<Rightarrow> 'a option" where
  "fold_members f [] a = Some a"
| "fold_members f (m # ms) a = (case f m a of None \<Rightarrow> None | Some a' \<Rightarrow> fold_members f ms a')"

fun read_buddy :: "buddy \<Rightarrow> json \<Rightarrow> buddy option" where
  "read_buddy b (JObj ms) = fold_members read_buddy_member ms b"
| "read_buddy b JNull = Some b"
| "read_buddy b _ = None"

fun read_elements :: "buddy list \<Rightarrow> json list \<Rightarrow> buddy list option" where
  "read_elements olds [] = Some []"
| "read_elements olds (j # js) =
     (case read_buddy (case olds of [] \<Rightarrow> zero_buddy | b # _ \<Rightarrow> b) j of
        None \<Rightarrow> None
      | Some b \<Rightarrow> map_option ((#) b) (read_elements (tl olds) js))"

text \<open>The elements of the slice, and those its array holds beyond them.\<close>

fun read_buddies :: "buddy list \<Rightarrow> json \<Rightarrow> (buddy list \<times> buddy list) option" where
  "read_buddies olds (JArr []) = Some ([], [])"
| "read_buddies olds (JArr js) = map_option (\<lambda>l. (l, drop (length js) olds)) (read_elements olds js)"
| "read_buddies olds JNull = Some ([], [])"
| "read_buddies olds _ = None"

definition read_state_member :: "string \<times> json \<Rightarrow> kozi_state \<times> buddy list \<Rightarrow> (kozi_state \<times> buddy list) option" where
  "read_state_member m acc =
     (case m of (lit, j) \<Rightarrow> case acc of (s, spare) \<Rightarrow>
       (case unquote_json lit of
          None \<Rightarrow> None
        | Some k \<Rightarrow>
            if is_field k ''version'' then map_option (\<lambda>i. (s\<lparr>ks_Version := i\<rparr>, spare)) (read_int (ks_Version s) j)
            else if is_field k ''current_location'' then
              map_option (\<lambda>l. (s\<lparr>ks_CurrentLocation := l\<rparr>, spare)) (read_string (ks_CurrentLocation s) j)
            else if is_field k ''buddies'' then
              map_option (\<lambda>(l, spare'). (s\<lparr>ks_Buddies := l\<rparr>, spare')) (read_buddies (ks_Buddies s @ spare) j)
            else Some acc))"

fun unmarshal_state :: "json \<Rightarrow> kozi_state option" where
  "unmarshal_state (JObj ms) = map_option fst (fold_members read_state_member ms (zero_state, []))"
| "unmarshal_state JNull = Some zero_state"
| "unmarshal_state _ = None"

text \<open>\<open>json.Unmarshal(data, &s)\<close>: the text is checked before anything is decoded.\<close>

definition Unmarshal :: "string \<Rightarrow> kozi_state result" where
  "Unmarshal data =
     (case parse_json data of
        None \<Rightarrow> Inl (ForeignErr ''json: syntax error'')
      | Some j \<Rightarrow>
          (case unmarshal_state j of
             None \<Rightarrow> Inl (ForeignErr ''json: cannot unmarshal'')
           | Some s \<Rightarrow> Inr s))"

section \<open>What is read back\<close>

text \<open>The state with the strings \<open>encoding/json\<close> stores for it.\<close>

definition valid_buddy :: "buddy \<Rightarrow> buddy" where
  "valid_buddy b = \<lparr>bd_Name = to_valid (bd_Name b), bd_SharedSecret = to_valid (bd_SharedSecret b),
     bd_SimpleXLink = to_valid (bd_SimpleXLink b), bd_LastSeenGrid = to_valid (bd_LastSeenGrid b),
     bd_LastSeenAt = bd_LastSeenAt b\<rparr>"

definition valid_state :: "kozi_state \<Rightarrow> kozi_state" where
  "valid_state s = \<lparr>ks_Version = ks_Version s, ks_CurrentLocation = to_valid (ks_CurrentLocation s),
     ks_Buddies = map valid_buddy (ks_Buddies s)\<rparr>"

text \<open>What can be stored: times \<open>MarshalJSON\<close> accepts and a version in range.\<close>

definition storable :: "kozi_state \<Rightarrow> bool" where
  "storable s \<longleftrightarrow> - (2 ^ 63) \<le> ks_Version s \<and> ks_Version s < 2 ^ 63
     \<and> list_all (\<lambda>b. time_ok (bd_LastSeenAt b)) (ks_Buddies s)"

lemma valid_state_idem [simp]: "valid_state (valid_state s) = valid_state s"
  by (simp add: valid_state_def valid_buddy_def to_valid_idem)

lemma storable_valid [simp]: "storable (valid_state s) = storable s"
  by (simp add: storable_def valid_state_def valid_buddy_def list_all_iff)

lemma fold_members_append:
  "fold_members f (xs @ ys) a = (case fold_members f xs a of None \<Rightarrow> None | Some a' \<Rightarrow> fold_members f ys a')"
  by (induction xs arbitrary: a) (auto split: option.split)

lemma fold_names:
  "fold_name ''name'' = ''NAME''"
  "fold_name ''shared_secret'' = ''SHARED_SECRET''"
  "fold_name ''smp_contact_link'' = ''SMP_CONTACT_LINK''"
  "fold_name ''last_seen_grid'' = ''LAST_SEEN_GRID''"
  "fold_name ''last_seen_at'' = ''LAST_SEEN_AT''"
  "fold_name ''version'' = ''VERSION''"
  "fold_name ''current_location'' = ''CURRENT_LOCATION''"
  "fold_name ''buddies'' = ''BUDDIES''"
  by code_simp+

lemma field_names:
  "is_field ''name'' ''name''" "is_field ''shared_secret'' ''shared_secret''" "\<not> is_field ''shared_secret'' ''name''"
  "is_field ''smp_contact_link'' ''smp_contact_link''" "\<not> is_field ''smp_contact_link'' ''name''"
  "\<not> is_field ''smp_contact_link'' ''shared_secret''" "is_field ''last_seen_grid'' ''last_seen_grid''"
  "\<not> is_field ''last_seen_grid'' ''name''" "\<not> is_field ''last_seen_grid'' ''shared_secret''"
  "\<not> is_field ''last_seen_grid'' ''smp_contact_link''" "is_field ''last_seen_at'' ''last_seen_at''"
  "\<not> is_field ''last_seen_at'' ''name''" "\<not> is_field ''last_seen_at'' ''shared_secret''"
  "\<not> is_field ''last_seen_at'' ''smp_contact_link''" "\<not> is_field ''last_seen_at'' ''last_seen_grid''"
  "is_field ''version'' ''version''" "is_field ''current_location'' ''current_location''"
  "\<not> is_field ''current_location'' ''version''" "is_field ''buddies'' ''buddies''"
  "\<not> is_field ''buddies'' ''version''" "\<not> is_field ''buddies'' ''current_location''"
  by (simp_all only: is_field_def fold_names) simp_all

text \<open>The keys the encoder writes are literals that stand for themselves.\<close>

lemma ascii_literal:
  "list_all (\<lambda>c. c \<noteq> quote_char \<and> c \<noteq> backslash \<and> \<not> in_range 0 0x1F c \<and> in_range 0 0x7F c) s \<Longrightarrow>
     unquote_json s = Some s \<and> literal_ok s"
proof (induction s)
  case (Cons c s)
  then show ?case using literal_ok_append [OF plain_char_ok [of c], of s] by simp
qed simp

lemma keys_plain:
  "list_all (\<lambda>k. list_all (\<lambda>c. c \<noteq> quote_char \<and> c \<noteq> backslash \<and> \<not> in_range 0 0x1F c \<and> in_range 0 0x7F c) k)
     [''name'', ''shared_secret'', ''smp_contact_link'', ''last_seen_grid'', ''last_seen_at'',
      ''version'', ''current_location'', ''buddies'']"
  by code_simp

lemma key_literals:
  "k \<in> set [''name'', ''shared_secret'', ''smp_contact_link'', ''last_seen_grid'', ''last_seen_at'',
      ''version'', ''current_location'', ''buddies''] \<Longrightarrow> unquote_json k = Some k \<and> literal_ok k"
  using keys_plain ascii_literal unfolding list_all_iff by blast

lemmas key_facts = key_literals [THEN conjunct1] key_literals [THEN conjunct2]

lemma read_str_value [simp]: "read_string old (str_value s) = Some (to_valid s)"
  by (simp add: str_value_def unquote_quote_json)

lemma marshal_time_Inr: "marshal_time t = Inr j \<longleftrightarrow> (\<exists>s. Time_MarshalJSON t = Inr s \<and> j = JStr s)"
  by (auto simp: marshal_time_def split: sum.splits)

lemma marshal_time_ok: "time_ok t \<Longrightarrow> marshal_time t = Inr (JStr (FormatRFC3339Nano t))"
  by (simp add: marshal_time_def Time_MarshalJSON_ok)

lemma read_buddy_marshal:
  assumes "time_ok (bd_LastSeenAt b)"
  shows "\<exists>j. marshal_buddy b = Inr j \<and> read_buddy zero_buddy j = Some (valid_buddy b)"
proof -
  let ?j = "JObj ([(''name'', str_value (bd_Name b)), (''shared_secret'', str_value (bd_SharedSecret b))]
    @ omit_empty ''smp_contact_link'' (bd_SimpleXLink b) @ omit_empty ''last_seen_grid'' (bd_LastSeenGrid b)
    @ [(''last_seen_at'', JStr (FormatRFC3339Nano (bd_LastSeenAt b)))])"
  have "marshal_buddy b = Inr ?j" using marshal_time_ok [OF assms] by (simp add: marshal_buddy_def)
  moreover have "read_buddy zero_buddy ?j = Some (valid_buddy b)"
    using Time_UnmarshalJSON_print [OF assms]
    by (cases b)
      (simp add: omit_empty_def fold_members_append read_buddy_member_def key_facts field_names
        valid_buddy_def zero_buddy_def del: to_valid.simps(2) unquote_json.simps)
  ultimately show ?thesis by blast
qed

lemma marshal_buddies_ok:
  "list_all (\<lambda>b. time_ok (bd_LastSeenAt b)) l \<Longrightarrow>
     \<exists>js. marshal_buddies l = Inr js \<and> read_elements [] js = Some (map valid_buddy l)"
proof (induction l)
  case (Cons b l)
  then obtain j js where "marshal_buddy b = Inr j" "read_buddy zero_buddy j = Some (valid_buddy b)"
    "marshal_buddies l = Inr js" "read_elements [] js = Some (map valid_buddy l)"
    using read_buddy_marshal by fastforce
  then show ?case by simp
qed simp

text \<open>A document of a state is text the scanner takes.\<close>

lemma str_value_printable [simp]: "printable n (str_value s)"
  by (simp add: str_value_def quote_json_ok)

lemma in_omit_empty: "(k', j) \<in> set (omit_empty k s) \<Longrightarrow> k' = k \<and> j = str_value s"
  by (simp add: omit_empty_def split: if_splits)

lemma marshal_time_printable: "marshal_time t = Inr j \<Longrightarrow> printable n j"
  by (auto simp: marshal_time_def Time_MarshalJSON_def Let_def Format_literal_ok split: sum.splits if_splits)

lemma marshal_buddy_printable: "marshal_buddy b = Inr j \<Longrightarrow> printable 1 j"
  by (auto simp: marshal_buddy_def key_facts dest!: in_omit_empty intro: marshal_time_printable)

lemma marshal_buddies_printable: "marshal_buddies l = Inr js \<Longrightarrow> \<forall>j \<in> set js. printable 1 j"
  by (induction l arbitrary: js) (auto dest: marshal_buddy_printable simp del: One_nat_def)

lemma marshal_state_printable:
  assumes "marshal_state s = Inr j"
  shows "printable maxNestingDepth j"
proof -
  from assms obtain js where js: "marshal_buddies (ks_Buddies s) = Inr js"
    and j: "j = JObj ([(''version'', JNum (int_text (ks_Version s)))]
      @ omit_empty ''current_location'' (ks_CurrentLocation s) @ [(''buddies'', JArr js)])"
    by (auto simp: marshal_state_def)
  have mono: "printable n v \<Longrightarrow> n \<le> k \<Longrightarrow> printable k v" for n k v
    by (rule printable_mono)
  have "\<forall>v \<in> set js. printable (maxNestingDepth - 2) v"
    using marshal_buddies_printable [OF js] mono by (auto simp: maxNestingDepth_def)
  then show ?thesis
    by (auto simp: j key_facts number_ok_int maxNestingDepth_def dest!: in_omit_empty)
qed

lemma MarshalIndent_Inr:
  assumes "MarshalIndent s = Inr data"
  obtains j where "marshal_state s = Inr j" "data = indent_json 0 j" "parse_json data = Some j"
proof -
  from assms obtain j where j: "marshal_state s = Inr j" "data = indent_json 0 j" by (auto simp: MarshalIndent_def)
  with that parse_indent_json [OF marshal_state_printable [OF j(1)]] show thesis by blast
qed

theorem Unmarshal_MarshalIndent:
  assumes "storable s"
  shows "\<exists>data. MarshalIndent s = Inr data \<and> Unmarshal data = Inr (valid_state s)"
proof -
  from assms obtain js where js: "marshal_buddies (ks_Buddies s) = Inr js"
    "read_elements [] js = Some (map valid_buddy (ks_Buddies s))"
    using marshal_buddies_ok by (auto simp: storable_def)
  let ?j = "JObj ([(''version'', JNum (int_text (ks_Version s)))]
    @ omit_empty ''current_location'' (ks_CurrentLocation s) @ [(''buddies'', JArr js)])"
  have m: "marshal_state s = Inr ?j" using js(1) by (simp add: marshal_state_def)
  have "\<exists>sp. read_buddies [] (JArr js) = Some (map valid_buddy (ks_Buddies s), sp)"
    using js(2) by (cases js) simp_all
  then have "unmarshal_state ?j = Some (valid_state s)"
    using assms ParseInt64_text [of "ks_Version s"]
    by (cases s)
      (auto simp: omit_empty_def fold_members_append read_state_member_def key_facts field_names
        valid_state_def zero_state_def storable_def simp del: to_valid.simps(2) unquote_json.simps read_buddies.simps)
  moreover from m have "MarshalIndent s = Inr (indent_json 0 ?j)" by (simp only: MarshalIndent_def rbind.simps)
  ultimately show ?thesis
    using parse_indent_json [OF marshal_state_printable [OF m]] by (auto simp: Unmarshal_def simp del: indent_json.simps)
qed

text \<open>
  What a loaded state satisfies whatever the file holds. Saving it fails only for a time whose
  zone is 24 hours or more from UTC.
\<close>

definition typed :: "kozi_state \<Rightarrow> bool" where
  "typed s \<longleftrightarrow> - (2 ^ 63) \<le> ks_Version s \<and> ks_Version s < 2 ^ 63
     \<and> list_all (\<lambda>b. time_typed (bd_LastSeenAt b)) (ks_Buddies s)"

lemma marshal_buddies_typed:
  "list_all (\<lambda>b. time_typed (bd_LastSeenAt b)) l \<Longrightarrow> marshal_buddies l = Inr js \<Longrightarrow>
     list_all (\<lambda>b. time_ok (bd_LastSeenAt b)) l"
  by (induction l arbitrary: js) (auto simp: marshal_buddy_def marshal_time_Inr dest: time_typed_ok)

lemma typed_storable: "typed s \<Longrightarrow> MarshalIndent s = Inr data \<Longrightarrow> storable s"
  by (auto simp: typed_def storable_def MarshalIndent_def marshal_state_def dest: marshal_buddies_typed)

lemma storable_typed: "storable s \<Longrightarrow> typed s"
  by (auto simp: typed_def storable_def time_ok_def time_typed_def list_all_iff)

text \<open>The text of a state ends with a brace, so any proper beginning of it is refused.\<close>

lemma MarshalIndent_brace: "MarshalIndent s = Inr data \<Longrightarrow> \<exists>t. data = t @ ''}''"
proof -
  have "\<exists>t. layout d l r xs = t @ [r]" for d l r xs
  proof (cases xs)
    case Nil
    then have "layout d l r xs = [l] @ [r]" by simp
    then show ?thesis by blast
  next
    case (Cons x ys)
    then have "layout d l r xs = (l # newline (Suc d) @ x
        @ concat (map (\<lambda>y. CHR '','' # newline (Suc d) @ y) ys) @ newline d) @ [r]" by simp
    then show ?thesis by blast
  qed
  then show "MarshalIndent s = Inr data \<Longrightarrow> \<exists>t. data = t @ ''}''"
    by (auto simp: MarshalIndent_def marshal_state_def simp del: layout.simps)
qed

lemma torn_text:
  assumes "MarshalIndent s = Inr data" "k < length data"
  shows "parse_json (take k data) = None"
proof -
  from MarshalIndent_brace [OF assms(1)] obtain t where t: "data = t @ ''}''" by blast
  from MarshalIndent_Inr [OF assms(1)] obtain j where j: "parse_json data = Some j" by blast
  have "data = take k data @ drop k t @ ''}''" using assms(2) by (simp add: t)
  with j torn_object [of "take k data" "drop k t"] show ?thesis by metis
qed

text \<open>
  Whatever text is read, the state it gives is typed and its strings are valid UTF-8: every
  member keeps this, and the zero values have it.
\<close>

definition buddy_typed :: "buddy \<Rightarrow> bool" where
  "buddy_typed b \<longleftrightarrow> time_typed (bd_LastSeenAt b) \<and> valid_buddy b = b"

definition state_typed :: "kozi_state \<Rightarrow> bool" where
  "state_typed s \<longleftrightarrow> - (2 ^ 63) \<le> ks_Version s \<and> ks_Version s < 2 ^ 63
     \<and> to_valid (ks_CurrentLocation s) = ks_CurrentLocation s \<and> list_all buddy_typed (ks_Buddies s)"

lemma valid_buddy_iff:
  "valid_buddy b = b \<longleftrightarrow> to_valid (bd_Name b) = bd_Name b \<and> to_valid (bd_SharedSecret b) = bd_SharedSecret b
     \<and> to_valid (bd_SimpleXLink b) = bd_SimpleXLink b \<and> to_valid (bd_LastSeenGrid b) = bd_LastSeenGrid b"
  by (cases b) (simp add: valid_buddy_def)

lemma state_typed_iff: "state_typed s \<longleftrightarrow> typed s \<and> valid_state s = s"
proof -
  have "map valid_buddy l = l \<longleftrightarrow> list_all (\<lambda>b. valid_buddy b = b) l" for l
    using map_eq_conv [of valid_buddy l id] by (simp add: list_all_iff)
  then show ?thesis
    by (cases s) (auto simp: state_typed_def typed_def valid_state_def buddy_typed_def list_all_iff)
qed

lemma read_string_valid: "read_string old j = Some s \<Longrightarrow> to_valid old = old \<Longrightarrow> to_valid s = s"
  by (cases j) (auto dest: unquote_json_valid simp del: unquote_json.simps)

lemma read_time_typed: "read_time old j = Some t \<Longrightarrow> time_typed old \<Longrightarrow> time_typed t"
  by (cases j) (auto dest: Time_UnmarshalJSON_typed)

lemma read_int_range: "read_int old j = Some i \<Longrightarrow> - (2 ^ 63) \<le> old \<and> old < 2 ^ 63 \<Longrightarrow> - (2 ^ 63) \<le> i \<and> i < 2 ^ 63"
  by (cases j) (auto simp: ParseInt64_def Let_def split: if_splits)

lemma fold_members_inv:
  "fold_members f ms a = Some a' \<Longrightarrow> P a \<Longrightarrow> (\<And>m b b'. f m b = Some b' \<Longrightarrow> P b \<Longrightarrow> P b') \<Longrightarrow> P a'"
  by (induction ms arbitrary: a) (auto split: option.splits)

lemma read_buddy_member_typed: "read_buddy_member m b = Some b' \<Longrightarrow> buddy_typed b \<Longrightarrow> buddy_typed b'"
  by (auto simp: read_buddy_member_def buddy_typed_def valid_buddy_iff
      split: prod.splits option.splits if_splits dest: read_string_valid read_time_typed)

lemma zero_buddy_typed: "buddy_typed zero_buddy"
  by (simp add: buddy_typed_def zero_buddy_def valid_buddy_def zero_time_ok)

lemma read_buddy_typed: "read_buddy b j = Some b' \<Longrightarrow> buddy_typed b \<Longrightarrow> buddy_typed b'"
  by (cases j) (auto intro: fold_members_inv [where P = buddy_typed] read_buddy_member_typed)

lemma read_elements_typed:
  "read_elements olds js = Some l \<Longrightarrow> list_all buddy_typed olds \<Longrightarrow> list_all buddy_typed l"
proof (induction olds js arbitrary: l rule: read_elements.induct)
  case (2 olds j js)
  then obtain b l' where b: "read_buddy (case olds of [] \<Rightarrow> zero_buddy | b # _ \<Rightarrow> b) j = Some b"
    "read_elements (tl olds) js = Some l'" "l = b # l'"
    by (auto split: option.splits)
  have "buddy_typed (case olds of [] \<Rightarrow> zero_buddy | b # _ \<Rightarrow> b)"
    using 2(3) zero_buddy_typed by (cases olds) auto
  moreover have "list_all buddy_typed (tl olds)" using 2(3) by (cases olds) auto
  ultimately show ?case using 2(1) [OF b(1,2)] read_buddy_typed [OF b(1)] b(3) by simp
qed simp

lemma read_buddies_typed:
  "read_buddies olds j = Some (l, sp) \<Longrightarrow> list_all buddy_typed olds \<Longrightarrow> list_all buddy_typed l \<and> list_all buddy_typed sp"
  by (cases "(olds, j)" rule: read_buddies.cases)
    (auto simp: list_all_iff dest: in_set_dropD read_elements_typed simp del: read_elements.simps)

lemma read_state_member_typed:
  "read_state_member m (s, sp) = Some (s', sp') \<Longrightarrow> state_typed s \<and> list_all buddy_typed sp \<Longrightarrow>
     state_typed s' \<and> list_all buddy_typed sp'"
  by (auto simp: read_state_member_def state_typed_def
      split: prod.splits option.splits if_splits dest: read_string_valid read_int_range read_buddies_typed)

lemma Unmarshal_typed: "Unmarshal data = Inr s \<Longrightarrow> state_typed s"
proof -
  assume "Unmarshal data = Inr s"
  then obtain j where j: "unmarshal_state j = Some s" by (auto simp: Unmarshal_def split: option.splits)
  have z: "state_typed zero_state" by (simp add: state_typed_def zero_state_def)
  show "state_typed s"
  proof (cases j)
    case (JObj ms)
    with j obtain sp where f: "fold_members read_state_member ms (zero_state, []) = Some (s, sp)" by auto
    have "case (s, sp) of (s, sp) \<Rightarrow> state_typed s \<and> list_all buddy_typed sp"
      by (rule fold_members_inv [OF f]) (use z in \<open>auto dest: read_state_member_typed\<close>)
    then show ?thesis by simp
  qed (use j z in auto)
qed

section \<open>The file\<close>

text \<open>
  What of the machine the program sees. \<open>w_config\<close> is \<open>os.UserConfigDir\<close> (a clean path), \<open>w_files\<close>
  the files; the other fields say how the next calls fail: a read other than by a missing
  file, \<open>MkdirAll\<close>, and \<open>WriteFile\<close> before it has touched the file or after so many bytes. \<open>w_out\<close>
  and \<open>w_err\<close> are what was printed, format and arguments.
\<close>

datatype write_fault = OpenFails go_err | WriteFails go_err nat

record world =
  w_config :: "string result"
  w_files :: "string \<rightharpoonup> string"
  w_read_fault :: "go_err option"
  w_mkdir_fault :: "go_err option"
  w_write_fault :: "write_fault option"
  w_out :: "(string \<times> fmt_arg list) list"
  w_err :: "(string \<times> fmt_arg list) list"

definition statePath :: "world \<Rightarrow> string result" where
  "statePath w = rbind (rwrap ''locate config dir: %w'' (w_config w)) (\<lambda>cfg. Inr (cfg @ ''/kozi/state.json''))"

definition new_state :: kozi_state where
  "new_state = \<lparr>ks_Version = stateVersion, ks_CurrentLocation = [], ks_Buddies = []\<rparr>"

definition loadState :: "(world, kozi_state) op" where
  "loadState w =
     (case statePath w of
        Inl e \<Rightarrow> (Inl e, w)
      | Inr path \<Rightarrow>
          (case w_read_fault w of
             Some e \<Rightarrow> (Inl (Errorf ''read state %s: %w'' [AStr path, AWrap e]), w)
           | None \<Rightarrow>
               (case w_files w path of
                  None \<Rightarrow> (Inr new_state, w)
                | Some data \<Rightarrow>
                    (case Unmarshal data of
                       Inl e \<Rightarrow> (Inl (Errorf ''parse state %s: %w'' [AStr path, AWrap e]), w)
                     | Inr s \<Rightarrow> (Inr s, w)))))"

definition saveState :: "kozi_state \<Rightarrow> (world, unit) op" where
  "saveState s w =
     (case statePath w of
        Inl e \<Rightarrow> (Inl e, w)
      | Inr path \<Rightarrow>
          (case w_mkdir_fault w of
             Some e \<Rightarrow> (Inl (wrapf ''create config dir: %w'' e), w)
           | None \<Rightarrow>
               (case MarshalIndent s of
                  Inl e \<Rightarrow> (Inl (wrapf ''encode state: %w'' e), w)
                | Inr data \<Rightarrow>
                    (case w_write_fault w of
                       Some (OpenFails e) \<Rightarrow> (Inl (Errorf ''write state %s: %w'' [AStr path, AWrap e]), w)
                     | Some (WriteFails e k) \<Rightarrow>
                         (Inl (Errorf ''write state %s: %w'' [AStr path, AWrap e]),
                          w\<lparr>w_files := (w_files w)(path \<mapsto> take k data)\<rparr>)
                     | None \<Rightarrow> (Inr (), w\<lparr>w_files := (w_files w)(path \<mapsto> data)\<rparr>)))))"

text \<open>What is stored, as the next \<open>loadState\<close> sees it when it can read at all.\<close>

definition stored :: "world \<Rightarrow> kozi_state option" where
  "stored w =
     (case statePath w of
        Inl e \<Rightarrow> None
      | Inr path \<Rightarrow>
          (case w_files w path of
             None \<Rightarrow> Some new_state
           | Some data \<Rightarrow> (case Unmarshal data of Inl e \<Rightarrow> None | Inr s \<Rightarrow> Some s)))"

lemma loadState_world [simp]: "snd (loadState w) = w"
  by (simp add: loadState_def split: sum.split option.split)

lemma loadState_Inr: "loadState w = (Inr s, w') \<Longrightarrow> stored w = Some s \<and> w' = w \<and> (\<exists>p. statePath w = Inr p)"
  by (auto simp: loadState_def stored_def split: sum.splits option.splits)

lemma loadState_stored:
  "w_read_fault w = None \<Longrightarrow> stored w = Some s \<Longrightarrow> loadState w = (Inr s, w)"
  by (auto simp: loadState_def stored_def split: sum.splits option.splits)

lemma stored_cong:
  "w_config w = w_config w' \<Longrightarrow> w_files w = w_files w' \<Longrightarrow> stored w = stored w'"
  by (cases "w_config w'") (simp_all add: stored_def statePath_def)

lemma loadState_Inl: "loadState w = (Inl e, w') \<Longrightarrow> w' = w"
  using loadState_world [of w] by simp

lemma stored_typed: "stored w = Some s \<Longrightarrow> state_typed s"
  by (auto simp: stored_def Unmarshal_typed split: sum.splits option.splits)
    (simp add: state_typed_def new_state_def stateVersion_def)

text \<open>A file that holds the text of a state.\<close>

lemma stored_text:
  assumes "typed s" "MarshalIndent s = Inr data" "statePath w = Inr p" "w_files w p = Some data"
  shows "stored w = Some (valid_state s)"
  using Unmarshal_MarshalIndent [OF typed_storable [OF assms(1,2)]] assms by (simp add: stored_def)

lemma statePath_files [simp]: "statePath (w\<lparr>w_files := f\<rparr>) = statePath w"
  by (simp add: statePath_def)

lemma saveState_Inr:
  assumes "saveState s w = (Inr u, w')" "typed s"
  shows "stored w' = Some (valid_state s)" "w_config w' = w_config w" "w_out w' = w_out w" "storable s"
proof -
  from assms obtain p data where p: "statePath w = Inr p" "MarshalIndent s = Inr data"
    and w': "w' = w\<lparr>w_files := (w_files w)(p \<mapsto> data)\<rparr>"
    by (auto simp: saveState_def split: sum.splits option.splits write_fault.splits)
  then show "stored w' = Some (valid_state s)" using assms(2) by (intro stored_text [where p = p]) simp_all
  show "storable s" by (rule typed_storable [OF assms(2) p(2)])
  show "w_config w' = w_config w" "w_out w' = w_out w" using w' by simp_all
qed

text \<open>
  A failed save: nothing was written, or the write broke off; then what the file holds is no
  state, or the whole new one.
\<close>

lemma saveState_Inl:
  assumes "saveState s w = (Inl e, w')"
  shows "w' = w \<or> (\<exists>p e' k data. w_write_fault w = Some (WriteFails e' k) \<and> statePath w = Inr p
     \<and> MarshalIndent s = Inr data \<and> w' = w\<lparr>w_files := (w_files w)(p \<mapsto> take k data)\<rparr>)"
  using assms by (auto simp: saveState_def split: sum.splits option.splits write_fault.splits)

lemma torn_stored:
  assumes "saveState s w = (Inl e, w')" "typed s"
  shows "w' = w \<or> stored w' = None \<or> stored w' = Some (valid_state s)"
  using saveState_Inl [OF assms(1)]
proof (elim disjE exE conjE)
  fix p e' k data
  assume p: "statePath w = Inr p" "MarshalIndent s = Inr data" "w' = w\<lparr>w_files := (w_files w)(p \<mapsto> take k data)\<rparr>"
  show ?thesis
  proof (cases "k < length data")
    case True
    then show ?thesis using torn_text [OF p(2) True] p by (simp add: stored_def Unmarshal_def)
  next
    case False
    then have "stored w' = Some (valid_state s)"
      using p by (intro stored_text [OF assms(2) p(2), where p = p]) simp_all
    then show ?thesis by blast
  qed
qed simp

text \<open>
  The contract of the state file: what was saved is what is loaded. Stated as an interface, so
  that the commands rest on nothing else of the file.
\<close>

locale persistent =
  fixes load :: "('w, 's) op" and save :: "'s \<Rightarrow> ('w, unit) op"
    and contents :: "'w \<Rightarrow> 's option" and fits :: "'s \<Rightarrow> bool" and kept :: "'s \<Rightarrow> 's"
  assumes load_contents: "load w = (Inr s, w') \<Longrightarrow> contents w = Some s \<and> w' = w"
    and load_fails: "load w = (Inl e, w') \<Longrightarrow> w' = w"
    and save_contents: "save s w = (Inr u, w') \<Longrightarrow> fits s \<Longrightarrow> contents w' = Some (kept s)"
begin

text \<open>A modification that was read, changed and saved is there afterwards.\<close>

lemma update_contents:
  assumes "load w = (Inr s, w1)" "save s' w1 = (Inr u, w2)"
  shows "w1 = w" "contents w = Some s" "fits s' \<Longrightarrow> contents w2 = Some (kept s')"
  using load_contents [OF assms(1)] save_contents [OF assms(2)] by simp_all

end

interpretation state_file: persistent loadState saveState stored typed valid_state
  by unfold_locales (auto dest: loadState_Inr loadState_Inl saveState_Inr(1))

section \<open>Properties of the file\<close>

lemma marshal_buddies_iff:
  "list_all (\<lambda>b. time_typed (bd_LastSeenAt b)) l \<Longrightarrow>
     (\<exists>js. marshal_buddies l = Inr js) \<longleftrightarrow> list_all (\<lambda>b. \<bar>t_offset (bd_LastSeenAt b)\<bar> < 86400) l"
  using marshal_buddies_typed [of l] marshal_buddies_ok [of l]
  by (auto simp: list_all_iff time_typed_ok_iff)

lemma MarshalIndent_iff:
  "typed s \<Longrightarrow> (\<exists>data. MarshalIndent s = Inr data) \<longleftrightarrow> list_all (\<lambda>b. \<bar>t_offset (bd_LastSeenAt b)\<bar> < 86400) (ks_Buddies s)"
  using marshal_buddies_iff [of "ks_Buddies s"]
  by (auto simp: typed_def MarshalIndent_def marshal_state_def)

text \<open>C28: Whatever bytes the state file holds - written by the program or by hand, with any members
  in any order, repeated, null or unknown -, a state that \<open>loadState\<close> returns is well typed: the
  version is a 64-bit integer, every string is valid UTF-8, every time is a date of the years 0 to
  9999 with less than a second of nanoseconds and a zone of whole minutes. Loading changes
  nothing, and the state can be encoded again exactly when no time lies in a zone 24 hours or
  more from UTC, which reading accepts and writing refuses.\<close>

theorem loaded_state_typed:
  assumes "loadState w = (Inr s, w')"
  shows "w' = w \<and> state_typed s
    \<and> ((\<exists>data. MarshalIndent s = Inr data) \<longleftrightarrow> list_all (\<lambda>b. \<bar>t_offset (bd_LastSeenAt b)\<bar> < 86400) (ks_Buddies s))"
proof -
  from loadState_Inr [OF assms] have "w' = w" "stored w = Some s" by simp_all
  moreover from stored_typed [OF this(2)] have "state_typed s" .
  moreover from this have "typed s" by (simp add: state_typed_iff)
  ultimately show ?thesis using MarshalIndent_iff by simp
qed

text \<open>The witness loads a file somebody edited: a key in capitals, buddies listed twice, unknown
  members, an hour of one digit, a zone of 24 hours. The second list is written over the first,
  so its buddy has the time of the one that stood there.\<close>

definition edited_file :: string where
  "edited_file = map (\<lambda>c. if c = CHR ''`'' then quote_char else c)
     ''{ `BUDDIES`: [{`last_seen_at`: `2024-02-29T7:05:09+24:00`, `name`: `a`}], `x`: [1e3, true], `buddies`: [{`name`: `b`}] }''"

definition edited_state :: kozi_state where
  "edited_state = \<lparr>ks_Version = 0, ks_CurrentLocation = [], ks_Buddies = [zero_buddy\<lparr>bd_Name := ''b'',
     bd_LastSeenAt := \<lparr>t_local = 63844787109, t_nsec = 0, t_offset = 86400\<rparr>\<rparr>]\<rparr>"

lemma edited_file_read: "Unmarshal edited_file = Inr edited_state"
  by code_simp

definition edited_world :: world where
  "edited_world = \<lparr>w_config = Inr ''/c'', w_files = [''/c/kozi/state.json'' \<mapsto> edited_file],
     w_read_fault = None, w_mkdir_fault = None, w_write_fault = None, w_out = [], w_err = []\<rparr>"

theorem loaded_state_typed_witness:
  "state_typed edited_state \<and> (\<nexists>data. MarshalIndent edited_state = Inr data)"
proof -
  have "loadState edited_world = (Inr edited_state, edited_world)"
    by (simp add: loadState_def statePath_def edited_world_def edited_file_read)
  from loaded_state_typed [OF this] show ?thesis by (simp add: edited_state_def)
qed

text \<open>C27: Any state whose times \<open>MarshalJSON\<close> accepts is encoded, and what is decoded from the text -
  the quoted and escaped strings, the numbers, the times, the members left out for being empty -
  is that state again, every byte of its strings that is not UTF-8 replaced by U+FFFD. Every
  proper beginning of the text, as a write that breaks off leaves it, is refused.\<close>

theorem state_file_roundtrip:
  assumes "storable s"
  shows "\<exists>data. MarshalIndent s = Inr data \<and> Unmarshal data = Inr (valid_state s)
    \<and> (\<forall>k < length data. \<exists>e. Unmarshal (take k data) = Inl e)"
proof -
  from Unmarshal_MarshalIndent [OF assms] obtain data where
    d: "MarshalIndent s = Inr data" "Unmarshal data = Inr (valid_state s)" by blast
  have "\<exists>e. Unmarshal (take k data) = Inl e" if "k < length data" for k
    using torn_text [OF d(1) that] by (simp add: Unmarshal_def)
  with d show ?thesis by blast
qed

definition latin1_state :: kozi_state where
  "latin1_state = \<lparr>ks_Version = 1, ks_CurrentLocation = [], ks_Buddies = [zero_buddy\<lparr>bd_Name := ''Jos'' @ [CHR 0xE9]\<rparr>]\<rparr>"

theorem state_file_roundtrip_witness:
  "\<exists>data. MarshalIndent latin1_state = Inr data
    \<and> Unmarshal data = Inr (latin1_state\<lparr>ks_Buddies := [zero_buddy\<lparr>bd_Name := ''Jos'' @ [CHR 0xEF, CHR 0xBF, CHR 0xBD]\<rparr>]\<rparr>)"
proof -
  have "storable latin1_state"
    by (simp add: storable_def latin1_state_def zero_buddy_def zero_time_ok)
  moreover have "valid_state latin1_state
      = latin1_state\<lparr>ks_Buddies := [zero_buddy\<lparr>bd_Name := ''Jos'' @ [CHR 0xEF, CHR 0xBF, CHR 0xBD]\<rparr>]\<rparr>"
    by code_simp
  ultimately show ?thesis using state_file_roundtrip [of latin1_state] by auto
qed

end
