(* ===== verification/Kozi_Commands.thy ===== *)
theory Kozi_Commands
  imports Kozi_State
begin

text \<open>
  The commands \<open>pair\<close>, \<open>list\<close>, \<open>set-location\<close> and \<open>unpair\<close> of \<open>cmd/kozi-cli/commands.go\<close> on the
  persisted state, with what they print, and the invariant of the buddy list they keep.
\<close>

section \<open>The platform\<close>

text \<open>
  Library functions the model does not define: SHA-256, and \<open>strings.ToUpper\<close> on a string that is
  not ASCII.
\<close>

record platform =
  pf_sha256 :: "bytes \<Rightarrow> bytes"
  pf_upper :: "string \<Rightarrow> string"

definition upper_char :: "char \<Rightarrow> char" where
  "upper_char c = (if in_range 97 122 c then char_of (of_char c - (32 :: nat)) else c)"

definition ToUpper :: "platform \<Rightarrow> string \<Rightarrow> string" where
  "ToUpper pf s = (if is_ascii s then map upper_char s else pf_upper pf s)"

text \<open>\<open>hex.EncodeToString\<close>.\<close>

definition hex_lower :: "nat \<Rightarrow> char" where
  "hex_lower d = ''0123456789abcdef'' ! d"

definition hex_encode :: "bytes \<Rightarrow> string" where
  "hex_encode b = concat (map (\<lambda>x. [hex_lower (unat x div 16), hex_lower (unat x mod 16)]) b)"

text \<open>\<open>fmt.Printf\<close>, and a format that ends its line.\<close>

definition line :: "string \<Rightarrow> string" where
  "line s = s @ [newline_char]"

definition printf :: "string \<Rightarrow> fmt_arg list \<Rightarrow> (world, unit) op" where
  "printf f args w = (Inr (), w\<lparr>w_out := w_out w @ [(f, args)]\<rparr>)"

section \<open>Plus codes\<close>

definition proximityPrefixLen :: nat where "proximityPrefixLen = 6"

definition strip_plus :: "platform \<Rightarrow> string \<Rightarrow> string" where
  "strip_plus pf s = ToUpper pf (filter (\<lambda>c. c \<noteq> CHR ''+'') s)"

definition normalizePlusCode :: "platform \<Rightarrow> string \<Rightarrow> string" where
  "normalizePlusCode pf s =
     (let s' = strip_plus pf s in
      if length s' > proximityPrefixLen then take proximityPrefixLen s' else s')"

section \<open>Pairing\<close>

definition secret_input :: "SMPQueueURI \<Rightarrow> bytes" where
  "secret_input uri = bs (''kozi-proximity-v1'' @ [CHR 0x00]) @ qu_SenderID uri @ qu_DHPubKey uri @ qu_ServerFingerprint uri"

definition deriveProximitySecret :: "platform \<Rightarrow> SMPQueueURI \<Rightarrow> bytes" where
  "deriveProximitySecret pf uri = pf_sha256 pf (secret_input uri)"

definition pair_buddy :: "platform \<Rightarrow> string \<Rightarrow> string \<Rightarrow> SMPQueueURI \<Rightarrow> kozi_state \<Rightarrow> kozi_state result" where
  "pair_buddy pf name uriStr uri s =
     (if list_ex (\<lambda>b. bd_Name b = name) (ks_Buddies s)
      then Inl (Errorf ''buddy %q already paired; `kozi-cli unpair %s` first'' [AStr name, AStr name])
      else Inr (s\<lparr>ks_Buddies := ks_Buddies s @
             [\<lparr>bd_Name = name, bd_SharedSecret = hex_encode (deriveProximitySecret pf uri),
               bd_SimpleXLink = uriStr, bd_LastSeenGrid = [], bd_LastSeenAt = zero_time\<rparr>]\<rparr>))"

definition cmdPair :: "platform \<Rightarrow> string list \<Rightarrow> (world, unit) op" where
  "cmdPair pf args =
     (case args of
        [name, uriStr] \<Rightarrow>
          if name = [] then op_fail (ErrNew ''buddy name must not be empty'')
          else
            op_bind (op_lift (rwrap ''parse SMP URI: %w'' (ParseSMPQueueURI uriStr))) (\<lambda>uri.
            op_bind loadState (\<lambda>s.
            op_bind (op_lift (pair_buddy pf name uriStr uri s)) (\<lambda>s'.
            op_bind (saveState s') (\<lambda>_.
            printf (line ''Paired %s (server %s:%d)'') [AStr name, AStr (qu_Host uri), AInt (uint (qu_Port uri))]))))
      | _ \<Rightarrow> op_fail (ErrNew ''pair requires <buddy-name> <smp-uri>''))"

section \<open>Listing\<close>

definition box_line :: "nat \<Rightarrow> string" where
  "box_line n = concat (replicate n [CHR 0xE2, CHR 0x94, CHR 0x80])"

definition list_row :: "platform \<Rightarrow> buddy \<Rightarrow> (world, unit) op" where
  "list_row pf b =
     (let grid = (if bd_LastSeenGrid b = [] then ''(none)'' else bd_LastSeenGrid b);
          lastSeen = (if IsZero (bd_LastSeenAt b) then ''never'' else FormatRFC3339 (bd_LastSeenAt b))
      in printf (line ''%-20s  %-10s  %s'') [AStr (bd_Name b), AStr grid, AStr lastSeen])"

fun list_rows :: "platform \<Rightarrow> buddy list \<Rightarrow> (world, unit) op" where
  "list_rows pf [] = op_return ()"
| "list_rows pf (b # l) = op_bind (list_row pf b) (\<lambda>_. list_rows pf l)"

definition cmdList :: "platform \<Rightarrow> string list \<Rightarrow> (world, unit) op" where
  "cmdList pf args =
     (if length args \<noteq> 0 then op_fail (ErrNew ''list takes no arguments'')
      else
        op_bind loadState (\<lambda>s.
        op_bind (if ks_CurrentLocation s \<noteq> []
                 then printf (line ''Current location: %s'') [AStr (ks_CurrentLocation s)]
                 else printf (line ''Current location: (not set; use `kozi-cli set-location <plus-code>`)'') []) (\<lambda>_.
        if length (ks_Buddies s) = 0
        then printf (newline_char # line ''No buddies paired. Use `kozi-cli pair <smp-uri>` to add one.'') []
        else
          op_bind (printf (newline_char # line ''%-20s  %-10s  %s'') [AStr ''BUDDY'', AStr ''GRID'', AStr ''LAST SEEN'']) (\<lambda>_.
          op_bind (printf (line ''%-20s  %-10s  %s'') [AStr (box_line 5), AStr (box_line 4), AStr (box_line 9)]) (\<lambda>_.
          list_rows pf (ks_Buddies s))))))"

section \<open>Location and unpairing\<close>

definition cmdSetLocation :: "platform \<Rightarrow> string list \<Rightarrow> (world, unit) op" where
  "cmdSetLocation pf args =
     (case args of
        [raw] \<Rightarrow>
          if length raw < 4
          then op_fail (Errorf ''plus-code %q too short (need at least 4 chars)'' [AStr raw])
          else if length raw > 16
          then op_fail (Errorf ''plus-code %q implausibly long (max 16 chars before normalization)'' [AStr raw])
          else
            let code = normalizePlusCode pf raw in
            op_bind loadState (\<lambda>s.
            op_bind (saveState (s\<lparr>ks_CurrentLocation := code\<rparr>)) (\<lambda>_.
            if code = strip_plus pf raw
            then printf (line ''Current location set to %s'') [AStr code]
            else printf (line ''Current location set to %s (truncated from %q to %d-char neighborhood prefix for privacy)'')
                   [AStr code, AStr raw, AInt (int proximityPrefixLen)]))
      | _ \<Rightarrow> op_fail (ErrNew ''set-location requires exactly one argument: <plus-code>''))"

text \<open>The loop with \<open>break\<close>: the index of the first buddy of that name.\<close>

fun find_buddy :: "string \<Rightarrow> buddy list \<Rightarrow> int" where
  "find_buddy name [] = -1"
| "find_buddy name (b # l) =
     (if bd_Name b = name then 0 else (let i = find_buddy name l in if i = -1 then -1 else i + 1))"

definition unpair_buddy :: "string \<Rightarrow> kozi_state \<Rightarrow> kozi_state result" where
  "unpair_buddy name s =
     (let idx = find_buddy name (ks_Buddies s) in
      if idx = -1 then Inl (Errorf ''no buddy named %q'' [AStr name])
      else Inr (s\<lparr>ks_Buddies := take (nat idx) (ks_Buddies s) @ drop (nat (idx + 1)) (ks_Buddies s)\<rparr>))"

definition cmdUnpair :: "platform \<Rightarrow> string list \<Rightarrow> (world, unit) op" where
  "cmdUnpair pf args =
     (case args of
        [name] \<Rightarrow>
          op_bind loadState (\<lambda>s.
          op_bind (op_lift (unpair_buddy name s)) (\<lambda>s'.
          op_bind (saveState s') (\<lambda>_.
          printf (line ''Unpaired %s'') [AStr name])))
      | _ \<Rightarrow> op_fail (ErrNew ''unpair requires exactly one argument: <buddy-name>''))"

section \<open>Read, modify, write\<close>

text \<open>
  The three commands that change the state have one shape. What it does: it fails and leaves
  the files alone (unless a write breaks off), or it stores the modified state and prints.
\<close>

definition update_cmd ::
  "platform \<Rightarrow> (kozi_state \<Rightarrow> kozi_state result) \<Rightarrow> string \<times> fmt_arg list \<Rightarrow> (world, unit) op" where
  "update_cmd pf f out =
     op_bind loadState (\<lambda>s.
     op_bind (op_lift (f s)) (\<lambda>s'.
     op_bind (saveState s') (\<lambda>_. printf (fst out) (snd out))))"

definition set_location :: "string \<Rightarrow> kozi_state \<Rightarrow> kozi_state result" where
  "set_location code s = Inr (s\<lparr>ks_CurrentLocation := code\<rparr>)"

lemma op_bind_lift [simp]: "op_bind (op_lift (Inr x)) f = f x" "op_bind (op_lift (Inl e)) f = op_fail e"
  by (rule ext, simp add: op_bind_def op_lift_def)+

lemma cmdPair_update:
  "cmdPair pf [name, uriStr] =
     (if name = [] then op_fail (ErrNew ''buddy name must not be empty'')
      else case ParseSMPQueueURI uriStr of
        Inl e \<Rightarrow> op_fail (wrapf ''parse SMP URI: %w'' e)
      | Inr uri \<Rightarrow> update_cmd pf (pair_buddy pf name uriStr uri)
          (line ''Paired %s (server %s:%d)'', [AStr name, AStr (qu_Host uri), AInt (uint (qu_Port uri))]))"
  by (simp add: cmdPair_def update_cmd_def split: sum.split)

definition location_message :: "platform \<Rightarrow> string \<Rightarrow> string \<times> fmt_arg list" where
  "location_message pf raw =
     (let code = normalizePlusCode pf raw in
      if code = strip_plus pf raw then (line ''Current location set to %s'', [AStr code])
      else (line ''Current location set to %s (truncated from %q to %d-char neighborhood prefix for privacy)'',
              [AStr code, AStr raw, AInt (int proximityPrefixLen)]))"

lemma cmdSetLocation_update:
  "4 \<le> length raw \<Longrightarrow> length raw \<le> 16 \<Longrightarrow>
     cmdSetLocation pf [raw] = update_cmd pf (set_location (normalizePlusCode pf raw)) (location_message pf raw)"
  by (simp add: cmdSetLocation_def update_cmd_def set_location_def location_message_def Let_def)

lemma cmdUnpair_update:
  "cmdUnpair pf [name] = update_cmd pf (unpair_buddy name) (line ''Unpaired %s'', [AStr name])"
  by (simp add: cmdUnpair_def update_cmd_def)

text \<open>A write that breaks off.\<close>

definition torn :: "world \<Rightarrow> bool" where
  "torn w \<longleftrightarrow> (case w_write_fault w of Some (WriteFails e k) \<Rightarrow> True | _ \<Rightarrow> False)"

lemma update_fails:
  assumes "update_cmd pf f out w = (Inl e, w')" "\<not> torn w"
  shows "w' = w"
proof -
  have "w' = w" if "saveState s w = (Inl e', w')" for s e'
    using saveState_Inl [OF that] assms(2) by (auto simp: torn_def)
  with assms(1) show ?thesis
    by (auto simp: update_cmd_def op_bind_def op_lift_def printf_def dest: loadState_Inr loadState_Inl
        split: prod.splits sum.splits)
qed

lemma update_succeeds:
  assumes "update_cmd pf f out w = (Inr u, w')"
  obtains s s' where "stored w = Some s" "f s = Inr s'"
    "typed s' \<Longrightarrow> stored w' = Some (valid_state s') \<and> storable s'"
    "w_config w' = w_config w" "w_out w' = w_out w @ [out]"
proof -
  from assms obtain s w1 s' w2 v where l: "loadState w = (Inr s, w1)" and f: "f s = Inr s'"
    and v: "saveState s' w1 = (Inr v, w2)" and p: "printf (fst out) (snd out) w2 = (Inr u, w')"
    by (auto simp: update_cmd_def op_bind_eq_Inr op_lift_def)
  note w1 = state_file.update_contents [OF l v]
  from p have w': "w' = w2\<lparr>w_out := w_out w2 @ [out]\<rparr>" by (simp add: printf_def)
  have cfg: "w_config w2 = w_config w" "w_out w2 = w_out w"
    using v w1(1) by (auto simp: saveState_def split: sum.splits option.splits write_fault.splits)
  have "stored w' = stored w2" by (rule stored_cong) (simp_all add: w')
  with w1(3) saveState_Inr(4) [OF v] that [OF w1(2) f] cfg w' show ?thesis by simp
qed

text \<open>A failed update on any machine: the old state, none that can be read, or the whole new one.\<close>

lemma update_torn:
  assumes "update_cmd pf f out w = (Inl e, w')"
  shows "w' = w \<or> (\<exists>s s'. stored w = Some s \<and> f s = Inr s'
    \<and> (typed s' \<longrightarrow> w' = w \<or> stored w' = None \<or> stored w' = Some (valid_state s')))"
proof (cases "loadState w")
  case (Pair rs w1)
  show ?thesis
  proof (cases rs)
    case (Inl e')
    with assms Pair show ?thesis by (auto simp: update_cmd_def op_bind_def dest: loadState_Inl)
  next
    case (Inr s)
    with Pair have l: "stored w = Some s" "w1 = w" "loadState w = (Inr s, w)" using loadState_Inr by auto
    show ?thesis
    proof (cases "f s")
      case (Inl e')
      with assms l show ?thesis by (simp add: update_cmd_def op_bind_def op_lift_def)
    next
      case f: (Inr s')
      with assms l have "saveState s' w = (Inl e, w')"
        by (auto simp: update_cmd_def op_bind_def op_lift_def printf_def split: prod.splits sum.splits)
      from torn_stored [OF this] l(1) f show ?thesis by blast
    qed
  qed
qed

text \<open>What is left is refused, or is what the update writes when the write does not break off.\<close>

lemma statePath_write_fault [simp]: "statePath (w\<lparr>w_write_fault := x\<rparr>) = statePath w"
  by (simp add: statePath_def)

lemma loadState_write_fault:
  "loadState (w\<lparr>w_write_fault := x\<rparr>) = (fst (loadState w), w\<lparr>w_write_fault := x\<rparr>)"
  by (simp add: loadState_def split: sum.split option.split)

lemma saveState_torn:
  assumes "saveState s w = (Inl e, w')"
  shows "w' = w \<or> torn w \<and> (stored w' = None
    \<or> (\<exists>w0. saveState s (w\<lparr>w_write_fault := None\<rparr>) = (Inr (), w0) \<and> w_files w' = w_files w0))"
  using saveState_Inl [OF assms]
proof (elim disjE exE conjE)
  fix p e' k data
  assume p: "w_write_fault w = Some (WriteFails e' k)" "statePath w = Inr p" "MarshalIndent s = Inr data"
    "w' = w\<lparr>w_files := (w_files w)(p \<mapsto> take k data)\<rparr>"
  then have t: "torn w" by (simp add: torn_def)
  show ?thesis
  proof (cases "k < length data")
    case True
    then have "stored w' = None" using torn_text [OF p(3) True] p by (simp add: stored_def Unmarshal_def)
    with t show ?thesis by simp
  next
    case False
    show ?thesis
    proof (cases "w_mkdir_fault w")
      case (Some x)
      with assms p(2) have "w' = w" by (simp add: saveState_def)
      then show ?thesis by simp
    next
      case None
      then have "saveState s (w\<lparr>w_write_fault := None\<rparr>)
          = (Inr (), w\<lparr>w_write_fault := None, w_files := (w_files w)(p \<mapsto> data)\<rparr>)"
        using p by (simp add: saveState_def)
      with t False p show ?thesis by simp
    qed
  qed
qed simp

lemma update_torn_files:
  assumes "update_cmd pf f out w = (Inl e, w')"
  shows "w' = w \<or> torn w \<and> (stored w' = None
    \<or> (\<exists>w0. update_cmd pf f out (w\<lparr>w_write_fault := None\<rparr>) = (Inr (), w0) \<and> w_files w' = w_files w0))"
proof (cases "fst (loadState w)")
  case (Inl e')
  with assms show ?thesis using loadState_Inl [of w] by (cases "loadState w") (auto simp: update_cmd_def op_bind_def)
next
  case (Inr s)
  then have l: "loadState w = (Inr s, w)" using loadState_world [of w] by (metis prod.collapse)
  show ?thesis
  proof (cases "f s")
    case (Inl e')
    with assms l show ?thesis by (simp add: update_cmd_def op_bind_def op_lift_def)
  next
    case f: (Inr s')
    with assms l have "saveState s' w = (Inl e, w')"
      by (auto simp: update_cmd_def op_bind_def op_lift_def printf_def split: prod.splits sum.splits)
    from saveState_torn [OF this] show ?thesis
    proof (elim disjE conjE exE)
      fix w0
      assume "torn w" "saveState s' (w\<lparr>w_write_fault := None\<rparr>) = (Inr (), w0)" "w_files w' = w_files w0"
      then show ?thesis using l f
        by (simp add: update_cmd_def op_bind_def op_lift_def printf_def loadState_write_fault)
    qed simp_all
  qed
qed

text \<open>Nothing that fails: a config directory, and no fault of a call.\<close>

definition healthy :: "world \<Rightarrow> bool" where
  "healthy w \<longleftrightarrow> is_ok (w_config w) \<and> w_read_fault w = None \<and> w_mkdir_fault w = None \<and> w_write_fault w = None"

lemma update_healthy:
  assumes "healthy w" "stored w = Some s" "f s = Inr s'" "storable s'"
  shows "\<exists>w'. update_cmd pf f out w = (Inr (), w') \<and> healthy w'"
proof -
  from assms(1) obtain p where p: "statePath w = Inr p" by (auto simp: healthy_def is_ok_iff statePath_def)
  have "loadState w = (Inr s, w)"
    using assms(1,2) by (intro loadState_stored) (simp_all add: healthy_def)
  moreover obtain data where "MarshalIndent s' = Inr data" using Unmarshal_MarshalIndent [OF assms(4)] by blast
  ultimately show ?thesis using assms p
    by (simp add: update_cmd_def op_bind_def op_lift_def saveState_def printf_def healthy_def)
qed

section \<open>The invariant of the buddy list\<close>

text \<open>
  Names are distinct and not empty, and every buddy's secret is the one its own invitation
  gives; the strings are the ones a JSON file holds.
\<close>

definition buddy_inv :: "platform \<Rightarrow> buddy \<Rightarrow> bool" where
  "buddy_inv pf b \<longleftrightarrow>
     (case ParseSMPQueueURI (bd_SimpleXLink b) of
        Inl e \<Rightarrow> False
      | Inr u \<Rightarrow> bd_SharedSecret b = hex_encode (deriveProximitySecret pf u))"

definition kozi_inv :: "platform \<Rightarrow> kozi_state \<Rightarrow> bool" where
  "kozi_inv pf s \<longleftrightarrow> valid_state s = s \<and> storable s
     \<and> distinct (map bd_Name (ks_Buddies s)) \<and> [] \<notin> set (map bd_Name (ks_Buddies s))
     \<and> list_all (buddy_inv pf) (ks_Buddies s)"

lemma hex_lower_ascii: "d < 16 \<Longrightarrow> in_range 0 0x7F (hex_lower d)"
proof -
  have "\<forall>d \<in> set [0..<16]. in_range 0 0x7F (hex_lower d)" by code_simp
  then show "d < 16 \<Longrightarrow> in_range 0 0x7F (hex_lower d)" by simp
qed

lemma byte_div_16: "unat (b :: byte) div 16 < 16"
  using unsigned_less [of b, where ?'a = nat] by (intro less_mult_imp_div_less) simp

lemma hex_encode_valid: "to_valid (hex_encode b) = hex_encode b"
proof -
  have "is_ascii (hex_encode b)"
    by (auto simp: is_ascii_def list_all_iff hex_encode_def intro!: hex_lower_ascii byte_div_16)
  then show ?thesis using ascii_valid utf8_valid_def by blast
qed

lemma kozi_inv_new: "kozi_inv pf new_state"
  by (simp add: kozi_inv_def new_state_def valid_state_def storable_def stateVersion_def)

lemma valid_state_iff:
  "valid_state s = s \<longleftrightarrow>
     to_valid (ks_CurrentLocation s) = ks_CurrentLocation s \<and> map valid_buddy (ks_Buddies s) = ks_Buddies s"
  by (cases s) (simp add: valid_state_def)

lemma kozi_inv_location:
  assumes "kozi_inv pf s"
  shows "kozi_inv pf (valid_state (s\<lparr>ks_CurrentLocation := l\<rparr>))"
proof -
  have "map valid_buddy (ks_Buddies s) = ks_Buddies s"
    using assms by (simp only: kozi_inv_def valid_state_iff)
  then have "ks_Buddies (valid_state (s\<lparr>ks_CurrentLocation := l\<rparr>)) = ks_Buddies s"
    "ks_Version (valid_state (s\<lparr>ks_CurrentLocation := l\<rparr>)) = ks_Version s"
    by (simp_all add: valid_state_def)
  with assms show ?thesis by (simp add: kozi_inv_def storable_def)
qed

lemma pair_buddy_inv:
  assumes "kozi_inv pf s" "name \<noteq> []" "utf8_valid name" "utf8_valid uriStr"
    "ParseSMPQueueURI uriStr = Inr uri" "pair_buddy pf name uriStr uri s = Inr s'"
  shows "kozi_inv pf s'"
proof -
  let ?b = "\<lparr>bd_Name = name, bd_SharedSecret = hex_encode (deriveProximitySecret pf uri),
    bd_SimpleXLink = uriStr, bd_LastSeenGrid = [], bd_LastSeenAt = zero_time\<rparr>"
  have s': "s' = s\<lparr>ks_Buddies := ks_Buddies s @ [?b]\<rparr>" "name \<notin> set (map bd_Name (ks_Buddies s))"
    using assms(6) by (auto simp: pair_buddy_def list_ex_iff split: if_splits)
  have "valid_buddy ?b = ?b" using assms(3,4) by (simp add: valid_buddy_def utf8_valid_def hex_encode_valid)
  then have "valid_state s' = s'" using assms(1) by (simp add: kozi_inv_def s'(1) valid_state_iff)
  moreover have "buddy_inv pf ?b" using assms(5) by (simp add: buddy_inv_def)
  ultimately show ?thesis
    using assms(1,2) s' by (auto simp: kozi_inv_def storable_def zero_time_ok)
qed

lemma find_buddy_cases:
  "(find_buddy name l = -1 \<and> name \<notin> set (map bd_Name l)) \<or>
   (\<exists>xs b ys. l = xs @ b # ys \<and> bd_Name b = name \<and> name \<notin> set (map bd_Name xs) \<and> find_buddy name l = int (length xs))"
proof (induction l)
  case (Cons a l)
  show ?case
  proof (cases "bd_Name a = name")
    case True
    then have "a # l = [] @ a # l \<and> find_buddy name (a # l) = int (length [])" by simp
    with True show ?thesis by (metis empty_iff list.set(1) list.simps(8))
  next
    case False
    with Cons show ?thesis
    proof (elim disjE exE conjE)
      fix xs b ys
      assume "l = xs @ b # ys" "bd_Name b = name" "name \<notin> set (map bd_Name xs)" "find_buddy name l = int (length xs)"
      with False have "a # l = (a # xs) @ b # ys \<and> bd_Name b = name \<and> name \<notin> set (map bd_Name (a # xs))
          \<and> find_buddy name (a # l) = int (length (a # xs))" by (simp add: Let_def)
      then show ?thesis by blast
    qed simp
  qed
qed simp

lemma unpair_buddy_cases:
  "(unpair_buddy name s = Inl (Errorf ''no buddy named %q'' [AStr name]) \<and> name \<notin> set (map bd_Name (ks_Buddies s))) \<or>
   (\<exists>xs b ys. ks_Buddies s = xs @ b # ys \<and> bd_Name b = name \<and> name \<notin> set (map bd_Name xs)
      \<and> unpair_buddy name s = Inr (s\<lparr>ks_Buddies := xs @ ys\<rparr>))"
  using find_buddy_cases [of name "ks_Buddies s"]
proof (elim disjE exE conjE)
  fix xs b ys
  assume x: "ks_Buddies s = xs @ b # ys" "bd_Name b = name" "name \<notin> set (map bd_Name xs)"
    and f: "find_buddy name (ks_Buddies s) = int (length xs)"
  have "unpair_buddy name s = Inr (s\<lparr>ks_Buddies := xs @ ys\<rparr>)"
    by (simp add: unpair_buddy_def f) (simp add: x(1) nat_add_distrib)
  with x show ?thesis by blast
qed (simp add: unpair_buddy_def)

lemma unpair_buddy_inv:
  assumes "kozi_inv pf s" "unpair_buddy name s = Inr s'"
  shows "kozi_inv pf s'"
proof -
  from unpair_buddy_cases [of name s] assms(2) obtain xs b ys where
    s: "ks_Buddies s = xs @ b # ys" "s' = s\<lparr>ks_Buddies := xs @ ys\<rparr>" by auto
  have "valid_state s' = s'" using assms(1) by (auto simp: kozi_inv_def s valid_state_iff append_eq_append_conv)
  with assms(1) s show ?thesis by (auto simp: kozi_inv_def storable_def)
qed

section \<open>The buddy list is a map from names to invitations\<close>

definition phonebook :: "kozi_state \<Rightarrow> string \<rightharpoonup> string" where
  "phonebook s = map_of (map (\<lambda>b. (bd_Name b, bd_SimpleXLink b)) (ks_Buddies s))"

datatype book_op = Pair_op string string | Unpair_op string

text \<open>The specification: pairing adds a new name with a valid invitation, unpairing removes one.\<close>

fun book_step :: "book_op \<Rightarrow> (string \<rightharpoonup> string) \<Rightarrow> (string \<rightharpoonup> string) option" where
  "book_step (Pair_op name link) m =
     (if name \<noteq> [] \<and> is_ok (ParseSMPQueueURI link) \<and> m name = None then Some (m(name \<mapsto> link)) else None)"
| "book_step (Unpair_op name) m = (if m name = None then None else Some (m(name := None)))"

fun run_op :: "platform \<Rightarrow> book_op \<Rightarrow> (world, unit) op" where
  "run_op pf (Pair_op name link) = cmdPair pf [name, link]"
| "run_op pf (Unpair_op name) = cmdUnpair pf [name]"

fun op_valid :: "book_op \<Rightarrow> bool" where
  "op_valid (Pair_op name link) = (utf8_valid name \<and> utf8_valid link)"
| "op_valid (Unpair_op name) = True"

lemma phonebook_None: "phonebook s name = None \<longleftrightarrow> name \<notin> set (map bd_Name (ks_Buddies s))"
  by (simp add: phonebook_def map_of_eq_None_iff image_image)

lemma map_of_remove:
  assumes "distinct (map fst (xs @ p # ys))"
  shows "map_of (xs @ ys) = (map_of (xs @ p # ys))(fst p := None)"
proof -
  have "fst p \<notin> fst ` set xs" "fst p \<notin> fst ` set ys" using assms by auto
  then have "map_of xs (fst p) = None" "map_of ys (fst p) = None" by (simp_all add: map_of_eq_None_iff)
  then show ?thesis by (cases p) (auto simp: map_add_def fun_eq_iff split: option.split)
qed

lemma phonebook_pair:
  assumes "pair_buddy pf name link uri s = Inr s'"
  shows "phonebook s' = (phonebook s)(name \<mapsto> link)"
proof -
  have "phonebook s name = None"
    using assms by (simp only: phonebook_None) (auto simp: pair_buddy_def list_ex_iff split: if_splits)
  then show ?thesis
    using assms
    by (auto simp: pair_buddy_def phonebook_def map_add_def fun_eq_iff split: if_splits option.split)
qed

lemma phonebook_unpair:
  assumes "kozi_inv pf s" "ks_Buddies s = xs @ b # ys"
  shows "phonebook (s\<lparr>ks_Buddies := xs @ ys\<rparr>) = (phonebook s)(bd_Name b := None)"
proof -
  let ?f = "\<lambda>b. (bd_Name b, bd_SimpleXLink b)"
  have "distinct (map fst (map ?f xs @ ?f b # map ?f ys))"
    using assms by (simp add: kozi_inv_def comp_def)
  from map_of_remove [OF this] show ?thesis by (simp add: phonebook_def assms(2))
qed

lemma update_stores:
  assumes "healthy w" "stored w = Some s" "f s = Inr s'" "storable s'"
  shows "\<exists>w'. update_cmd pf f out w = (Inr (), w') \<and> healthy w' \<and> stored w' = Some (valid_state s')"
proof -
  from update_healthy [where f = f, OF assms] obtain w' where w': "update_cmd pf f out w = (Inr (), w')" "healthy w'" by blast
  have "stored w' = Some (valid_state s')"
  proof (rule update_succeeds [OF w'(1)])
    fix s0 s1
    assume "stored w = Some s0" "f s0 = Inr s1" "typed s1 \<Longrightarrow> stored w' = Some (valid_state s1) \<and> storable s1"
    with assms show ?thesis by (simp add: storable_typed)
  qed
  with w' show ?thesis by blast
qed

lemma update_inv:
  assumes "healthy w" "stored w = Some s" "f s = Inr s'" "kozi_inv pf s'"
  shows "\<exists>w'. update_cmd pf f out w = (Inr (), w') \<and> healthy w' \<and> stored w' = Some s'"
  using update_stores [where f = f, OF assms(1-3)] assms(4) by (simp add: kozi_inv_def)

lemma update_error:
  "healthy w \<Longrightarrow> stored w = Some s \<Longrightarrow> f s = Inl e \<Longrightarrow> update_cmd pf f out w = (Inl e, w)"
  by (simp add: update_cmd_def op_bind_def loadState_stored healthy_def)

lemma pair_refines:
  assumes "healthy w" "stored w = Some s" "kozi_inv pf s" "utf8_valid name" "utf8_valid link"
    and "name \<noteq> []" "ParseSMPQueueURI link = Inr uri"
  shows "case pair_buddy pf name link uri s of
      Inl _ \<Rightarrow> phonebook s name \<noteq> None \<and> (\<exists>e. cmdPair pf [name, link] w = (Inl e, w))
    | Inr s' \<Rightarrow> phonebook s name = None \<and> kozi_inv pf s' \<and> phonebook s' = (phonebook s)(name \<mapsto> link)
        \<and> (\<exists>w'. cmdPair pf [name, link] w = (Inr (), w') \<and> healthy w' \<and> stored w' = Some s')"
proof (cases "pair_buddy pf name link uri s")
  case (Inl e)
  then have "phonebook s name \<noteq> None"
    by (simp only: phonebook_None) (auto simp: pair_buddy_def list_ex_iff split: if_splits)
  with Inl update_error [where f = "pair_buddy pf name link uri", OF assms(1,2) Inl] assms(6,7) show ?thesis
    by (simp add: cmdPair_update)
next
  case (Inr s')
  then have "phonebook s name = None"
    by (simp only: phonebook_None) (auto simp: pair_buddy_def list_ex_iff split: if_splits)
  moreover have inv: "kozi_inv pf s'" by (rule pair_buddy_inv [OF assms(3,6,4,5,7) Inr])
  moreover have "phonebook s' = (phonebook s)(name \<mapsto> link)" by (rule phonebook_pair [OF Inr])
  ultimately show ?thesis
    using Inr update_inv [where f = "pair_buddy pf name link uri", OF assms(1,2) Inr inv] assms(6,7)
    by (simp add: cmdPair_update)
qed

lemma unpair_refines:
  assumes "healthy w" "stored w = Some s" "kozi_inv pf s"
  shows "case unpair_buddy name s of
      Inl _ \<Rightarrow> phonebook s name = None \<and> (\<exists>e. cmdUnpair pf [name] w = (Inl e, w))
    | Inr s' \<Rightarrow> phonebook s name \<noteq> None \<and> kozi_inv pf s' \<and> phonebook s' = (phonebook s)(name := None)
        \<and> (\<exists>w'. cmdUnpair pf [name] w = (Inr (), w') \<and> healthy w' \<and> stored w' = Some s')"
  using unpair_buddy_cases [of name s]
proof (elim disjE exE conjE)
  assume e: "unpair_buddy name s = Inl (Errorf ''no buddy named %q'' [AStr name])"
    and "name \<notin> set (map bd_Name (ks_Buddies s))"
  then have "phonebook s name = None" by (simp only: phonebook_None) simp
  with e update_error [where f = "unpair_buddy name", OF assms(1,2) e] show ?thesis by (simp add: cmdUnpair_update)
next
  fix xs b ys
  assume s: "ks_Buddies s = xs @ b # ys" "bd_Name b = name"
    and u: "unpair_buddy name s = Inr (s\<lparr>ks_Buddies := xs @ ys\<rparr>)"
  then have "phonebook s name \<noteq> None" by (simp only: phonebook_None) simp
  moreover have inv: "kozi_inv pf (s\<lparr>ks_Buddies := xs @ ys\<rparr>)" by (rule unpair_buddy_inv [OF assms(3) u])
  moreover have "phonebook (s\<lparr>ks_Buddies := xs @ ys\<rparr>) = (phonebook s)(name := None)"
    using phonebook_unpair [OF assms(3) s(1)] s(2) by simp
  ultimately show ?thesis
    using u update_inv [where f = "unpair_buddy name", OF assms(1,2) u inv] by (simp add: cmdUnpair_update)
qed

text \<open>C29: The commands \<open>pair\<close> and \<open>unpair\<close> implement the specified map on a machine where
  nothing fails, for a name and an invitation to pair that are valid UTF-8 (other names may be
  stored as an existing one; \<open>unpair\<close> takes any name): each succeeds exactly when the map's operation is defined, the stored state
  then stands for the map it gives and keeps the invariant, and otherwise the command returns
  an error and leaves the machine as it was.\<close>

theorem buddy_list_refines_map:
  assumes "healthy w" "stored w = Some s" "kozi_inv pf s" "op_valid opn"
  shows "(case book_step opn (phonebook s) of
      None \<Rightarrow> \<exists>e. run_op pf opn w = (Inl e, w)
    | Some m \<Rightarrow> \<exists>w' s'. run_op pf opn w = (Inr (), w') \<and> healthy w' \<and> stored w' = Some s'
        \<and> kozi_inv pf s' \<and> phonebook s' = m)"
proof (cases opn)
  case (Pair_op name link)
  show ?thesis
  proof (cases "name = [] \<or> \<not> is_ok (ParseSMPQueueURI link)")
    case True
    then show ?thesis by (auto simp: Pair_op cmdPair_update split: sum.split)
  next
    case False
    then obtain uri where uri: "name \<noteq> []" "ParseSMPQueueURI link = Inr uri" by (auto simp: is_ok_iff)
    with pair_refines [OF assms(1-3) _ _ uri] assms(4) show ?thesis
      by (auto simp: Pair_op split: sum.splits)
  qed
next
  case (Unpair_op name)
  with unpair_refines [OF assms(1-3), of name] show ?thesis by (auto split: sum.splits)
qed

text \<open>An example machine, and an invitation.\<close>

definition example_platform :: platform where
  "example_platform = \<lparr>pf_sha256 = (\<lambda>b. replicate 32 (of_nat (length b))), pf_upper = (\<lambda>s. s)\<rparr>"

definition example_world :: world where
  "example_world = \<lparr>w_config = Inr ''/home/joop/.config'', w_files = Map.empty, w_read_fault = None,
     w_mkdir_fault = None, w_write_fault = None, w_out = [], w_err = []\<rparr>"

definition example_uri :: SMPQueueURI where
  "example_uri = \<lparr>qu_ServerFingerprint = replicate 32 1, qu_Host = ''smp.example.org'', qu_Port = 5223,
     qu_SenderID = replicate 24 2, qu_ClientVRange = \<lparr>vr_Min = 1, vr_Max = 15\<rparr>, qu_DHPubKey = replicate 32 3\<rparr>"

lemma example_facts:
  "healthy example_world" "stored example_world = Some new_state"
  by (simp_all add: healthy_def example_world_def stored_def statePath_def)

text \<open>The printer writes ASCII around the host.\<close>

lemma ascii_alphabets:
  "\<forall>c \<in> set unreserved. in_range 0 0x7F c" "\<forall>c \<in> set b64_alphabet. in_range 0 0x7F c"
  "\<forall>c \<in> set ''0123456789''. in_range 0 0x7F c"
  "in_range 0 0x7F (CHR ''%'')" "in_range 0 0x7F (CHR ''+'')" "in_range 0 0x7F (CHR ''='')"
  "in_range 0 0x7F (CHR ''&'')" "is_ascii ''smp://''" "is_ascii ''@''" "is_ascii '':''" "is_ascii ''/''" "is_ascii ''#/?''"
  by code_simp+

lemma is_ascii_append [simp]: "is_ascii (s @ t) \<longleftrightarrow> is_ascii s \<and> is_ascii t"
  by (simp add: is_ascii_def)

lemma ascii_parts:
  "is_ascii (b64_encode b)" "is_ascii (decimal n)" "is_ascii (encode_pair p)"
proof -
  show "is_ascii (b64_encode b)"
    using b64_encode_chars [of b] ascii_alphabets(2) by (auto simp: is_ascii_def list_all_iff)
  show "is_ascii (decimal n)"
    using decimal_digits [of n] ascii_alphabets(3) unfolding is_ascii_def list_all_iff by blast
  have "in_range 0 0x7F c" if "c \<in> set (QueryEscape s)" for c s
    using that QueryEscape_chars [of s] ascii_alphabets(1,4,5) by blast
  then show "is_ascii (encode_pair p)"
    using ascii_alphabets(6) by (auto simp: encode_pair_def is_ascii_def list_all_iff)
qed

lemma SMPQueueURI_String_ascii: "is_ascii (qu_Host u) \<Longrightarrow> is_ascii (SMPQueueURI_String u)"
proof -
  assume "is_ascii (qu_Host u)"
  moreover have "is_ascii (join_amp [encode_pair p, encode_pair q])" for p q
    using ascii_parts(3) [of p] ascii_parts(3) [of q] ascii_alphabets(7) by (simp add: is_ascii_def)
  ultimately show ?thesis
    by (simp only: SMPQueueURI_String_def Let_def uri_query_pairs list.map is_ascii_append
        ascii_parts ascii_alphabets simp_thms)
qed

lemma example_link:
  "ParseSMPQueueURI (SMPQueueURI_String example_uri) = Inr example_uri"
  "utf8_valid (SMPQueueURI_String example_uri)"
proof -
  show "ParseSMPQueueURI (SMPQueueURI_String example_uri) = Inr example_uri"
    by (rule ParseSMPQueueURI_print) (simp_all add: example_uri_def uri_wf_def)
  have "is_ascii (qu_Host example_uri)" by code_simp
  then have "is_ascii (SMPQueueURI_String example_uri)" by (rule SMPQueueURI_String_ascii)
  then show "utf8_valid (SMPQueueURI_String example_uri)" by (rule ascii_valid)
qed

theorem buddy_list_refines_map_witness:
  "let opn = Pair_op ''bob'' (SMPQueueURI_String example_uri) in
   book_step opn (phonebook new_state) \<noteq> None
   \<and> (case book_step opn (phonebook new_state) of
        None \<Rightarrow> \<exists>e. run_op example_platform opn example_world = (Inl e, example_world)
      | Some m \<Rightarrow> \<exists>w' s'. run_op example_platform opn example_world = (Inr (), w') \<and> healthy w'
          \<and> stored w' = Some s' \<and> kozi_inv example_platform s' \<and> phonebook s' = m)"
proof -
  let ?op = "Pair_op ''bob'' (SMPQueueURI_String example_uri)"
  have "is_ascii ''bob''" by code_simp
  then have v: "op_valid ?op" using ascii_valid example_link(2) by simp
  have "book_step ?op (phonebook new_state) \<noteq> None"
    by (simp add: example_link(1) phonebook_def new_state_def)
  with buddy_list_refines_map [OF example_facts(1,2) kozi_inv_new v] show ?thesis
    by (simp only: Let_def simp_thms)
qed

text \<open>
  Why the arguments are assumed to be valid UTF-8: two names that are not are both accepted, and
  the file holds two buddies of the same name.
\<close>

theorem invalid_names_collide:
  "\<exists>w1 w2 s. let link = SMPQueueURI_String example_uri; name = [CHR 0xEF, CHR 0xBF, CHR 0xBD] in
     cmdPair example_platform [[CHR 0xFF], link] example_world = (Inr (), w1)
     \<and> cmdPair example_platform [[CHR 0xFE], link] w1 = (Inr (), w2)
     \<and> stored w2 = Some s \<and> map bd_Name (ks_Buddies s) = [name, name]"
proof -
  let ?pf = example_platform and ?link = "SMPQueueURI_String example_uri"
  define s1 where "s1 = new_state\<lparr>ks_Buddies := [\<lparr>bd_Name = [CHR 0xFF],
    bd_SharedSecret = hex_encode (deriveProximitySecret ?pf example_uri), bd_SimpleXLink = ?link,
    bd_LastSeenGrid = [], bd_LastSeenAt = zero_time\<rparr>]\<rparr>"
  define s2 where "s2 = valid_state s1\<lparr>ks_Buddies := ks_Buddies (valid_state s1) @ [\<lparr>bd_Name = [CHR 0xFE],
    bd_SharedSecret = hex_encode (deriveProximitySecret ?pf example_uri), bd_SimpleXLink = ?link,
    bd_LastSeenGrid = [], bd_LastSeenAt = zero_time\<rparr>]\<rparr>"
  have v: "to_valid [CHR 0xFF] = [CHR 0xEF, CHR 0xBF, CHR 0xBD]" "to_valid [CHR 0xFE] = [CHR 0xEF, CHR 0xBF, CHR 0xBD]"
    "to_valid [CHR 0xEF, CHR 0xBF, CHR 0xBD] = [CHR 0xEF, CHR 0xBF, CHR 0xBD]"
    by code_simp+
  have p1: "pair_buddy ?pf [CHR 0xFF] ?link example_uri new_state = Inr s1"
    by (simp add: pair_buddy_def new_state_def s1_def)
  have st: "storable s1"
    by (simp add: storable_def s1_def new_state_def stateVersion_def zero_time_ok)
  from update_stores [where f = "pair_buddy ?pf [CHR 0xFF] ?link example_uri", OF example_facts p1 st] example_link(1)
  obtain w1 where w1: "cmdPair ?pf [[CHR 0xFF], ?link] example_world = (Inr (), w1)" "healthy w1"
    "stored w1 = Some (valid_state s1)" by (simp add: cmdPair_update) blast
  have names: "map bd_Name (ks_Buddies (valid_state s1)) = [[CHR 0xEF, CHR 0xBF, CHR 0xBD]]"
    by (simp add: valid_state_def valid_buddy_def s1_def v del: to_valid.simps)
  then have p2: "pair_buddy ?pf [CHR 0xFE] ?link example_uri (valid_state s1) = Inr s2"
    by (auto simp: pair_buddy_def s2_def list_ex_iff)
  have "storable s2" using st by (simp add: storable_def s2_def zero_time_ok valid_state_def valid_buddy_def list_all_iff)
  from update_stores [where f = "pair_buddy ?pf [CHR 0xFE] ?link example_uri", OF w1(2,3) p2 this] example_link(1)
  obtain w2 where w2: "cmdPair ?pf [[CHR 0xFE], ?link] w1 = (Inr (), w2)"
    "stored w2 = Some (valid_state s2)" by (simp add: cmdPair_update) blast
  have "map bd_Name (ks_Buddies (valid_state s2)) = map to_valid (map bd_Name (ks_Buddies s2))"
    by (simp add: valid_state_def valid_buddy_def)
  also have "map bd_Name (ks_Buddies s2) = [[CHR 0xEF, CHR 0xBF, CHR 0xBD], [CHR 0xFE]]"
    by (simp add: s2_def names)
  finally show ?thesis using w1(1) w2 v unfolding Let_def by (metis list.simps(8,9))
qed

section \<open>Locations\<close>

lemma upper_char_facts: "upper_char (upper_char c) = upper_char c" "upper_char c = CHR ''+'' \<longleftrightarrow> c = CHR ''+''"
  "in_range 0 0x7F c \<Longrightarrow> in_range 0 0x7F (upper_char c)"
proof -
  have "of_char (char_of (of_char c - 32 :: nat)) = (of_char c - 32 :: nat)" if "in_range 97 122 c"
    using that by (simp add: in_range_def, subst mod_less) linarith+
  then have val: "of_char (upper_char c) = (if in_range 97 122 c then of_char c - 32 else of_char c :: nat)"
    by (simp add: upper_char_def)
  have "\<not> in_range 97 122 (upper_char c)" using val by (auto simp: in_range_def)
  then show "upper_char (upper_char c) = upper_char c" by (simp add: upper_char_def [of "upper_char c"])
  have plus: "d = CHR ''+'' \<longleftrightarrow> of_char d = (43 :: nat)" for d
    using of_char_eq_iff [of d "CHR ''+''", where ?'a = nat] by simp
  show "upper_char c = CHR ''+'' \<longleftrightarrow> c = CHR ''+''"
    unfolding plus using val by (auto simp: in_range_def)
  show "in_range 0 0x7F c \<Longrightarrow> in_range 0 0x7F (upper_char c)" using val by (auto simp: in_range_def)
qed

text \<open>On ASCII text, normalisation is the first six characters of the code in capitals without
  its separator.\<close>

definition neighborhood :: "string \<Rightarrow> string" where
  "neighborhood s = take 6 (map upper_char (filter (\<lambda>c. c \<noteq> CHR ''+'') s))"

lemma normalize_ascii:
  assumes "is_ascii s"
  shows "normalizePlusCode pf s = neighborhood s"
proof -
  have "is_ascii (filter (\<lambda>c. c \<noteq> CHR ''+'') s)" using assms by (auto simp: is_ascii_def list_all_iff)
  then show ?thesis
    by (simp add: normalizePlusCode_def strip_plus_def ToUpper_def neighborhood_def proximityPrefixLen_def Let_def)
qed

lemma neighborhood_facts:
  "length (neighborhood s) \<le> 6" "CHR ''+'' \<notin> set (neighborhood s)"
  "is_ascii s \<Longrightarrow> is_ascii (neighborhood s)"
  by (auto simp: neighborhood_def is_ascii_def list_all_iff upper_char_facts dest!: in_set_takeD)
    (metis upper_char_facts(2))

lemma neighborhood_idem: "neighborhood (neighborhood s) = neighborhood s"
proof -
  have "filter (\<lambda>c. c \<noteq> CHR ''+'') (neighborhood s) = neighborhood s"
    using neighborhood_facts(2) [of s] by (intro filter_True) auto
  moreover have "map upper_char (neighborhood s) = neighborhood s"
    by (simp add: neighborhood_def upper_char_facts(1) comp_def flip: take_map)
  ultimately show ?thesis using neighborhood_facts(1) [of s] by (simp only: neighborhood_def [of "neighborhood s"] take_all)
qed

text \<open>C31: \<open>set-location\<close> on a machine where nothing fails stores, for an ASCII plus code of 4 to 16
  characters, exactly its neighbourhood: the first six characters in capitals without the
  separator, never more; the stored value normalises to itself, so it meets every code of the
  same neighbourhood. A code of another length is refused and nothing changes.\<close>

theorem set_location_is_coarse:
  assumes "healthy w" "stored w = Some s" "kozi_inv pf s" "is_ascii raw"
  shows "if 4 \<le> length raw \<and> length raw \<le> 16
    then \<exists>w'. cmdSetLocation pf [raw] w = (Inr (), w')
      \<and> stored w' = Some (s\<lparr>ks_CurrentLocation := neighborhood raw\<rparr>)
      \<and> length (neighborhood raw) \<le> 6 \<and> CHR ''+'' \<notin> set (neighborhood raw)
      \<and> normalizePlusCode pf (neighborhood raw) = normalizePlusCode pf raw
    else \<exists>e. cmdSetLocation pf [raw] w = (Inl e, w)"
proof (cases "4 \<le> length raw \<and> length raw \<le> 16")
  case True
  let ?s = "s\<lparr>ks_CurrentLocation := neighborhood raw\<rparr>"
  have f: "set_location (normalizePlusCode pf raw) s = Inr ?s"
    by (simp add: set_location_def normalize_ascii [OF assms(4)])
  have "utf8_valid (neighborhood raw)" by (rule ascii_valid [OF neighborhood_facts(3) [OF assms(4)]])
  then have "valid_state ?s = ?s"
    using assms(3) by (simp add: kozi_inv_def valid_state_iff utf8_valid_def)
  then have "kozi_inv pf ?s" using kozi_inv_location [OF assms(3)] by metis
  from update_inv [where f = "set_location (normalizePlusCode pf raw)" and out = "location_message pf raw",
      OF assms(1,2) f this] True
  obtain w' where "cmdSetLocation pf [raw] w = (Inr (), w')" "stored w' = Some ?s"
    by (auto simp: cmdSetLocation_update)
  with True show ?thesis
    using neighborhood_facts [of raw] normalize_ascii [OF neighborhood_facts(3) [OF assms(4)]]
    by (simp add: normalize_ascii [OF assms(4)] neighborhood_idem)
qed (auto simp: cmdSetLocation_def)

theorem set_location_is_coarse_witness:
  "\<exists>w'. cmdSetLocation example_platform [''8fvc9g8f+6x''] example_world = (Inr (), w')
     \<and> stored w' = Some (new_state\<lparr>ks_CurrentLocation := ''8FVC9G''\<rparr>)"
proof -
  have a: "is_ascii ''8fvc9g8f+6x''" "neighborhood ''8fvc9g8f+6x'' = ''8FVC9G''" by code_simp+
  from set_location_is_coarse [OF example_facts(1,2) kozi_inv_new a(1)] show ?thesis
    by (simp add: a(2)) blast
qed

end
