(* ===== verification/Kozi_Watch.thy ===== *)
theory Kozi_Watch
  imports Kozi_Commands Go_Channel
begin

text \<open>
  The proximity watch of \<open>cmd/kozi-cli/proximity.go\<close> and the dispatcher of
  \<open>cmd/kozi-cli/main.go\<close>.
\<close>

section \<open>Slots\<close>

definition hourBucket :: "gotime \<Rightarrow> string" where
  "hourBucket t = format_hour (unix_time t)"

definition slot_input :: "string \<Rightarrow> string \<Rightarrow> bytes" where
  "slot_input sharedSecretHex bucket = bs sharedSecretHex @ bs '':'' @ bs bucket"

definition deriveSlotID :: "platform \<Rightarrow> string \<Rightarrow> string \<Rightarrow> string" where
  "deriveSlotID pf sharedSecretHex bucket = hex_encode (pf_sha256 pf (slot_input sharedSecretHex bucket))"

section \<open>One tick\<close>

text \<open>
  The \<open>Notifier\<close> is an operation on a state of its own; \<open>None\<close> is a nil interface. \<open>wc_Now\<close> is
  a function of the machine's clock (the identity is \<open>time.Now\<close>), \<open>None\<close> a nil function.
\<close>

record 'n watch_config =
  wc_Interval :: int
  wc_Notifier :: "(string \<Rightarrow> string \<Rightarrow> ('n, unit) op) option"
  wc_Now :: "(gotime \<Rightarrow> gotime) option"

text \<open>\<open>notify-send\<close>: \<open>run\<close> is the command's run with these arguments.\<close>

definition notify_send :: "(string list \<Rightarrow> ('n, unit) op) \<Rightarrow> string \<Rightarrow> string \<Rightarrow> ('n, unit) op" where
  "notify_send run title body =
     op_wrap ''notify-send: %w (is libnotify installed?)''
       (run [''--app-name=kozi-cli'', ''--category=im.received'', title, body])"

definition match_body :: "string \<Rightarrow> string \<Rightarrow> string" where
  "match_body name myGrid = name @ '' might be nearby (neighborhood '' @ myGrid @ '')''"

definition is_match :: "platform \<Rightarrow> string \<Rightarrow> buddy \<Rightarrow> bool" where
  "is_match pf myGrid b \<longleftrightarrow> \<not> bd_LastSeenGrid b = [] \<and> \<not> normalizePlusCode pf (bd_LastSeenGrid b) \<noteq> myGrid"

fun watch_buddies ::
  "platform \<Rightarrow> (string \<Rightarrow> string \<Rightarrow> ('n, unit) op) \<Rightarrow> string \<Rightarrow> buddy list \<Rightarrow> string list
   \<Rightarrow> 'n \<Rightarrow> (string list \<times> go_err option) \<times> 'n" where
  "watch_buddies pf notify myGrid [] matches n = ((matches, None), n)"
| "watch_buddies pf notify myGrid (b # l) matches n =
     (if \<not> is_match pf myGrid b then watch_buddies pf notify myGrid l matches n
      else
        let matches' = matches @ [bd_Name b] in
        case notify ''Kozi: proximity match'' (match_body (bd_Name b) myGrid) n of
          (Inl err, n') \<Rightarrow> ((matches', Some (Errorf ''notify %s: %w'' [AStr (bd_Name b), AWrap err])), n')
        | (Inr _, n') \<Rightarrow> watch_buddies pf notify myGrid l matches' n')"

text \<open>
  The result is the pair of the two return values. The code computes the hour's slot id of every
  buddy and drops it, so the time, and whether \<open>Now\<close> is nil, makes no difference here.
\<close>

definition watchOnce ::
  "platform \<Rightarrow> kozi_state \<Rightarrow> 'n watch_config \<Rightarrow> 'n \<Rightarrow> (string list \<times> go_err option) \<times> 'n" where
  "watchOnce pf s cfg n =
     (case wc_Notifier cfg of
        None \<Rightarrow> (([], Some (ErrNew ''watchOnce: cfg.Notifier is nil'')), n)
      | Some notify \<Rightarrow>
          if ks_CurrentLocation s = []
          then (([], Some (ErrNew ''current location not set; use `kozi-cli set-location <plus-code>`'')), n)
          else watch_buddies pf notify (normalizePlusCode pf (ks_CurrentLocation s)) (ks_Buddies s) [] n)"

section \<open>The loop\<close>

text \<open>Standard error.\<close>

definition eprintf :: "string \<Rightarrow> fmt_arg list \<Rightarrow> world \<Rightarrow> world" where
  "eprintf f args w = w\<lparr>w_err := w_err w @ [(f, args)]\<rparr>"

text \<open>
  The closure \<open>tick\<close> when the machine's clock shows \<open>t\<close>. Here a nil \<open>Now\<close> is called and panics.
\<close>

definition tick :: "platform \<Rightarrow> 'n watch_config \<Rightarrow> gotime \<Rightarrow> world \<times> 'n \<Rightarrow> (world \<times> 'n) outcome" where
  "tick pf cfg t wn =
     (case wn of (w, n) \<Rightarrow>
        (case loadState w of
           (Inl err, w') \<Rightarrow> Done (eprintf (line ''watch: load state: %v'') [AVal err] w', n)
         | (Inr s, w') \<Rightarrow>
             (case watchOnce pf s cfg n of
                ((matches, Some err), n') \<Rightarrow> Done (eprintf (line ''watch: %v'') [AVal err] w', n')
              | ((matches, None), n') \<Rightarrow>
                  if length matches > 0
                  then (case wc_Now cfg of
                          None \<Rightarrow> Panics ''nil pointer dereference''
                        | Some now \<Rightarrow>
                            Done (snd (printf (line ''[%s] proximity match: %v'') (AStr (FormatRFC3339 (now t)) # map AStr matches) w'), n'))
                  else Done (w', n'))))"

text \<open>
  What the \<open>select\<close> picks each time: the ticker, with the machine's time and the changes other
  programs made to the files meanwhile, or the end of the context. \<open>Blocks\<close>: still waiting in the
  \<open>select\<close> after these events.
\<close>

datatype watch_event = Ticker gotime "world \<Rightarrow> world" | CtxDone

fun watch_events :: "platform \<Rightarrow> 'n watch_config \<Rightarrow> watch_event list \<Rightarrow> world \<times> 'n \<Rightarrow> (world \<times> 'n) outcome" where
  "watch_events pf cfg [] wn = Blocks"
| "watch_events pf cfg (CtxDone # es) wn = Done wn"
| "watch_events pf cfg (Ticker t change # es) wn =
     obind (tick pf cfg t (change (fst wn), snd wn)) (watch_events pf cfg es)"

text \<open>\<open>time.NewTicker\<close> panics for an interval that is not positive; the first tick comes before it.\<close>

definition runWatchLoop ::
  "platform \<Rightarrow> 'n watch_config \<Rightarrow> gotime \<Rightarrow> watch_event list \<Rightarrow> world \<times> 'n \<Rightarrow> (world \<times> 'n) outcome" where
  "runWatchLoop pf cfg t0 events wn =
     obind (tick pf cfg t0 wn) (\<lambda>wn.
       if wc_Interval cfg \<le> 0 then Panics ''non-positive interval for NewTicker''
       else watch_events pf cfg events wn)"

definition em_dash :: string where "em_dash = [CHR 0xE2, CHR 0x80, CHR 0x94]"

definition defaultWatchConfig :: "(string list \<Rightarrow> ('n, unit) op) \<Rightarrow> 'n watch_config" where
  "defaultWatchConfig run =
     \<lparr>wc_Interval = 15 * 60, wc_Notifier = Some (notify_send run), wc_Now = Some (\<lambda>t. t)\<rparr>"

definition cmdProximityWatch ::
  "platform \<Rightarrow> (string list \<Rightarrow> ('n, unit) op) \<Rightarrow> gotime \<Rightarrow> watch_event list \<Rightarrow> string list
   \<Rightarrow> world \<times> 'n \<Rightarrow> (unit result \<times> world \<times> 'n) outcome" where
  "cmdProximityWatch pf run t0 events args wn =
     (if length args \<noteq> 0 then Done (Inl (ErrNew ''proximity-watch takes no arguments''), wn)
      else
        let cfg = defaultWatchConfig run;
            w1 = snd (printf (line ''Proximity watch starting (interval %v, hourly slot id). Ctrl-C to stop.'') [AInt (wc_Interval cfg)] (fst wn));
            w2 = snd (printf (line (''NOTE: SMP queue polling is STUBBED '' @ em_dash @ '' matches require manually setting'')) [] w1);
            w3 = snd (printf (line ''      Buddy.LastSeenGrid in state.json for now. Real polling lands with Phase 2d.'') [] w2)
        in obind (runWatchLoop pf cfg t0 events (w3, snd wn)) (\<lambda>(w4, n).
             Done (Inr (), snd (printf (newline_char # line ''Proximity watch stopped.'') [] w4), n)))"

section \<open>The dispatcher\<close>

definition program_version :: string where "program_version = ''0.1.0-dev''"

definition usage_lines :: "string list" where
  "usage_lines =
    [''kozi-cli '' @ em_dash @ '' proximity overlay on SimpleX (early development)'',
     '''',
     ''Usage:'',
     ''  kozi-cli <command> [args]'',
     '''',
     ''Commands:'',
     ''  pair <smp-uri>             Accept a SimpleX invitation to pair with a buddy [stub: Phase 3]'',
     ''  list                       List paired buddies and current location'',
     ''  set-location <plus-code>   Set your current Plus Code grid (8 chars = ~250m)'',
     ''  proximity-watch            Run the proximity-overlap daemon [stub: Phase 4b]'',
     ''  unpair <buddy-name>        Remove a paired buddy'',
     ''  help                       Show this help'',
     ''  version                    Show version'',
     '''',
     ''State file: $XDG_CONFIG_HOME/kozi/state.json (default: ~/.config/kozi/state.json)'']"

definition usage_text :: "string \<times> fmt_arg list" where
  "usage_text = (''%s'', [AStr (concat (map (\<lambda>l. l @ [CHR 0x0A]) usage_lines))])"

text \<open>\<open>usage\<close> on standard output and on standard error.\<close>

definition usage_out :: "world \<Rightarrow> world" where
  "usage_out w = snd (printf (fst usage_text) (snd usage_text) w)"

definition usage_err :: "world \<Rightarrow> world" where
  "usage_err w = eprintf (fst usage_text) (snd usage_text) w"

datatype exit_status = Exit nat

definition exit_with :: "unit result \<times> world \<times> 'n \<Rightarrow> exit_status \<times> world \<times> 'n" where
  "exit_with r =
     (case r of
        (Inl err, w, n) \<Rightarrow> (Exit 1, eprintf (line ''kozi-cli: %v'') [AVal err] w, n)
      | (Inr _, w, n) \<Rightarrow> (Exit 0, w, n))"

definition kozi_main ::
  "platform \<Rightarrow> (string list \<Rightarrow> ('n, unit) op) \<Rightarrow> gotime \<Rightarrow> watch_event list \<Rightarrow> string list
   \<Rightarrow> world \<times> 'n \<Rightarrow> (exit_status \<times> world \<times> 'n) outcome" where
  "kozi_main pf run t0 events argv wn =
     (case wn of (w, n) \<Rightarrow>
       (case argv of
          prog # cmd # args \<Rightarrow>
            if cmd = ''pair'' then (case cmdPair pf args w of (r, w') \<Rightarrow> Done (exit_with (r, w', n)))
            else if cmd = ''list'' then (case cmdList pf args w of (r, w') \<Rightarrow> Done (exit_with (r, w', n)))
            else if cmd = ''set-location'' then (case cmdSetLocation pf args w of (r, w') \<Rightarrow> Done (exit_with (r, w', n)))
            else if cmd = ''proximity-watch'' then
              obind (cmdProximityWatch pf run t0 events args wn) (\<lambda>r. Done (exit_with r))
            else if cmd = ''unpair'' then (case cmdUnpair pf args w of (r, w') \<Rightarrow> Done (exit_with (r, w', n)))
            else if cmd = ''help'' \<or> cmd = ''-h'' \<or> cmd = ''--help''
              then Done (Exit 0, usage_out w, n)
            else if cmd = ''version'' \<or> cmd = ''-V'' \<or> cmd = ''--version''
              then Done (Exit 0, snd (printf (line ''kozi-cli %s'') [AStr program_version] w), n)
            else Done (Exit 2, usage_err (eprintf (line ''kozi-cli: unknown command %q'' @ [newline_char]) [AStr cmd] w), n)
        | _ \<Rightarrow> Done (Exit 2, usage_err w, n)))"

section \<open>Commands that only print\<close>

definition prints_only :: "(world, 'a) op \<Rightarrow> bool" where
  "prints_only m \<longleftrightarrow> (\<forall>w. w_files (snd (m w)) = w_files w \<and> w_config (snd (m w)) = w_config w)"

lemma prints_only_bind: "prints_only m \<Longrightarrow> (\<And>x. prints_only (f x)) \<Longrightarrow> prints_only (op_bind m f)"
  by (auto simp: prints_only_def op_bind_def split: prod.split sum.split) (metis snd_conv)+

lemma prints_only_basic:
  "prints_only (printf f args)" "prints_only (op_fail e)" "prints_only (op_return x)"
  "prints_only loadState" "prints_only (Pair (Inr x))"
  by (simp_all add: prints_only_def printf_def)

lemma prints_only_rows: "prints_only (list_rows pf l)"
  by (induction l) (simp_all add: prints_only_basic prints_only_bind list_row_def Let_def)

lemma prints_only_list: "prints_only (cmdList pf args)"
  by (auto simp: cmdList_def intro!: prints_only_bind prints_only_basic prints_only_rows)

definition never_fails :: "(world, unit) op \<Rightarrow> bool" where
  "never_fails m \<longleftrightarrow> (\<forall>w e. fst (m w) \<noteq> Inl e)"

lemma never_fails_bind: "never_fails m \<Longrightarrow> (\<And>x. never_fails (f x)) \<Longrightarrow> never_fails (op_bind m f)"
  by (auto simp: never_fails_def op_bind_def split: prod.split sum.split) (metis fst_conv)

lemma never_fails_printf: "never_fails (printf f args)"
  by (simp add: never_fails_def printf_def)

lemma never_fails_rows: "never_fails (list_rows pf l)"
proof (induction l)
  case (Cons b l)
  then show ?case by (simp add: list_row_def Let_def never_fails_bind never_fails_printf)
qed (simp add: never_fails_def)

lemma cmdList_fails:
  assumes "cmdList pf args w = (Inl e, w')"
  shows "w' = w"
proof (cases "args = []")
  case True
  obtain g where g: "cmdList pf args = op_bind loadState g" "\<And>s. never_fails (g s)"
    using True by (auto simp: cmdList_def intro!: that never_fails_bind never_fails_printf never_fails_rows)
  show ?thesis
  proof (cases "loadState w")
    case (Pair r w1)
    with assms g(1) loadState_Inl [of w] g(2) show ?thesis
      by (cases r) (auto simp: op_bind_simps never_fails_def, metis fst_conv)
  qed
qed (use assms in \<open>simp add: cmdList_def\<close>)

text \<open>Each command that changes the state refuses its arguments or is an update.\<close>

lemma cmdPair_shape:
  "(\<exists>e. cmdPair pf args = op_fail e) \<or>
   (\<exists>name link uri out. args = [name, link] \<and> name \<noteq> [] \<and> ParseSMPQueueURI link = Inr uri
      \<and> cmdPair pf args = update_cmd pf (pair_buddy pf name link uri) out)"
proof (cases "\<exists>a b. args = [a, b]")
  case True
  then obtain a b where args: "args = [a, b]" by blast
  show ?thesis
  proof (cases "a = []")
    case True
    then have "cmdPair pf args = op_fail (ErrNew ''buddy name must not be empty'')"
      by (simp add: args cmdPair_update)
    then show ?thesis by blast
  next
    case False
    then show ?thesis unfolding args cmdPair_update
      by (cases "ParseSMPQueueURI b") (simp only: if_False sum.case, blast)+
  qed
next
  case False
  then have "cmdPair pf args = op_fail (ErrNew ''pair requires <buddy-name> <smp-uri>'')"
    unfolding cmdPair_def by (auto split: list.split)
  then show ?thesis by blast
qed

lemma cmdSetLocation_shape:
  "(\<exists>e. cmdSetLocation pf args = op_fail e) \<or>
   (\<exists>code out. cmdSetLocation pf args = update_cmd pf (set_location code) out)"
proof (cases "\<exists>raw. args = [raw] \<and> 4 \<le> length raw \<and> length raw \<le> 16")
  case True
  then show ?thesis using cmdSetLocation_update by blast
next
  case False
  then have "\<exists>e. cmdSetLocation pf args = op_fail e"
    unfolding cmdSetLocation_def by (auto simp: not_less split: list.split)
  then show ?thesis by blast
qed

lemma cmdUnpair_shape:
  "(\<exists>e. cmdUnpair pf args = op_fail e) \<or>
   (\<exists>name out. cmdUnpair pf args = update_cmd pf (unpair_buddy name) out)"
proof (cases "\<exists>name. args = [name]")
  case True
  then show ?thesis using cmdUnpair_update by blast
next
  case False
  then have "cmdUnpair pf args = op_fail (ErrNew ''unpair requires exactly one argument: <buddy-name>'')"
    unfolding cmdUnpair_def by (auto split: list.split)
  then show ?thesis by blast
qed

text \<open>A failing command leaves the machine as it was.\<close>

lemma command_fails:
  assumes "(\<exists>e. cmd = op_fail e) \<or> (\<exists>f out. cmd = update_cmd pf f out)" "cmd w = (Inl e, w')" "\<not> torn w"
  shows "w' = w"
  using assms by (elim disjE exE) (auto dest: update_fails)

lemma update_commands_fail:
  "cmdPair pf args w = (Inl e, w') \<Longrightarrow> \<not> torn w \<Longrightarrow> w' = w"
  "cmdSetLocation pf args w = (Inl e, w') \<Longrightarrow> \<not> torn w \<Longrightarrow> w' = w"
  "cmdUnpair pf args w = (Inl e, w') \<Longrightarrow> \<not> torn w \<Longrightarrow> w' = w"
proof -
  show "cmdPair pf args w = (Inl e, w') \<Longrightarrow> \<not> torn w \<Longrightarrow> w' = w"
    using cmdPair_shape [of pf args] by (intro command_fails [of "cmdPair pf args" pf w e w']) blast+
  show "cmdSetLocation pf args w = (Inl e, w') \<Longrightarrow> \<not> torn w \<Longrightarrow> w' = w"
    using cmdSetLocation_shape [of pf args] by (intro command_fails [of "cmdSetLocation pf args" pf w e w']) blast+
  show "cmdUnpair pf args w = (Inl e, w') \<Longrightarrow> \<not> torn w \<Longrightarrow> w' = w"
    using cmdUnpair_shape [of pf args] by (intro command_fails [of "cmdUnpair pf args" pf w e w']) blast+
qed

section \<open>The invariant over any use of the program\<close>

definition stored_inv :: "platform \<Rightarrow> world \<Rightarrow> bool" where
  "stored_inv pf w \<longleftrightarrow> (\<forall>s. stored w = Some s \<longrightarrow> kozi_inv pf s)"

lemma stored_inv_cong: "w_config w = w_config w' \<Longrightarrow> w_files w = w_files w' \<Longrightarrow> stored_inv pf w = stored_inv pf w'"
  using stored_cong [of w w'] by (simp add: stored_inv_def)

lemma prints_only_inv: "prints_only m \<Longrightarrow> m w = (r, w') \<Longrightarrow> stored_inv pf w' = stored_inv pf w"
  unfolding prints_only_def by (intro stored_inv_cong) (metis snd_conv)+

text \<open>An update of a consistent state to a consistent one, whatever fails meanwhile.\<close>

definition good_update :: "platform \<Rightarrow> (kozi_state \<Rightarrow> kozi_state result) \<Rightarrow> bool" where
  "good_update pf f \<longleftrightarrow> (\<forall>s s'. kozi_inv pf s \<longrightarrow> f s = Inr s' \<longrightarrow> typed s' \<and> kozi_inv pf (valid_state s'))"

lemma update_stored_inv:
  assumes "update_cmd pf f out w = (r, w')" "stored_inv pf w" "good_update pf f"
  shows "stored_inv pf w'"
proof (cases r)
  case (Inl e)
  with update_torn [of pf f out w e w'] assms(1) have "w' = w \<or> (\<exists>s s'. stored w = Some s \<and> f s = Inr s'
    \<and> (typed s' \<longrightarrow> w' = w \<or> stored w' = None \<or> stored w' = Some (valid_state s')))" by simp
  then show ?thesis using assms(2,3) unfolding stored_inv_def good_update_def by fastforce
next
  case (Inr u)
  with assms(1) have "update_cmd pf f out w = (Inr u, w')" by simp
  then show ?thesis
  proof (rule update_succeeds)
    fix s s'
    assume "stored w = Some s" "f s = Inr s'"
      and st: "typed s' \<Longrightarrow> stored w' = Some (valid_state s') \<and> storable s'"
    then have "typed s' \<and> kozi_inv pf (valid_state s')"
      using assms(2,3) by (auto simp: stored_inv_def good_update_def)
    with st show ?thesis by (simp add: stored_inv_def)
  qed
qed

lemma kozi_inv_typed: "kozi_inv pf s \<Longrightarrow> typed s \<and> kozi_inv pf (valid_state s)"
  by (simp add: kozi_inv_def storable_typed)

lemma kozi_inv_good: "(\<And>s s'. kozi_inv pf s \<Longrightarrow> f s = Inr s' \<Longrightarrow> kozi_inv pf s') \<Longrightarrow> good_update pf f"
  unfolding good_update_def using kozi_inv_typed by blast

definition keeps_inv :: "platform \<Rightarrow> (world, unit) op \<Rightarrow> bool" where
  "keeps_inv pf cmd \<longleftrightarrow> (\<forall>w r w'. stored_inv pf w \<longrightarrow> cmd w = (r, w') \<longrightarrow> stored_inv pf w')"

lemma keeps_inv_fail: "keeps_inv pf (op_fail e)"
  by (simp add: keeps_inv_def)

lemma keeps_inv_update: "good_update pf f \<Longrightarrow> keeps_inv pf (update_cmd pf f out)"
  unfolding keeps_inv_def using update_stored_inv by blast

lemma keeps_inv_commands:
  shows "list_all utf8_valid args \<Longrightarrow> keeps_inv pf (cmdPair pf args)"
    "keeps_inv pf (cmdSetLocation pf args)" "keeps_inv pf (cmdUnpair pf args)" "keeps_inv pf (cmdList pf args)"
proof -
  show "keeps_inv pf (cmdPair pf args)" if v: "list_all utf8_valid args"
    using cmdPair_shape [of pf args]
  proof (elim disjE exE conjE)
    fix name link uri out
    assume a: "args = [name, link]" "name \<noteq> []" "ParseSMPQueueURI link = Inr uri"
      and c: "cmdPair pf args = update_cmd pf (pair_buddy pf name link uri) out"
    have "kozi_inv pf s'" if "kozi_inv pf s" "pair_buddy pf name link uri s = Inr s'" for s s'
      using pair_buddy_inv [OF that(1) a(2) _ _ a(3) that(2)] v a(1) by simp
    then show ?thesis unfolding c by (intro keeps_inv_update kozi_inv_good)
  qed (simp add: keeps_inv_fail)
  show "keeps_inv pf (cmdSetLocation pf args)"
    using cmdSetLocation_shape [of pf args]
  proof (elim disjE exE)
    fix code out
    assume c: "cmdSetLocation pf args = update_cmd pf (set_location code) out"
    have "good_update pf (set_location code)"
      unfolding good_update_def
    proof (intro allI impI)
      fix s s'
      assume i: "kozi_inv pf s" and "set_location code s = Inr s'"
      then have s': "s' = s\<lparr>ks_CurrentLocation := code\<rparr>" by (simp add: set_location_def)
      have "typed s" using i by (simp add: kozi_inv_def storable_typed)
      with kozi_inv_location [OF i] show "typed s' \<and> kozi_inv pf (valid_state s')"
        by (simp add: s' typed_def)
    qed
    then show ?thesis unfolding c by (intro keeps_inv_update)
  qed (simp add: keeps_inv_fail)
  show "keeps_inv pf (cmdUnpair pf args)"
    using cmdUnpair_shape [of pf args]
  proof (elim disjE exE)
    fix name out
    assume c: "cmdUnpair pf args = update_cmd pf (unpair_buddy name) out"
    show ?thesis unfolding c by (intro keeps_inv_update kozi_inv_good) (rule unpair_buddy_inv)
  qed (simp add: keeps_inv_fail)
  show "keeps_inv pf (cmdList pf args)"
    using prints_only_inv [OF prints_only_list] by (auto simp: keeps_inv_def)
qed

section \<open>The watch\<close>

text \<open>A tick reads: it changes no file, and with a clock it never panics.\<close>

lemma tick_Done:
  assumes "wc_Now cfg \<noteq> None"
  obtains w' n' where "tick pf cfg t (w, n) = Done (w', n')"
    "w_files w' = w_files w" "w_config w' = w_config w"
proof -
  have "\<exists>w' n'. tick pf cfg t (w, n) = Done (w', n') \<and> w_files w' = w_files w \<and> w_config w' = w_config w"
    using assms
    by (auto simp: tick_def eprintf_def printf_def dest: loadState_Inl loadState_Inr
        split: prod.split sum.split option.split)
  with that show ?thesis by blast
qed

fun quiet :: "watch_event \<Rightarrow> bool" where
  "quiet (Ticker t change) = (\<forall>w. w_files (change w) = w_files w \<and> w_config (change w) = w_config w)"
| "quiet CtxDone = True"

text \<open>The loop ends with the first end of the context, whatever the ticks found.\<close>

lemma watch_events_Done:
  assumes "wc_Now cfg \<noteq> None" "CtxDone \<in> set es"
  shows "\<exists>w' n'. watch_events pf cfg es (w, n) = Done (w', n')
    \<and> (list_all quiet es \<longrightarrow> w_files w' = w_files w \<and> w_config w' = w_config w)"
  using assms(2)
proof (induction es arbitrary: w n)
  case (Cons e es)
  show ?case
  proof (cases e)
    case (Ticker t change)
    obtain w1 n1 where t: "tick pf cfg t (change w, n) = Done (w1, n1)"
      "w_files w1 = w_files (change w)" "w_config w1 = w_config (change w)"
      by (rule tick_Done [OF assms(1)])
    from Cons Ticker have "CtxDone \<in> set es" by auto
    from Cons.IH [OF this, of w1 n1] t Ticker show ?thesis by auto
  qed simp
qed simp

lemma runWatchLoop_Done:
  assumes "wc_Now cfg \<noteq> None" "CtxDone \<in> set es" "0 < wc_Interval cfg"
  shows "\<exists>w' n'. runWatchLoop pf cfg t0 es (w, n) = Done (w', n')
    \<and> (list_all quiet es \<longrightarrow> w_files w' = w_files w \<and> w_config w' = w_config w)"
proof -
  obtain w1 n1 where "tick pf cfg t0 (w, n) = Done (w1, n1)" "w_files w1 = w_files w" "w_config w1 = w_config w"
    by (rule tick_Done [OF assms(1)])
  with watch_events_Done [OF assms(1,2), of pf w1 n1] assms(3) show ?thesis by (auto simp: runWatchLoop_def)
qed

lemma cmdProximityWatch_Done:
  assumes "CtxDone \<in> set es"
  shows "\<exists>r w' n'. cmdProximityWatch pf run t0 es args (w, n) = Done (r, w', n')
    \<and> (list_all quiet es \<longrightarrow> w_files w' = w_files w \<and> w_config w' = w_config w) \<and> (is_ok r \<longleftrightarrow> args = [])"
proof -
  let ?cfg = "defaultWatchConfig run"
  have "wc_Now ?cfg \<noteq> None" "0 < wc_Interval ?cfg" by (simp_all add: defaultWatchConfig_def)
  note D = runWatchLoop_Done [OF this(1) assms this(2)]
  have p: "w_files (snd (printf f a w)) = w_files w" "w_config (snd (printf f a w)) = w_config w" for f a w
    by (simp_all add: printf_def)
  show ?thesis
  proof (cases "args = []")
    case True
    obtain w3 where w3: "w_files w3 = w_files w" "w_config w3 = w_config w"
      and c: "cmdProximityWatch pf run t0 es args (w, n) =
        obind (runWatchLoop pf ?cfg t0 es (w3, n)) (\<lambda>(w4, n). Done (Inr (), snd (printf (newline_char # line ''Proximity watch stopped.'') [] w4), n))"
      by (rule that [of "snd (printf _ _ (snd (printf _ _ (snd (printf _ _ w)))))"])
        (simp_all only: p, simp only: cmdProximityWatch_def Let_def True list.size simp_thms if_False fst_conv snd_conv)
    from D [of pf t0 w3 n] obtain w4 n4 where r: "runWatchLoop pf ?cfg t0 es (w3, n) = Done (w4, n4)"
      and q: "list_all quiet es \<longrightarrow> w_files w4 = w_files w3 \<and> w_config w4 = w_config w3" by blast
    show ?thesis
      by (rule exI [of _ "Inr ()"], rule exI [of _ "snd (printf (newline_char # line ''Proximity watch stopped.'') [] w4)"], rule exI [of _ n4])
        (simp only: c r p obind.simps prod.case, use q w3 True in simp)
  qed (simp add: cmdProximityWatch_def)
qed

section \<open>Any sequence of runs\<close>

type_synonym faults = "go_err option \<times> go_err option \<times> write_fault option"

definition with_faults :: "faults \<Rightarrow> world \<Rightarrow> world" where
  "with_faults fs w =
     (case fs of (r, m, wr) \<Rightarrow> w\<lparr>w_read_fault := r, w_mkdir_fault := m, w_write_fault := wr\<rparr>)"

text \<open>Each run of the program: how its calls fail, the clock, the events of a watch, the arguments.\<close>

type_synonym run = "faults \<times> gotime \<times> watch_event list \<times> string list"

fun session :: "platform \<Rightarrow> (string list \<Rightarrow> ('n, unit) op) \<Rightarrow> run list \<Rightarrow> world \<times> 'n \<Rightarrow> (world \<times> 'n) outcome" where
  "session pf run [] wn = Done wn"
| "session pf run ((fs, t0, es, argv) # rest) wn =
     obind (kozi_main pf run t0 es argv (with_faults fs (fst wn), snd wn)) (\<lambda>(status, wn'). session pf run rest wn')"

text \<open>A watch that is stopped some time, and nobody else writes the state meanwhile.\<close>

definition stopped_watch :: "watch_event list \<Rightarrow> bool" where
  "stopped_watch es \<longleftrightarrow> CtxDone \<in> set es \<and> list_all quiet es"

lemma stored_inv_faults: "stored_inv pf (with_faults fs w) = stored_inv pf w"
  by (rule stored_inv_cong) (simp_all add: with_faults_def split: prod.split)

lemma exit_with_world: "exit_with (r, w, n) = (st, w', n') \<Longrightarrow> w_files w' = w_files w \<and> w_config w' = w_config w
   \<and> n' = n \<and> (st = Exit 0 \<longleftrightarrow> is_ok r)"
  by (auto simp: exit_with_def eprintf_def split: sum.splits)

lemma usage_world:
  "w_files (usage_out w) = w_files w" "w_config (usage_out w) = w_config w"
  "w_files (usage_err w) = w_files w" "w_config (usage_err w) = w_config w"
  "w_files (eprintf f a w) = w_files w" "w_config (eprintf f a w) = w_config w"
  "w_files (snd (printf f a w)) = w_files w" "w_config (snd (printf f a w)) = w_config w"
  by (simp_all add: usage_out_def usage_err_def eprintf_def printf_def)

text \<open>What a run comes down to, on any machine: a command on the state, or nothing that touches
  the files.\<close>

lemma kozi_main_cases:
  assumes "stopped_watch es"
  obtains (command) cmd where
      "cmd \<in> {cmdPair pf (drop 2 argv), cmdSetLocation pf (drop 2 argv), cmdUnpair pf (drop 2 argv), cmdList pf (drop 2 argv)}"
      "\<And>w n. kozi_main pf run t0 es argv (w, n) = (case cmd w of (r, w') \<Rightarrow> Done (exit_with (r, w', n)))"
  | (other) "\<And>w n. \<exists>st w' n'. kozi_main pf run t0 es argv (w, n) = Done (st, w', n')
      \<and> w_files w' = w_files w \<and> w_config w' = w_config w"
proof (cases "\<exists>prog cmd args. argv = prog # cmd # args")
  case False
  then have "kozi_main pf run t0 es argv (w, n) = Done (Exit 2, usage_err w, n)" for w n
    by (auto simp: kozi_main_def split: list.split)
  then show ?thesis by (intro other) (simp add: usage_world)
next
  case True
  then obtain prog cmd args where argv: "argv = prog # cmd # args" by blast
  have es: "CtxDone \<in> set es" "list_all quiet es" using assms by (simp_all add: stopped_watch_def)
  have d: "drop 2 argv = args" by (simp add: argv)
  consider "cmd = ''pair''" | "cmd = ''list''" | "cmd = ''set-location''" | "cmd = ''proximity-watch''" | "cmd = ''unpair''"
    | "cmd \<notin> {''pair'', ''list'', ''set-location'', ''proximity-watch'', ''unpair''}" by blast
  then show ?thesis
  proof cases
    case 1
    then show ?thesis by (intro command [of "cmdPair pf args"]) (simp_all add: kozi_main_def argv)
  next
    case 2
    then show ?thesis by (intro command [of "cmdList pf args"]) (simp_all add: kozi_main_def argv)
  next
    case 3
    then show ?thesis by (intro command [of "cmdSetLocation pf args"]) (simp_all add: kozi_main_def argv)
  next
    case 5
    then show ?thesis by (intro command [of "cmdUnpair pf args"]) (simp_all add: kozi_main_def argv)
  next
    case 4
    show ?thesis
    proof (rule other)
      fix w n
      obtain r w1 n1 where p: "cmdProximityWatch pf run t0 es args (w, n) = Done (r, w1, n1)"
        "list_all quiet es \<longrightarrow> w_files w1 = w_files w \<and> w_config w1 = w_config w"
        using cmdProximityWatch_Done [OF es(1), of pf run t0 args w n] by (elim exE conjE)
      obtain st w' n' where e: "exit_with (r, w1, n1) = (st, w', n')" by (metis surj_pair)
      have "kozi_main pf run t0 es argv (w, n) = Done (st, w', n')"
        using 4 p(1) e by (simp add: kozi_main_def argv)
      then show "\<exists>st w' n'. kozi_main pf run t0 es argv (w, n) = Done (st, w', n')
          \<and> w_files w' = w_files w \<and> w_config w' = w_config w"
        using p(2) exit_with_world [OF e] es(2) by simp
    qed
  next
    case 6
    then show ?thesis by (intro other) (simp add: kozi_main_def argv usage_world)
  qed
qed

text \<open>Each of them refuses its arguments, updates the state, or only prints.\<close>

lemma command_shape:
  assumes "cmd \<in> {cmdPair pf args, cmdSetLocation pf args, cmdUnpair pf args, cmdList pf args}"
  shows "(\<exists>e. cmd = op_fail e) \<or> (\<exists>f out. cmd = update_cmd pf f out) \<or> cmd = cmdList pf args"
  using assms cmdPair_shape [of pf args] cmdSetLocation_shape [of pf args] cmdUnpair_shape [of pf args] by blast

lemma command_torn:
  assumes "cmd \<in> {cmdPair pf args, cmdSetLocation pf args, cmdUnpair pf args, cmdList pf args}" "cmd w = (Inl e, w')"
  shows "w' = w \<or> torn w \<and> (stored w' = None
    \<or> (\<exists>w0. cmd (w\<lparr>w_write_fault := None\<rparr>) = (Inr (), w0) \<and> w_files w' = w_files w0))"
  using command_shape [OF assms(1)]
proof (elim disjE exE)
  fix f out
  assume c: "cmd = update_cmd pf f out"
  from update_torn_files [of pf f out w e w'] assms(2) show ?thesis unfolding c by blast
qed (use assms(2) in \<open>auto dest: cmdList_fails\<close>)

section \<open>The properties\<close>

lemma kozi_main_keeps_inv:
  assumes "list_all utf8_valid argv" "stored_inv pf w" "stopped_watch es"
  shows "\<exists>st w' n'. kozi_main pf run t0 es argv (w, n) = Done (st, w', n') \<and> stored_inv pf w'"
proof (rule kozi_main_cases [OF assms(3), of pf argv run t0])
  fix cmd
  assume c: "cmd \<in> {cmdPair pf (drop 2 argv), cmdSetLocation pf (drop 2 argv), cmdUnpair pf (drop 2 argv), cmdList pf (drop 2 argv)}"
    and m: "\<And>w n. kozi_main pf run t0 es argv (w, n) = (case cmd w of (r, w') \<Rightarrow> Done (exit_with (r, w', n)))"
  obtain r w1 where r: "cmd w = (r, w1)" by (metis surj_pair)
  obtain st w' n' where e: "exit_with (r, w1, n) = (st, w', n')" by (metis surj_pair)
  have "list_all utf8_valid (drop 2 argv)" using assms(1) by (auto simp: list_all_iff dest: in_set_dropD)
  then have "keeps_inv pf cmd" using c keeps_inv_commands [where pf = pf and args = "drop 2 argv"] by blast
  with r assms(2) have "stored_inv pf w1" unfolding keeps_inv_def by blast
  moreover have "stored_inv pf w' = stored_inv pf w1"
    using exit_with_world [OF e] by (intro stored_inv_cong) simp_all
  ultimately show ?thesis using m [of w n] r e by simp
next
  assume "\<And>w n. \<exists>st w' n'. kozi_main pf run t0 es argv (w, n) = Done (st, w', n')
      \<and> w_files w' = w_files w \<and> w_config w' = w_config w"
  then obtain st w' n' where "kozi_main pf run t0 es argv (w, n) = Done (st, w', n')"
    "w_files w' = w_files w" "w_config w' = w_config w" by blast
  then show ?thesis using stored_inv_cong [of w' w pf] assms(2) by blast
qed

definition run_stopped :: "run \<Rightarrow> bool" where
  "run_stopped r = (case r of (fs, t0, es, argv) \<Rightarrow> stopped_watch es)"

definition valid_args :: "run \<Rightarrow> bool" where
  "valid_args r = (case r of (fs, t0, es, argv) \<Rightarrow> list_all utf8_valid argv)"

lemma kozi_main_returns:
  assumes "stopped_watch es"
  shows "\<exists>st w' n'. kozi_main pf run t0 es argv (w, n) = Done (st, w', n')"
proof (rule kozi_main_cases [OF assms, of pf argv run t0])
  fix cmd
  assume m: "\<And>w n. kozi_main pf run t0 es argv (w, n) = (case cmd w of (r, w') \<Rightarrow> Done (exit_with (r, w', n)))"
  obtain r w1 st w' n' where "cmd w = (r, w1)" "exit_with (r, w1, n) = (st, w', n')" by (metis surj_pair)
  with m show ?thesis by simp
qed blast

lemma session_returns:
  assumes "\<forall>r \<in> set l. run_stopped r"
  shows "\<exists>w' n'. session pf run l (w, n) = Done (w', n')
    \<and> (stored_inv pf w \<longrightarrow> (\<forall>r \<in> set l. valid_args r) \<longrightarrow> stored_inv pf w')"
  using assms
proof (induction l arbitrary: w n)
  case (Cons i l)
  obtain fs t0 es argv where i: "i = (fs, t0, es, argv)" by (metis surj_pair)
  with Cons.prems have es: "stopped_watch es" by (simp add: run_stopped_def)
  from kozi_main_returns [OF es, of pf run t0 argv "with_faults fs w" n] obtain st w1 n1 where
    m: "kozi_main pf run t0 es argv (with_faults fs w, n) = Done (st, w1, n1)" by blast
  have keep: "stored_inv pf w1" if "stored_inv pf w" "list_all utf8_valid argv"
    using kozi_main_keeps_inv [OF that(2) _ es, of pf "with_faults fs w" run t0 n] that(1) m
    by (simp add: stored_inv_faults)
  obtain w' n' where "session pf run l (w1, n1) = Done (w', n')"
    "stored_inv pf w1 \<longrightarrow> (\<forall>r \<in> set l. valid_args r) \<longrightarrow> stored_inv pf w'"
    using Cons.IH [of w1 n1] Cons.prems by auto
  with m i keep show ?case by (auto simp: valid_args_def)
qed simp

text \<open>C26: Whatever runs of the program follow each other on a fresh machine - any arguments, any
  call of the operating system failing, any write of the state breaking off after any number of
  bytes, watches of any length during which nobody else writes the state, stopped at some time -,
  none panics. If the arguments of all runs are valid UTF-8, every state that can then be loaded is
  consistent: names are distinct and not empty, and each buddy's secret is the one its own stored
  invitation gives. (Names that are not valid UTF-8 can collide in the file.)\<close>

theorem sessions_keep_state_consistent:
  assumes "w_files w = Map.empty" "\<forall>r \<in> set l. run_stopped r"
  shows "\<exists>w' n'. session pf run l (w, n) = Done (w', n')
    \<and> ((\<forall>r \<in> set l. valid_args r) \<longrightarrow> (\<forall>s. stored w' = Some s \<longrightarrow> kozi_inv pf s))"
proof -
  have "stored_inv pf w"
    using assms(1) kozi_inv_new by (auto simp: stored_inv_def stored_def split: sum.splits)
  with session_returns [OF assms(2), of pf run w n] show ?thesis by (auto simp: stored_inv_def)
qed

theorem sessions_keep_state_consistent_witness:
  "\<exists>w' n'. session example_platform (\<lambda>a n. (Inr (), n))
      [((None, None, None), zero_time, [CtxDone], [''kozi-cli'', ''pair'', ''bob'', SMPQueueURI_String example_uri]),
       ((None, None, Some (WriteFails (ForeignErr ''ENOSPC'') 7)), zero_time, [CtxDone], [''kozi-cli'', ''unpair'', ''bob'']),
       ((None, None, None), zero_time, [Ticker zero_time (\<lambda>w. w), CtxDone], [''kozi-cli'', ''proximity-watch''])] (example_world, ())
     = Done (w', n')
    \<and> (\<forall>s. stored w' = Some s \<longrightarrow> kozi_inv example_platform s)"
proof -
  let ?l = "[((None, None, None), zero_time, [CtxDone], [''kozi-cli'', ''pair'', ''bob'', SMPQueueURI_String example_uri]),
       ((None, None, Some (WriteFails (ForeignErr ''ENOSPC'') 7)), zero_time, [CtxDone], [''kozi-cli'', ''unpair'', ''bob'']),
       ((None, None, None), zero_time, [Ticker zero_time (\<lambda>w. w), CtxDone], [''kozi-cli'', ''proximity-watch''])] :: run list"
  have "is_ascii ''kozi-cli''" "is_ascii ''pair''" "is_ascii ''bob''" "is_ascii ''unpair''" "is_ascii ''proximity-watch''"
    by code_simp+
  then have valid: "\<forall>r \<in> set ?l. valid_args r"
    using ascii_valid example_link(2) by (simp add: valid_args_def)
  have stopped: "\<forall>r \<in> set ?l. run_stopped r" by (simp add: run_stopped_def stopped_watch_def)
  have "w_files example_world = Map.empty" by (simp add: example_world_def)
  from sessions_keep_state_consistent [OF this stopped, of example_platform "\<lambda>a n. (Inr (), n)" "()"] valid
  show ?thesis by blast
qed

text \<open>C30: A run of the program that exits with an error status has changed no file - wrong
  arguments, an unknown command, a refused invitation, a name that is taken or missing, a state
  file that cannot be read, parsed, encoded or opened all leave the state as it was -, unless a
  write broke off; then what is left is refused by every later run, or is the whole new state,
  the files being those of the same run without the fault.\<close>

theorem failed_run_changes_nothing:
  assumes "kozi_main pf run t0 es argv (w, n) = Done (st, w', n')" "st \<noteq> Exit 0" "stopped_watch es"
  shows "w_files w' = w_files w \<or> torn w \<and> (stored w' = None
    \<or> (\<exists>w0 n0. kozi_main pf run t0 es argv (w\<lparr>w_write_fault := None\<rparr>, n) = Done (Exit 0, w0, n0) \<and> w_files w' = w_files w0))"
proof (rule kozi_main_cases [OF assms(3), of pf argv run t0])
  fix cmd
  assume c: "cmd \<in> {cmdPair pf (drop 2 argv), cmdSetLocation pf (drop 2 argv), cmdUnpair pf (drop 2 argv), cmdList pf (drop 2 argv)}"
    and m: "\<And>w n. kozi_main pf run t0 es argv (w, n) = (case cmd w of (r, w') \<Rightarrow> Done (exit_with (r, w', n)))"
  obtain r w1 where r: "cmd w = (r, w1)" by (metis surj_pair)
  with m assms(1) have e: "exit_with (r, w1, n) = (st, w', n')" by simp
  note f = exit_with_world [OF e]
  with assms(2) obtain err where "r = Inl err" by (cases r) auto
  from command_torn [OF c r [unfolded this]] show ?thesis
  proof (elim disjE conjE exE)
    fix w0
    assume t: "torn w" "cmd (w\<lparr>w_write_fault := None\<rparr>) = (Inr (), w0)" "w_files w1 = w_files w0"
    then have "kozi_main pf run t0 es argv (w\<lparr>w_write_fault := None\<rparr>, n) = Done (Exit 0, w0, n)"
      by (simp add: m exit_with_def)
    with t f show ?thesis by auto
  next
    assume "torn w" "stored w1 = None"
    with f stored_cong [of w' w1] show ?thesis by auto
  qed (use f in simp)
next
  assume "\<And>w n. \<exists>st w' n'. kozi_main pf run t0 es argv (w, n) = Done (st, w', n')
      \<and> w_files w' = w_files w \<and> w_config w' = w_config w"
  from this [of w n] assms(1) show ?thesis by auto
qed

text \<open>The witness fills the disk: seven bytes of the new state are written.\<close>

theorem failed_run_changes_nothing_witness:
  "let w = example_world\<lparr>w_write_fault := Some (WriteFails (ForeignErr ''ENOSPC'') 7)\<rparr>;
       prog = kozi_main example_platform (\<lambda>a n. (Inr (), n)) zero_time [CtxDone] [''kozi-cli'', ''set-location'', ''8FVC9G'']
   in \<exists>st w'. prog (w, ()) = Done (st, w', ()) \<and> st \<noteq> Exit 0 \<and> w_files w' \<noteq> w_files w
     \<and> (stored w' = None \<or> (\<exists>w0 n0. prog (w\<lparr>w_write_fault := None\<rparr>, ()) = Done (Exit 0, w0, n0) \<and> w_files w' = w_files w0))"
proof -
  let ?w = "example_world\<lparr>w_write_fault := Some (WriteFails (ForeignErr ''ENOSPC'') 7)\<rparr>"
  let ?argv = "[''kozi-cli'', ''set-location'', ''8FVC9G'']"
  let ?run = "\<lambda>a n. (Inr (), n)"
  let ?code = "normalizePlusCode example_platform ''8FVC9G''"
  let ?s = "new_state\<lparr>ks_CurrentLocation := ?code\<rparr>"
  let ?p = "''/home/joop/.config'' @ ''/kozi/state.json''"
  have "storable ?s" by (simp add: storable_def new_state_def stateVersion_def)
  then obtain data where data: "MarshalIndent ?s = Inr data" using Unmarshal_MarshalIndent by blast
  have p: "statePath ?w = Inr ?p" by (simp add: statePath_def example_world_def)
  let ?w1 = "?w\<lparr>w_files := [?p \<mapsto> take 7 data]\<rparr>"
  have l: "loadState ?w = (Inr new_state, ?w)"
    by (simp only: loadState_def p sum.case) (simp add: example_world_def)
  have "saveState ?s ?w = (Inl (Errorf ''write state %s: %w'' [AStr ?p, AWrap (ForeignErr ''ENOSPC'')]), ?w1)"
    by (simp only: saveState_def p data sum.case option.case, simp add: example_world_def)
  then obtain e where c: "cmdSetLocation example_platform [''8FVC9G''] ?w = (Inl e, ?w1)"
    using l by (simp add: cmdSetLocation_update update_cmd_def set_location_def op_bind_def)
  define w' where "w' = eprintf (line ''kozi-cli: %v'') [AVal e] ?w1"
  have m: "kozi_main example_platform ?run zero_time [CtxDone] ?argv (?w, ()) = Done (Exit 1, w', ())"
    using c by (simp add: kozi_main_def exit_with_def w'_def)
  have f: "w_files w' = [?p \<mapsto> take 7 data]" by (simp add: w'_def eprintf_def)
  have "w_files w' ?p \<noteq> None" unfolding f by simp
  moreover have "w_files ?w ?p = None" by (simp add: example_world_def)
  ultimately have ne: "w_files w' \<noteq> w_files ?w" by metis
  have "stopped_watch [CtxDone]" by (simp add: stopped_watch_def)
  from failed_run_changes_nothing [OF m _ this] ne
  have "stored w' = None \<or> (\<exists>w0 n0. kozi_main example_platform ?run zero_time [CtxDone] ?argv (?w\<lparr>w_write_fault := None\<rparr>, ())
      = Done (Exit 0, w0, n0) \<and> w_files w' = w_files w0)" by (metis exit_status.inject zero_neq_one)
  with m ne show ?thesis unfolding Let_def by (intro exI [of _ "Exit 1"] exI [of _ w'] conjI) simp_all
qed

text \<open>A notifier that records its calls and fails, if at all, at the call with a given number.\<close>

definition recording :: "nat option \<Rightarrow> string \<Rightarrow> string \<Rightarrow> ((string \<times> string) list, unit) op" where
  "recording k title body calls =
     (if k = Some (length calls) then (Inl (ForeignErr ''notify''), calls) else (Inr (), calls @ [(title, body)]))"

definition match_call :: "string \<Rightarrow> string \<Rightarrow> string \<times> string" where
  "match_call grid name = (''Kozi: proximity match'', match_body name grid)"

lemma watch_buddies_recording:
  assumes "case k of None \<Rightarrow> True | Some i \<Rightarrow> length calls \<le> i"
  shows "watch_buddies pf (recording k) grid l ms calls =
    (let names = map bd_Name (filter (is_match pf grid) l);
         left = (case k of None \<Rightarrow> length names | Some i \<Rightarrow> i - length calls)
     in if left < length names
        then ((ms @ take (left + 1) names, Some (Errorf ''notify %s: %w'' [AStr (names ! left), AWrap (ForeignErr ''notify'')])),
              calls @ map (match_call grid) (take left names))
        else ((ms @ names, None), calls @ map (match_call grid) names))"
  using assms
proof (induction l arbitrary: ms calls)
  case (Cons b l)
  show ?case
  proof (cases "is_match pf grid b")
    case False
    with Cons show ?thesis by simp
  next
    case True
    show ?thesis
    proof (cases "k = Some (length calls)")
      case True
      with \<open>is_match pf grid b\<close> show ?thesis by (simp add: recording_def Let_def)
    next
      case False
      let ?calls = "calls @ [match_call grid (bd_Name b)]"
      have r: "recording k ''Kozi: proximity match'' (match_body (bd_Name b) grid) calls = (Inr (), ?calls)"
        using False by (simp add: recording_def match_call_def)
      have "case k of None \<Rightarrow> True | Some i \<Rightarrow> length ?calls \<le> i"
        using False Cons.prems by (auto split: option.splits)
      note IH = Cons.IH [OF this, of "ms @ [bd_Name b]"]
      have left: "i - length calls = Suc (i - length ?calls)" if "k = Some i" for i
        using that False Cons.prems by simp
      have "watch_buddies pf (recording k) grid (b # l) ms calls
          = watch_buddies pf (recording k) grid l (ms @ [bd_Name b]) ?calls"
        using \<open>is_match pf grid b\<close> r by simp
      then show ?thesis
        using IH \<open>is_match pf grid b\<close> left
        by (cases k) (auto simp: Let_def simp del: watch_buddies.simps)
    qed
  qed
qed (simp add: Let_def split: option.split)

text \<open>C32: One tick of the watch reports exactly the buddies whose last seen grid, normalised, is the
  normalised current location, in the order of the list, and sends one notification for each; a
  notification that fails ends the tick with an error that names its buddy, who is the last one
  reported, and nobody after it is notified. Without a location nothing is sent.\<close>

theorem watchOnce_exact:
  "watchOnce pf s \<lparr>wc_Interval = i, wc_Notifier = Some (recording k), wc_Now = now\<rparr> [] =
    (let grid = normalizePlusCode pf (ks_CurrentLocation s);
         names = map bd_Name (filter (\<lambda>b. bd_LastSeenGrid b \<noteq> [] \<and> normalizePlusCode pf (bd_LastSeenGrid b) = grid)
           (ks_Buddies s))
     in if ks_CurrentLocation s = []
        then (([], Some (ErrNew ''current location not set; use `kozi-cli set-location <plus-code>`'')), [])
        else case k of
            None \<Rightarrow> ((names, None), map (match_call grid) names)
          | Some j \<Rightarrow>
              if j < length names
              then ((take (j + 1) names, Some (Errorf ''notify %s: %w'' [AStr (names ! j), AWrap (ForeignErr ''notify'')])),
                    map (match_call grid) (take j names))
              else ((names, None), map (match_call grid) names))"
proof (cases "ks_CurrentLocation s = []")
  case True
  then show ?thesis by (simp add: watchOnce_def Let_def)
next
  case False
  have m: "is_match pf g = (\<lambda>b. bd_LastSeenGrid b \<noteq> [] \<and> normalizePlusCode pf (bd_LastSeenGrid b) = g)" for g
    by (rule ext) (simp add: is_match_def)
  from False show ?thesis
    by (cases k) (simp_all add: watchOnce_def watch_buddies_recording m Let_def)
qed

text \<open>Slot ids.\<close>

definition collision :: "(bytes \<Rightarrow> bytes) \<Rightarrow> bytes \<Rightarrow> bytes \<Rightarrow> bool" where
  "collision f a b \<longleftrightarrow> a \<noteq> b \<and> f a = f b"

lemma hex_lower_inj: "a < 16 \<Longrightarrow> b < 16 \<Longrightarrow> hex_lower a = hex_lower b \<longleftrightarrow> a = b"
proof -
  have "distinct ''0123456789abcdef''" "length ''0123456789abcdef'' = 16" by code_simp+
  then show "a < 16 \<Longrightarrow> b < 16 \<Longrightarrow> hex_lower a = hex_lower b \<longleftrightarrow> a = b"
    by (metis hex_lower_def nth_eq_iff_index_eq)
qed

lemma hex_encode_inj: "hex_encode a = hex_encode b \<longleftrightarrow> a = b"
proof
  assume "hex_encode a = hex_encode b"
  then show "a = b"
  proof (induction a arbitrary: b)
    case Nil
    then show ?case by (cases b) (simp_all add: hex_encode_def)
  next
    case (Cons x a)
    then obtain y b' where b: "b = y # b'" by (cases b) (simp_all add: hex_encode_def)
    with Cons.prems have "unat x div 16 = unat y div 16 \<and> unat x mod 16 = unat y mod 16" "hex_encode a = hex_encode b'"
      by (simp_all add: hex_encode_def hex_lower_inj byte_div_16)
    with Cons.IH b show ?case by (metis div_mult_mod_eq word_unat_eq_iff)
  qed
qed simp

lemma hex_encode_colon: "CHR '':'' \<notin> set (hex_encode b)"
proof -
  have "\<forall>d \<in> set [0..<16]. hex_lower d \<noteq> CHR '':''" by code_simp
  then have "hex_lower d \<noteq> CHR '':''" if "d < 16" for d using that by simp
  then show ?thesis by (auto simp: hex_encode_def byte_div_16 dest: sym)
qed

lemma split_at_unique: "c \<notin> set a \<Longrightarrow> c \<notin> set a' \<Longrightarrow> a @ c # b = a' @ c # b' \<longleftrightarrow> a = a' \<and> b = b'"
  by (metis Cut_present prod.inject)

lemma slot_input_inj:
  "slot_input (hex_encode x) (hourBucket t) = slot_input (hex_encode y) (hourBucket t')
     \<longleftrightarrow> x = y \<and> unix_time t div 3600 = unix_time t' div 3600"
proof -
  have "slot_input (hex_encode x) (hourBucket t) = slot_input (hex_encode y) (hourBucket t')
     \<longleftrightarrow> hex_encode x @ CHR '':'' # hourBucket t = hex_encode y @ CHR '':'' # hourBucket t'"
    by (simp add: slot_input_def flip: bs_append)
  also have "\<dots> \<longleftrightarrow> x = y \<and> unix_time t div 3600 = unix_time t' div 3600"
    by (simp add: split_at_unique [OF hex_encode_colon hex_encode_colon] hex_encode_inj hourBucket_def format_hour_eq_iff)
  finally show ?thesis .
qed

text \<open>Two slot ids are the same exactly for the same shared secret in the same hour of UTC, or
  when their inputs are a SHA-256 collision.\<close>

lemma slots_rotate_hourly:
  "deriveSlotID pf (hex_encode x) (hourBucket t) = deriveSlotID pf (hex_encode y) (hourBucket t')
     \<longleftrightarrow> x = y \<and> unix_time t div 3600 = unix_time t' div 3600
       \<or> collision (pf_sha256 pf) (slot_input (hex_encode x) (hourBucket t)) (slot_input (hex_encode y) (hourBucket t'))"
  using slot_input_inj [of x t y t'] by (auto simp: deriveSlotID_def hex_encode_inj collision_def)

text \<open>The three parts of the secret's input have lengths that keep them apart.\<close>

lemma secret_input_inj:
  assumes "uri_wf u" "uri_wf u'"
  shows "secret_input u = secret_input u' \<longleftrightarrow>
    qu_SenderID u = qu_SenderID u' \<and> qu_DHPubKey u = qu_DHPubKey u' \<and> qu_ServerFingerprint u = qu_ServerFingerprint u'"
proof -
  have "length (qu_DHPubKey u) = length (qu_DHPubKey u')" "length (qu_ServerFingerprint u) = length (qu_ServerFingerprint u')"
    using assms by (simp_all add: uri_wf_def)
  then have "a @ qu_DHPubKey u @ qu_ServerFingerprint u = b @ qu_DHPubKey u' @ qu_ServerFingerprint u' \<longleftrightarrow>
    a = b \<and> qu_DHPubKey u = qu_DHPubKey u' \<and> qu_ServerFingerprint u = qu_ServerFingerprint u'" for a b
    using append_eq_append_conv [of "qu_ServerFingerprint u" "qu_ServerFingerprint u'" "a @ qu_DHPubKey u" "b @ qu_DHPubKey u'"]
      append_eq_append_conv [of "qu_DHPubKey u" "qu_DHPubKey u'" a b] by auto
  then show ?thesis unfolding secret_input_def by simp
qed

definition slot_of :: "platform \<Rightarrow> SMPQueueURI \<Rightarrow> gotime \<Rightarrow> string" where
  "slot_of pf u t = deriveSlotID pf (hex_encode (deriveProximitySecret pf u)) (hourBucket t)"

text \<open>C33: Two machines that accepted an invitation each meet in the same slot - whatever their
  clocks' zones, in any year - exactly when both invitations name the same queue (sender id, key
  and server fingerprint; not the host, port or versions) and both clocks are in the same hour of
  UTC, or else SHA-256 collides on the inputs of the secrets or of the slots: the slot rotates
  every hour, both peers of a pair find each other in it, and different pairs do not.\<close>

theorem peers_meet_in_slot:
  assumes "ParseSMPQueueURI l = Inr u" "ParseSMPQueueURI l' = Inr u'"
  shows "slot_of pf u t = slot_of pf u' t'
     \<longleftrightarrow> qu_SenderID u = qu_SenderID u' \<and> qu_DHPubKey u = qu_DHPubKey u' \<and> qu_ServerFingerprint u = qu_ServerFingerprint u'
         \<and> unix_time t div 3600 = unix_time t' div 3600
       \<or> collision (pf_sha256 pf) (secret_input u) (secret_input u') \<and> unix_time t div 3600 = unix_time t' div 3600
       \<or> collision (pf_sha256 pf) (slot_input (hex_encode (deriveProximitySecret pf u)) (hourBucket t))
           (slot_input (hex_encode (deriveProximitySecret pf u')) (hourBucket t'))"
proof -
  note wf = ParseSMPQueueURI_wf [OF assms(1)] ParseSMPQueueURI_wf [OF assms(2)]
  have "deriveProximitySecret pf u = deriveProximitySecret pf u' \<longleftrightarrow>
      secret_input u = secret_input u' \<or> collision (pf_sha256 pf) (secret_input u) (secret_input u')"
    by (auto simp: deriveProximitySecret_def collision_def)
  then show ?thesis
    unfolding slot_of_def slots_rotate_hourly using secret_input_inj wf by blast
qed

text \<open>The witness: the same invitation on a machine in another zone.\<close>

theorem peers_meet_in_slot_witness:
  "slot_of example_platform example_uri \<lparr>t_local = 63844787109, t_nsec = 0, t_offset = 0\<rparr>
    = slot_of example_platform example_uri \<lparr>t_local = 63844790710, t_nsec = 5, t_offset = 3600\<rparr>"
  by (rule peers_meet_in_slot [OF example_link(1) example_link(1), THEN iffD2]) (simp add: unix_time_def)

end
