(* ===== verification/Simplex_Cli.thy ===== *)
theory Simplex_Cli
  imports Kozi_Commands
begin

text \<open>\<open>cmd/simplex-cli/main.go\<close>, a program that is not written yet.\<close>

definition simplex_cli_main :: "world \<Rightarrow> world" where
  "simplex_cli_main w = snd (printf (line ''simplex-cli: not yet implemented'') [] w)"

lemma simplex_cli_prints:
  "w_files (simplex_cli_main w) = w_files w" "w_err (simplex_cli_main w) = w_err w"
  "length (w_out (simplex_cli_main w)) = length (w_out w) + 1"
  by (simp_all add: simplex_cli_main_def printf_def)

end
