(* ===== verification/Spec2Isabelle.thy ===== *)
theory Spec2Isabelle
  imports Client_System Client_Trace Read_Loop Kozi_Watch Simplex_Cli
begin

text \<open>
  A model of \<^verbatim>\<open>simplex-go\<close>: the Go client of the SimpleX messaging protocol (package \<open>smp\<close>) and
  the buddy tool \<open>kozi-cli\<close> built on it.

  \<^bold>\<open>The program.\<close> A client dials an SMP server over TLS (\<open>smp/transport.go\<close>), which pins the
  server's certificate and exchanges blocks of 16384 bytes; over the blocks it runs the SMP
  handshake (\<open>smp/handshake.go\<close>, \<open>smp/dial.go\<close>) and then sends commands and receives replies and
  pushed messages (\<open>smp/client.go\<close>). Commands, messages, transmissions and blocks have the binary
  formats of \<open>smp/protocol.go\<close>, built from the primitives of \<open>smp/encoding.go\<close>; commands are
  authorised by the signers of \<open>smp/auth.go\<close> and \<open>smp/auth_cb.go\<close> on the key agreement of
  \<open>smp/dh.go\<close>. Queue addresses travel out of band as the URIs of \<open>smp/queue_uri.go\<close>.
  \<open>cmd/kozi-cli\<close> keeps a list of buddies, paired by such a URI, in a JSON file, and watches for
  buddies in the neighbourhood.

  \<^bold>\<open>The theories.\<close>

  \<^item> \<open>Prelude\<close>: bytes and Go strings, Go's errors as values with \<open>errors.Is\<close>, results, methods on a
    receiver as state transformers that may fail (type \<open>op\<close>); the collections of lemmas on
    writers and readers.
  \<^item> \<open>Wire_Encoding\<close> and \<open>Wire_Codec\<close>: every method of \<open>Encoder\<close> and \<open>Decoder\<close>
    (\<open>Encoder_Word16\<close> is the method \<open>Word16\<close>); the record of a decoder is its buffer and its
    position. The locales \<open>wire_codec\<close> and \<open>canonical_codec\<close> state what a pair of methods owes its
    users (what was written is read back, wherever it stands in a buffer, and nothing else is
    accepted) and are interpreted on every pair. No sequence of reads leaves the buffer.
  \<^item> \<open>Protocol\<close>: commands and server messages, \<open>EncodeCommand\<close> and \<open>DecodeBrokerMsg\<close>, the layouts
    they implement (\<open>command_wire\<close>, \<open>broker_wire\<close>) and the grammars the comments quote, which are
    narrower (\<open>spec_command\<close>, \<open>spec_broker\<close>). \<open>Transmission\<close>: \<open>EncodeTransmission\<close>, \<open>decodeTransmission\<close>, \<open>EncodeBlock\<close>,
    \<open>DecodeBlock\<close>. The decoders are shown to accept exactly their layouts; the authorised bytes
    determine everything they cover.
  \<^item> \<open>Transport\<close>: \<open>WriteBlock\<close> and \<open>ReadBlock\<close> with their deadlines, the certificate callback and
    \<open>DialTLS\<close>, over a TLS session that is its incoming and outgoing byte streams and how each ends.
  \<^item> \<open>Auth\<close>: key agreement, both signers, \<open>VerifyCbAuth\<close>. The primitives of Go's crypto packages are
    the record \<open>crypto\<close>; \<open>crypto_laws\<close> states their documented behaviour and is a hypothesis of
    the theorems that use it.
  \<^item> \<open>Handshake\<close>: both hello messages, \<open>NegotiateVersion\<close>, \<open>runSMPClientHandshake\<close>.
  \<^item> \<open>Go_Channel\<close>: buffered channels whose operations finish, panic or block. \<open>Client\<close>: the
    client's two maps and every critical section under its mutex, as functions; the parts of
    \<open>send\<close> around its wait; what the methods make of a reply; the locale \<open>rcv_auth\<close> is the interface
    \<open>RcvAuthKey\<close>. \<open>Read_Loop\<close>: the reader's loop
    over the interface \<open>BlockTransport\<close> (the locale \<open>block_transport\<close>, interpreted on
    \<open>ReadBlock\<close>), \<open>Dial\<close> and \<open>Close\<close> with the reader's last turns (\<open>Client_Close\<close>). \<open>Client_System\<close>: any number of callers, the reader and the
    consumers interleaved, one step per critical section or channel operation, with
    \<open>reachable\<close> as an inductive predicate and its invariant. \<open>Client_Trace\<close>: runs with their history
    (\<open>trace\<close>), what the history says about the answer a call receives, and that an answer the
    reader has read arrives.
  \<^item> \<open>Go_Strings\<close>: the library functions of the URI parser (numbers, base64, query strings) with
    their inverse laws. \<open>Queue_URI\<close>: parser and printer; the locale \<open>invitation_codec\<close>.
  \<^item> The library below the state file. \<open>Go_UTF8\<close>: runes, valid texts, what Go makes of the others.
    \<open>Go_JSON\<close>: the text of JSON documents as \<open>encoding/json\<close> reads and writes it: the scanner as
    a state machine over a stack of open values (\<open>scan_step\<close>), string literals with their escapes
    (\<open>quote_json\<close>, \<open>unquote_json\<close>), the indented layout, 64-bit numbers; what is printed is read back
    (\<open>parse_indent_json\<close>), and no proper beginning of a printed object is accepted (\<open>torn_object\<close>).
    \<open>Go_Time\<close>: the Gregorian date of an instant, and that the text of an hour names it.
    \<open>Go_RFC3339\<close>: \<open>time.Time\<close> with its zone, \<open>Format\<close>, \<open>MarshalJSON\<close>, and both parsers \<open>UnmarshalJSON\<close>
    tries; a time that is written is read back, and what is read is a date of the years 0 to 9999.
  \<^item> \<open>Kozi_State\<close>: the two structs of \<open>state.go\<close>, \<open>MarshalIndent\<close> and \<open>Unmarshal\<close> between them and the
    bytes of the file, \<open>loadState\<close> and \<open>saveState\<close> on a machine whose calls may fail and whose writes
    may break off; the locale \<open>persistent\<close>. \<open>Kozi_Commands\<close>: \<open>commands.go\<close>. \<open>Kozi_Watch\<close>:
    \<open>proximity.go\<close>, \<open>main.go\<close>, and sessions of many runs. \<open>Simplex_Cli\<close>: \<open>cmd/simplex-cli\<close>, which
    prints one line.

  \<^bold>\<open>What the theorems show.\<close> Formats: round trips and exactness of every decoder against its
  layout, and where the layouts go beyond the quoted grammars; the authorisation covers session,
  correlation id, queue and command. Connection: only a server with the pinned certificate and the expected session is accepted, the version is the
  greatest common one, framing delivers the payloads in order. Client: a reply reaches the call
  that waits for it and nobody else, in every interleaving what a call receives answers its own
  request and a reply that was read is not lost unless the client is closed, subscribers receive their messages in order, closing
  settles every call, the reader never blocks or panics, a closed client lets every caller
  return that does not wait for the transport; the two panics that remain, both in \<open>Subscribe\<close>, are exhibited from reachable
  states. URIs: when printing and parsing are inverse, and what is refused. kozi-cli: what is
  saved is what is loaded, byte for byte of the file; whatever is loaded is well typed; the buddy
  list implements a map, no sequence of runs panics, runs with arguments in valid UTF-8 keep its
  invariant, failing runs change nothing
  (a write that breaks off leaves a file every later run refuses), locations stored are coarse,
  the watch reports exactly the matches, slot ids rotate hourly.

  \<^bold>\<open>Bounds and fuel.\<close> \<open>readLoop\<close> takes fuel; \<open>readLoop_terminates\<close> shows that one turn per 16384
  bytes of the stream and one more are enough. The other loops are structural or have a
  termination proof. Words keep their width; lengths are compared as the code compares them.

  \<^bold>\<open>Assumptions.\<close> Correlation ids are fresh where a theorem says so (the code draws 24 random
  bytes); collisions of hash functions appear as a disjunct of the conclusion; iteration orders
  over Go maps are arguments. A context is its deadline and the label that cancels a call. A call of the transport that never
  returns is a step that is never taken: no theorem says that \<open>WriteBlock\<close> returns. Command-line arguments are valid
  UTF-8 where a theorem says so.

  \<^bold>\<open>Not modelled.\<close> The default branch of \<open>EncodeCommand\<close> (the interface is sealed, a nil command is
  the only way there), the 64-bit sum in \<open>need\<close> beyond the lengths the package passes, the TLS handshake, the contents of certificates beyond their raw
  bytes, the crypto primitives, Unicode upper case (parameters of the definitions that use them),
  the wording of the errors \<open>encoding/json\<close> returns, what \<open>fmt\<close> makes of formats and arguments (output is
  the list of both), signals beyond the end of a context, the interleaving of a failed write with
  other writes to one connection,
  and \<open>doc.go\<close> (a comment). The methods' nil receivers
  (other than those of the two \<open>Close\<close>) and the limit of Go's query parser on the number of parameters are left out.
\<close>

end
